(* ===== verification/Prelude.thy ===== *)
theory Prelude
  imports Main "HOL-Library.Signed_Division" "HOL-Library.Word"
begin

text \<open>
  Shared vocabulary of the development: the error values that stand for
  \<^verbatim>\<open>absl::Status\<close>, the sequencing of fallible steps that
  \<^verbatim>\<open>TENSORSTORE_ASSIGN_OR_RETURN\<close> and \<^verbatim>\<open>TENSORSTORE_RETURN_IF_ERROR\<close> express,
  the named collections of facts the component theories extend, and generic facts on
  lists, integer division and \<^verbatim>\<open>int64_t\<close> ranges used by several components.
  Error messages are not modelled: a failed operation is identified by its status code.
\<close>

section \<open>Collections of facts\<close>

named_theorems index_consts \<open>values of the index constants of index.h\<close>
named_theorems ivl_defs \<open>definitions of the interval accessors and constructors\<close>
named_theorems result_simps \<open>rewriting of sequenced fallible steps\<close>

section \<open>Status codes and results\<close>

text \<open>
  The status codes the modelled code returns (\<^verbatim>\<open>absl::StatusCode\<close>), and three outcomes that
  are not a status: \<open>BadAlloc\<close> for the exception \<^verbatim>\<open>std::bad_alloc\<close>, \<open>NullDereference\<close> for
  a read through a null pointer, which is undefined behaviour of the program, and \<open>CheckFailure\<close>
  for a failed check or the \<^verbatim>\<open>value()\<close> of an error result, which end the process.
\<close>

datatype status_code =
    InvalidArgument
  | OutOfRange
  | FailedPrecondition
  | NotFound
  | DataLoss
  | Aborted
  | Unimplemented
  | Unavailable
  | BadAlloc
  | NullDereference
  | CheckFailure

type_synonym 'a result = "status_code + 'a"

definition bind_result :: "'a result \<Rightarrow> ('a \<Rightarrow> 'b result) \<Rightarrow> 'b result" where
  "bind_result r f = (case r of Inl e \<Rightarrow> Inl e | Inr x \<Rightarrow> f x)"

lemma bind_result_simps [simp, result_simps]:
  "bind_result (Inl e) f = Inl e"
  "bind_result (Inr x) f = f x"
  by (simp_all add: bind_result_def)

lemma bind_result_Inr_iff [result_simps]:
  "bind_result r f = Inr y \<longleftrightarrow> (\<exists>x. r = Inr x \<and> f x = Inr y)"
  by (cases r) simp_all

lemma bind_result_Inl_iff [result_simps]:
  "bind_result r f = Inl e \<longleftrightarrow> r = Inl e \<or> (\<exists>x. r = Inr x \<and> f x = Inl e)"
  by (cases r) simp_all

text \<open>A loop whose body may fail: the first error ends it.\<close>

fun map_result :: "('a \<Rightarrow> 'b result) \<Rightarrow> 'a list \<Rightarrow> 'b list result" where
  "map_result f [] = Inr []"
| "map_result f (x # xs) =
     bind_result (f x) (\<lambda>y. bind_result (map_result f xs) (\<lambda>ys. Inr (y # ys)))"

lemma map_result_Inr_iff:
  "map_result f xs = Inr ys \<longleftrightarrow>
     length ys = length xs \<and> (\<forall>i < length xs. f (xs ! i) = Inr (ys ! i))"
proof (induction xs arbitrary: ys)
  case Nil
  then show ?case by auto
next
  case (Cons x xs)
  show ?case
  proof (cases ys)
    case Nil
    then show ?thesis by (auto simp: bind_result_Inr_iff)
  next
    case (Cons y ys')
    have split: "(\<forall>i < Suc (length xs). f ((x # xs) ! i) = Inr ((y # ys') ! i)) \<longleftrightarrow>
        f x = Inr y \<and> (\<forall>i < length xs. f (xs ! i) = Inr (ys' ! i))"
      by (auto simp: nth_Cons less_Suc_eq_0_disj split: nat.splits)
    show ?thesis
      using Cons.IH [of ys'] split by (auto simp: Cons bind_result_Inr_iff)
  qed
qed

text \<open>A loop that threads a state through a body that may fail.\<close>

fun fold_result :: "('a \<Rightarrow> 's \<Rightarrow> 's result) \<Rightarrow> 'a list \<Rightarrow> 's \<Rightarrow> 's result" where
  "fold_result f [] s = Inr s"
| "fold_result f (x # xs) s = bind_result (f x s) (fold_result f xs)"

lemma fold_result_append:
  "fold_result f (xs @ ys) s = bind_result (fold_result f xs s) (fold_result f ys)"
  by (induction xs arbitrary: s) (simp_all add: bind_result_def split: sum.splits)

text \<open>\<^verbatim>\<open>Result::value()\<close>: an error ends the process.\<close>

definition value_or_die :: "'a result \<Rightarrow> 'a result" where
  "value_or_die r = (case r of Inl _ \<Rightarrow> Inl CheckFailure | Inr x \<Rightarrow> Inr x)"

lemma value_or_die_Inr [simp]: "value_or_die (Inr x) = Inr x"
  by (simp add: value_or_die_def)

section \<open>The range of a 64-bit signed integer\<close>

text \<open>
  \<^verbatim>\<open>Index\<close> is \<^verbatim>\<open>int64_t\<close>. Index values are modelled as \<^typ>\<open>int\<close>: the code relies on
  overflow checks (\<^verbatim>\<open>AddOverflow\<close> and its kin) wherever a result may leave the range, and
  plain arithmetic elsewhere, for which the development proves that the range is kept.
\<close>

definition in_int64 :: "int \<Rightarrow> bool" where
  "in_int64 x \<longleftrightarrow> - (2 ^ 63) \<le> x \<and> x < 2 ^ 63"

lemma in_int64_simps [simp]: "in_int64 0" "in_int64 1" "in_int64 (- 1)"
  by (simp_all add: in_int64_def)

section \<open>Integer division\<close>

lemma int_div_bounds:
  fixes a b :: int
  assumes "0 < b"
  shows "b * (a div b) \<le> a" and "a < b * (a div b) + b"
  using assms mult_div_mod_eq [of b a] pos_mod_sign [of b a] pos_mod_bound [of b a]
  by linarith+

lemma le_int_div_iff:
  fixes a b q :: int
  assumes "0 < b"
  shows "q \<le> a div b \<longleftrightarrow> b * q \<le> a"
proof
  assume "q \<le> a div b"
  then have "b * q \<le> b * (a div b)"
    using assms by simp
  then show "b * q \<le> a"
    using int_div_bounds(1) [OF assms, of a] by linarith
next
  assume "b * q \<le> a"
  then have "(b * q) div b \<le> a div b"
    using assms by (rule zdiv_mono1)
  then show "q \<le> a div b"
    using assms by simp
qed

lemma int_div_eq_iff:
  fixes a b q :: int
  assumes "0 < b"
  shows "a div b = q \<longleftrightarrow> b * q \<le> a \<and> a < b * q + b"
proof
  assume "a div b = q"
  then show "b * q \<le> a \<and> a < b * q + b"
    using int_div_bounds [OF assms, of a] by auto
next
  assume "b * q \<le> a \<and> a < b * q + b"
  then show "a div b = q"
    by (intro int_div_pos_eq [where r = "a - b * q"]) auto
qed

text \<open>The ceiling of a ratio, as the reference for \<^verbatim>\<open>CeilOfRatio\<close>.\<close>

definition ceil_div :: "int \<Rightarrow> int \<Rightarrow> int" where
  "ceil_div a b = - ((- a) div b)"

lemma ceil_div_le_iff:
  assumes "0 < b"
  shows "ceil_div a b \<le> q \<longleftrightarrow> a \<le> b * q"
  using le_int_div_iff [OF assms, of "- q" "- a"] by (auto simp: ceil_div_def)

lemma ceil_div_bounds:
  assumes "0 < b"
  shows "a \<le> b * ceil_div a b" and "b * ceil_div a b < a + b"
  using int_div_bounds [OF assms, of "- a"] by (auto simp: ceil_div_def)

section \<open>Lists\<close>

lemma list_all2_nthI:
  assumes "length xs = length ys" "\<And>i. i < length xs \<Longrightarrow> P (xs ! i) (ys ! i)"
  shows "list_all2 P xs ys"
  using assms by (simp add: list_all2_conv_all_nth)

end
