(* ===== verification/Index_Arithmetic.thy ===== *)
theory Index_Arithmetic
  imports Prelude
begin

text \<open>
  The arithmetic layer: the constants of \<^verbatim>\<open>tensorstore/index.h\<close>, the wrapping and the
  overflow-checked operations of \<^verbatim>\<open>tensorstore/internal/integer_overflow.h\<close> at the type
  \<^verbatim>\<open>Index\<close> (\<^verbatim>\<open>int64_t\<close>), and the rounding divisions of \<^verbatim>\<open>tensorstore/util/division.h\<close>.
  An out parameter becomes the second component of the result; the division of C++, which
  truncates towards zero, is \<open>sdiv\<close>, its remainder \<open>smod\<close>.
\<close>

section \<open>index.h\<close>

definition kMinFiniteIndex :: int where
  "kMinFiniteIndex = - 0x3ffffffffffffffe"

definition kInfIndex :: int where
  "kInfIndex = 0x3fffffffffffffff"

definition kMaxFiniteIndex :: int where
  "kMaxFiniteIndex = 0x3ffffffffffffffe"

definition kInfSize :: int where
  "kInfSize = 0x7fffffffffffffff"

definition kMaxFiniteSize :: int where
  "kMaxFiniteSize = 0x7ffffffffffffffd"

definition kImplicit :: int where
  "kImplicit = - 0x8000000000000000"

text \<open>\<^verbatim>\<open>std::numeric_limits<Index>\<close>.\<close>

definition index_min :: int where "index_min = - (2 ^ 63)"
definition index_max :: int where "index_max = 2 ^ 63 - 1"

lemmas index_const_defs [index_consts] =
  kMinFiniteIndex_def kInfIndex_def kMaxFiniteIndex_def kInfSize_def kMaxFiniteSize_def
  kImplicit_def index_min_def index_max_def in_int64_def

text \<open>The two static assertions of the header.\<close>

lemma index_static_asserts:
  "- kInfIndex + kInfSize - 1 = kInfIndex"
  "kMinFiniteIndex + kMaxFiniteSize - 1 = kMaxFiniteIndex"
  by (simp_all add: index_consts)

section \<open>integer_overflow.h\<close>

text \<open>
  The value of an \<^verbatim>\<open>int64_t\<close> obtained by converting to \<^verbatim>\<open>uint64_t\<close>, computing there, and
  converting back: reduction into \<open>[- 2^63, 2^63)\<close>.
\<close>

definition wrap_index :: "int \<Rightarrow> int" where
  "wrap_index x = (x + 2 ^ 63) mod 2 ^ 64 - 2 ^ 63"

definition wrap_Add :: "int \<Rightarrow> int \<Rightarrow> int" where
  "wrap_Add a b = wrap_index (a + b)"

definition wrap_Subtract :: "int \<Rightarrow> int \<Rightarrow> int" where
  "wrap_Subtract a b = wrap_index (a - b)"

definition wrap_Multiply :: "int \<Rightarrow> int \<Rightarrow> int" where
  "wrap_Multiply a b = wrap_index (a * b)"

fun wrap_InnerProduct :: "int \<Rightarrow> int list \<Rightarrow> int list \<Rightarrow> int" where
  "wrap_InnerProduct acc (a # as) (b # bs) =
     wrap_InnerProduct (wrap_Add acc (wrap_Multiply a b)) as bs"
| "wrap_InnerProduct acc _ _ = acc"

definition InnerProduct :: "int list \<Rightarrow> int list \<Rightarrow> int" where
  "InnerProduct a b = wrap_InnerProduct 0 a b"

definition AddOverflow :: "int \<Rightarrow> int \<Rightarrow> bool \<times> int" where
  "AddOverflow a b = (\<not> in_int64 (a + b), wrap_Add a b)"

definition AddSaturate :: "int \<Rightarrow> int \<Rightarrow> int" where
  "AddSaturate a b =
     (let (overflow, result) = AddOverflow a b
      in if overflow then (if b \<ge> 0 then index_max else index_min) else result)"

definition SubOverflow :: "int \<Rightarrow> int \<Rightarrow> bool \<times> int" where
  "SubOverflow a b = (\<not> in_int64 (a - b), wrap_Subtract a b)"

definition MulOverflow :: "int \<Rightarrow> int \<Rightarrow> bool \<times> int" where
  "MulOverflow a b = (\<not> in_int64 (a * b), wrap_Multiply a b)"

text \<open>
  The portable variant that the header uses where the compiler has no overflow built-ins
  (\<^verbatim>\<open>_MSC_VER\<close>): the same flag computed by comparisons that do not overflow themselves.
\<close>

definition AddOverflow_portable :: "int \<Rightarrow> int \<Rightarrow> bool \<times> int" where
  "AddOverflow_portable a b =
     ((a > 0 \<and> b > index_max - a) \<or> (a < 0 \<and> b < index_min - a), wrap_Add a b)"

definition SubOverflow_portable :: "int \<Rightarrow> int \<Rightarrow> bool \<times> int" where
  "SubOverflow_portable a b =
     ((b < 0 \<and> a > index_max + b) \<or> (b > 0 \<and> a < index_min + b), wrap_Subtract a b)"

definition MulOverflow_portable :: "int \<Rightarrow> int \<Rightarrow> bool \<times> int" where
  "MulOverflow_portable a b =
     (let r = wrap_Multiply a b in (b \<noteq> 0 \<and> r sdiv b \<noteq> a, r))"

subsection \<open>Facts\<close>

lemma in_int64_wrap_index [simp]: "in_int64 (wrap_index x)"
proof -
  have "0 \<le> (x + 2 ^ 63) mod 2 ^ 64" and "(x + 2 ^ 63) mod 2 ^ 64 < (2 ^ 64 :: int)"
    by (rule pos_mod_sign pos_mod_bound; simp)+
  then show ?thesis by (simp add: wrap_index_def in_int64_def)
qed

lemma wrap_index_id [simp]: "in_int64 x \<Longrightarrow> wrap_index x = x"
  by (simp add: wrap_index_def in_int64_def)

lemma wrap_index_eq_iff: "wrap_index x = x \<longleftrightarrow> in_int64 x"
  using in_int64_wrap_index [of x] wrap_index_id [of x] by metis

lemma wrap_index_diff: "\<exists>k. wrap_index x = x - k * 2 ^ 64"
  using minus_div_mult_eq_mod [of "x + 2 ^ 63" "2 ^ 64"]
  by (intro exI [of _ "(x + 2 ^ 63) div 2 ^ 64"]) (simp add: wrap_index_def)

lemma wrap_index_mod [simp]:
  "wrap_index (wrap_index x + y) = wrap_index (x + y)"
  "wrap_index (y + wrap_index x) = wrap_index (y + x)"
  "wrap_index (wrap_index x) = wrap_index x"
  by (simp_all add: wrap_index_def mod_simps algebra_simps)

lemma wrap_index_sint: "wrap_index x = sint (word_of_int x :: 64 word)"
  by (simp add: wrap_index_def sint_uint signed_take_bit_eq_take_bit_shift
      take_bit_eq_mod uint_word_of_int mod_simps algebra_simps)

text \<open>Equality of wrapped values is congruence modulo the word size.\<close>

definition weq :: "int \<Rightarrow> int \<Rightarrow> bool" where
  "weq a b \<longleftrightarrow> (2 ^ 64) dvd (a - b)"

lemma wrap_index_eq_weq: "wrap_index a = wrap_index b \<longleftrightarrow> weq a b"
proof -
  have "wrap_index a = wrap_index b \<longleftrightarrow> (a + 2 ^ 63) mod 2 ^ 64 = (b + 2 ^ 63) mod 2 ^ 64"
    by (auto simp: wrap_index_def)
  also have "\<dots> \<longleftrightarrow> weq a b" by (simp add: weq_def mod_eq_dvd_iff)
  finally show ?thesis .
qed

lemma weq_refl [simp, intro]: "weq a a"
  by (simp add: weq_def)

lemma weq_sym: "weq a b \<Longrightarrow> weq b a"
  by (simp add: weq_def dvd_diff_commute)

lemma weq_trans [trans]: "weq a b \<Longrightarrow> weq b c \<Longrightarrow> weq a c"
  unfolding weq_def using dvd_add [of _ "a - b" "b - c"] by simp

lemma weq_wrap [simp]: "weq (wrap_index a) a"
  using wrap_index_eq_weq [of "wrap_index a" a] by simp

lemma weq_add: "weq a b \<Longrightarrow> weq c d \<Longrightarrow> weq (a + c) (b + d)"
  unfolding weq_def using dvd_add [of _ "a - b" "c - d"] by (simp add: algebra_simps)

lemma weq_minus: "weq a b \<Longrightarrow> weq (- a) (- b)"
  unfolding weq_def by (simp add: dvd_diff_commute)

lemma weq_diff: "weq a b \<Longrightarrow> weq c d \<Longrightarrow> weq (a - c) (b - d)"
  using weq_add [OF _ weq_minus] by simp

lemma weq_mult:
  assumes "weq a b" "weq c d"
  shows "weq (a * c) (b * d)"
proof -
  have "a * c - b * d = (a - b) * c + b * (c - d)" by (simp add: algebra_simps)
  then show ?thesis using assms unfolding weq_def by simp
qed

lemma weq_sum_list: "(\<And>x. x \<in> set xs \<Longrightarrow> weq (f x) (g x)) \<Longrightarrow> weq (sum_list (map f xs)) (sum_list (map g xs))"
  by (induction xs) (auto intro: weq_add)

lemma weq_wrap_iff [simp]:
  "weq (wrap_index a) b \<longleftrightarrow> weq a b" "weq a (wrap_index b) \<longleftrightarrow> weq a b"
  using weq_wrap weq_sym weq_trans by blast+

lemma weq_wrap_Multiply: "weq (wrap_Multiply a b) (a * b)"
  by (simp add: wrap_Multiply_def)

lemma weq_wrap_Multiply2: "weq (wrap_Multiply a (wrap_Multiply b c)) (a * (b * c))"
  by (rule weq_trans [OF weq_wrap_Multiply weq_mult [OF weq_refl weq_wrap_Multiply]])

lemma weq_wrap_Add: "weq (wrap_Add a b) (a + b)"
  by (simp add: wrap_Add_def)

lemmas weq_intros = weq_add weq_diff weq_minus weq_mult weq_wrap_Multiply weq_wrap_Add weq_wrap weq_refl

lemma AddOverflow_eq_False:
  "AddOverflow a b = (False, c) \<longleftrightarrow> in_int64 (a + b) \<and> c = a + b"
  by (auto simp: AddOverflow_def wrap_Add_def)

lemma SubOverflow_eq_False:
  "SubOverflow a b = (False, c) \<longleftrightarrow> in_int64 (a - b) \<and> c = a - b"
  by (auto simp: SubOverflow_def wrap_Subtract_def)

lemma MulOverflow_eq_False:
  "MulOverflow a b = (False, c) \<longleftrightarrow> in_int64 (a * b) \<and> c = a * b"
  by (auto simp: MulOverflow_def wrap_Multiply_def)

lemma wrap_InnerProduct_eq:
  "wrap_InnerProduct (wrap_index acc) as bs =
     wrap_index (acc + sum_list (map2 (*) as bs))"
proof (induction as arbitrary: acc bs)
  case Nil
  then show ?case by simp
next
  case (Cons a as)
  show ?case
  proof (cases bs)
    case Nil
    then show ?thesis by simp
  next
    case (Cons b bs')
    have "wrap_InnerProduct (wrap_index acc) (a # as) bs
        = wrap_InnerProduct (wrap_index (acc + a * b)) as bs'"
      by (simp add: Cons wrap_Add_def wrap_Multiply_def)
    then show ?thesis
      by (simp add: Cons.IH Cons add.assoc)
  qed
qed

lemma InnerProduct_eq: "InnerProduct a b = wrap_index (sum_list (map2 (*) a b))"
  using wrap_InnerProduct_eq [of 0 a b] by (simp add: InnerProduct_def)

lemma AddSaturate_eq:
  assumes "in_int64 a" "in_int64 b"
  shows "AddSaturate a b = max index_min (min index_max (a + b))"
  using assms
  by (auto simp: AddSaturate_def AddOverflow_def wrap_Add_def index_consts)

lemma AddOverflow_portable_eq:
  assumes "in_int64 a" "in_int64 b"
  shows "AddOverflow_portable a b = AddOverflow a b"
  using assms by (auto simp: AddOverflow_portable_def AddOverflow_def index_consts)

lemma SubOverflow_portable_eq:
  assumes "in_int64 a" "in_int64 b"
  shows "SubOverflow_portable a b = SubOverflow a b"
  using assms by (auto simp: SubOverflow_portable_def SubOverflow_def index_consts)

lemma MulOverflow_portable_eq:
  assumes a: "in_int64 a" and b: "in_int64 b"
  shows "MulOverflow_portable a b = MulOverflow a b"
proof -
  define r where "r = wrap_index (a * b)"
  have "in_int64 (a * b) \<longleftrightarrow> b = 0 \<or> r sdiv b = a"
  proof
    assume "in_int64 (a * b)"
    then have "r = a * b" by (simp add: r_def)
    then show "b = 0 \<or> r sdiv b = a"
      by (simp add: signed_divide_int_eq_divide_int)
  next
    assume "b = 0 \<or> r sdiv b = a"
    then show "in_int64 (a * b)"
    proof
      assume "b = 0"
      then show ?thesis by simp
    next
      assume q: "r sdiv b = a"
      show ?thesis
      proof (cases "b = 0")
        case False
        obtain k where k: "r = a * b - k * 2 ^ 64"
          using wrap_index_diff unfolding r_def by blast
        have "r = b * (r sdiv b) + r smod b"
          by (simp add: mult_sdiv_smod_eq)
        then have "r smod b = - k * 2 ^ 64"
          using q k by simp
        moreover have "\<bar>r smod b\<bar> < \<bar>b\<bar>"
          using False by (auto simp: signed_modulo_int_def abs_mult sgn_if)
        moreover have "\<bar>b\<bar> \<le> 2 ^ 63"
          using b by (simp add: in_int64_def abs_le_iff)
        ultimately have "k = 0"
          by (simp add: abs_mult)
        then show ?thesis
          using k in_int64_wrap_index [of "a * b"] by (simp add: r_def)
      qed simp
    qed
  qed
  then show ?thesis
    by (auto simp: MulOverflow_portable_def MulOverflow_def Let_def r_def wrap_Multiply_def)
qed

section \<open>division.h\<close>

definition RoundUpTo :: "int \<Rightarrow> int \<Rightarrow> int" where
  "RoundUpTo input rounding_value =
     (let remainder = input smod rounding_value
      in if remainder = 0 then input else input + (rounding_value - remainder))"

definition CeilOrFloorOfRatio :: "bool \<Rightarrow> int \<Rightarrow> int \<Rightarrow> int" where
  "CeilOrFloorOfRatio ceil numerator denominator =
     (let rounded_toward_zero = numerator sdiv denominator;
          intermediate_product = rounded_toward_zero * denominator
      in if ceil then
           (let needs_adjustment =
                  rounded_toward_zero \<ge> 0 \<and>
                  (denominator > 0 \<and> numerator > intermediate_product \<or>
                   denominator < 0 \<and> numerator < intermediate_product)
            in rounded_toward_zero + of_bool needs_adjustment)
         else
           (let needs_adjustment =
                  rounded_toward_zero \<le> 0 \<and>
                  (denominator > 0 \<and> numerator < intermediate_product \<or>
                   denominator < 0 \<and> numerator > intermediate_product)
            in rounded_toward_zero - of_bool needs_adjustment))"

definition CeilOfRatio :: "int \<Rightarrow> int \<Rightarrow> int" where
  "CeilOfRatio numerator denominator = CeilOrFloorOfRatio True numerator denominator"

definition FloorOfRatio :: "int \<Rightarrow> int \<Rightarrow> int" where
  "FloorOfRatio numerator denominator = CeilOrFloorOfRatio False numerator denominator"

definition NonnegativeMod :: "int \<Rightarrow> int \<Rightarrow> int" where
  "NonnegativeMod numerator denominator =
     (let modulus = numerator smod denominator
      in modulus + of_bool (modulus < 0) * denominator)"

definition GreatestCommonDivisor :: "int \<Rightarrow> int \<Rightarrow> int" where
  "GreatestCommonDivisor x y =
     (let ux = (if x < 0 then - x else x);
          uy = (if y < 0 then - y else y)
      in wrap_index (gcd ux uy))"

subsection \<open>The rounding divisions compute the floor and the ceiling\<close>

lemma sdiv_mult_smod: "(a :: int) sdiv b * b + a smod b = a"
  by (metis mult.commute mult_sdiv_smod_eq)

lemma smod_sign:
  fixes a b :: int
  shows "0 \<le> a \<Longrightarrow> 0 \<le> a smod b" and "a \<le> 0 \<Longrightarrow> a smod b \<le> 0"
  by (cases "b = 0"; auto simp: signed_modulo_int_def sgn_if)+

lemma sdiv_pos_cases:
  fixes a b :: int
  assumes "0 < b"
  shows "a sdiv b = (if 0 \<le> a then a div b else - ((- a) div b))"
  using assms by (auto simp: signed_divide_int_def sgn_if)

lemma sdiv_smod_nonneg:
  fixes a b :: int
  assumes "0 < b" "0 \<le> a"
  shows "a sdiv b = a div b" and "a smod b = a mod b"
proof -
  show q: "a sdiv b = a div b" using sdiv_pos_cases [OF assms(1), of a] assms(2) by simp
  show "a smod b = a mod b"
    using sdiv_mult_smod [of a b] div_mult_mod_eq [of a b] unfolding q by linarith
qed

lemma FloorOfRatio_pos:
  assumes b: "0 < b"
  shows "FloorOfRatio a b = a div b"
proof (cases "0 \<le> a")
  case True
  then have "0 \<le> a div b"
    using b by (simp add: pos_imp_zdiv_nonneg_iff)
  then show ?thesis
    using True b int_div_bounds [OF b, of a]
    by (auto simp: FloorOfRatio_def CeilOrFloorOfRatio_def sdiv_pos_cases Let_def mult.commute)
next
  case False
  define q where "q = (- a) div b"
  have q: "b * q \<le> - a" "- a < b * q + b" "0 \<le> q"
    using int_div_bounds [OF b, of "- a"] False b
    by (auto simp: q_def pos_imp_zdiv_nonneg_iff)
  have "a div b = - q - of_bool (a < - q * b)"
    unfolding int_div_eq_iff [OF b] using q by (auto simp: algebra_simps)
  then show ?thesis
    using False b q
    by (auto simp: FloorOfRatio_def CeilOrFloorOfRatio_def sdiv_pos_cases Let_def q_def)
qed

lemma CeilOrFloor_minus:
  "CeilOrFloorOfRatio c (- a) b = - CeilOrFloorOfRatio (\<not> c) a b"
  "CeilOrFloorOfRatio c a (- b) = - CeilOrFloorOfRatio (\<not> c) a b"
  by (auto simp: CeilOrFloorOfRatio_def Let_def)

lemma CeilOfRatio_eq_Floor: "CeilOfRatio a b = - FloorOfRatio (- a) b"
  by (simp add: CeilOfRatio_def FloorOfRatio_def CeilOrFloor_minus)

lemma FloorOfRatio_eq: "b \<noteq> 0 \<Longrightarrow> FloorOfRatio a b = a div b"
  using FloorOfRatio_pos [of b a] FloorOfRatio_pos [of "- b" "- a"]
  by (cases "0 < b") (auto simp: FloorOfRatio_def CeilOrFloor_minus div_minus_minus)

lemma CeilOfRatio_eq: "b \<noteq> 0 \<Longrightarrow> CeilOfRatio a b = ceil_div a b"
  by (simp add: CeilOfRatio_eq_Floor FloorOfRatio_eq ceil_div_def)

lemma NonnegativeMod_eq:
  assumes "0 < b"
  shows "NonnegativeMod a b = a mod b"
  using assms smod_sign [of a b] pos_mod_sign [OF assms, of a] pos_mod_bound [OF assms, of a]
  by (auto simp: NonnegativeMod_def Let_def signed_modulo_int_eq_modulo_int sgn_if
      dvd_eq_mod_eq_0 split: if_splits)

lemma RoundUpTo_eq:
  assumes "0 \<le> a" "0 < b"
  shows "RoundUpTo a b = b * ceil_div a b"
proof -
  have m: "a smod b = a mod b"
    using assms by (auto simp: signed_modulo_int_def sgn_if)
  have "ceil_div a b = a div b + of_bool (a mod b \<noteq> 0)"
    using assms by (simp add: ceil_div_def zdiv_zminus1_eq_if)
  then show ?thesis
    using mult_div_mod_eq [of b a]
    by (auto simp: RoundUpTo_def Let_def m algebra_simps)
qed

lemma GreatestCommonDivisor_eq:
  "in_int64 (gcd x y) \<Longrightarrow> GreatestCommonDivisor x y = gcd x y"
  by (simp add: GreatestCommonDivisor_def Let_def)

end
