(* ===== verification/Index_Interval.thy ===== *)
theory Index_Interval
  imports Index_Arithmetic
begin

text \<open>
  Index intervals: \<^verbatim>\<open>tensorstore/index_interval.h\<close> and \<^verbatim>\<open>tensorstore/index_interval.cc\<close>.
  An \<^verbatim>\<open>IndexInterval\<close> is stored as an inclusive minimum and a size, where the bounds
  \<open>-kInfIndex\<close> and \<open>+kInfIndex\<close> stand for an unbounded side. The unchecked constructors of
  the class only assert their preconditions; here they build the record, and the lemmas of
  this theory and of \<open>Interval_Properties\<close> prove that the assertions hold wherever the code
  uses them. \<^verbatim>\<open>OptionallyImplicitIndexInterval\<close> adds the two implicit flags, and
  \<^verbatim>\<open>IndexDomainDimension\<close> a label.
\<close>

section \<open>Data\<close>

record index_interval =
  inclusive_min :: int
  interval_size :: int

record oi_interval =
  interval :: index_interval
  implicit_lower :: bool
  implicit_upper :: bool

record index_domain_dimension =
  optionally_implicit_interval :: oi_interval
  label :: string

datatype interval_form = Sized_form | Closed_form | HalfOpen_form

section \<open>Index and interval predicates, constructors and accessors\<close>

definition IsFiniteIndex :: "int \<Rightarrow> bool" where
  "IsFiniteIndex index \<longleftrightarrow> index \<ge> kMinFiniteIndex \<and> index \<le> kMaxFiniteIndex"

definition IsValidIndex :: "int \<Rightarrow> bool" where
  "IsValidIndex index \<longleftrightarrow> index \<ge> - kInfIndex \<and> index \<le> kInfIndex"

definition mk_interval :: "int \<Rightarrow> int \<Rightarrow> index_interval" where
  "mk_interval imin sz = \<lparr>inclusive_min = imin, interval_size = sz\<rparr>"

definition Infinite :: index_interval where
  "Infinite = mk_interval (- kInfIndex) kInfSize"

definition ValidClosed :: "int \<Rightarrow> int \<Rightarrow> bool" where
  "ValidClosed imin imax \<longleftrightarrow>
     imin \<ge> - kInfIndex \<and> imin < kInfIndex \<and>
     imax > - kInfIndex \<and> imax \<ge> imin - 1 \<and> imax \<le> kInfIndex"

definition UncheckedClosed :: "int \<Rightarrow> int \<Rightarrow> index_interval" where
  "UncheckedClosed imin imax = mk_interval imin (imax - imin + 1)"

definition Closed :: "int \<Rightarrow> int \<Rightarrow> index_interval result" where
  "Closed imin imax =
     (if \<not> ValidClosed imin imax then Inl InvalidArgument
      else Inr (UncheckedClosed imin imax))"

definition ValidHalfOpen :: "int \<Rightarrow> int \<Rightarrow> bool" where
  "ValidHalfOpen imin emax \<longleftrightarrow>
     imin \<ge> - kInfIndex \<and> imin < kInfIndex \<and>
     emax > - kInfIndex + 1 \<and> emax \<ge> imin \<and> emax \<le> kInfIndex + 1"

definition UncheckedHalfOpen :: "int \<Rightarrow> int \<Rightarrow> index_interval" where
  "UncheckedHalfOpen imin emax = mk_interval imin (emax - imin)"

definition HalfOpen :: "int \<Rightarrow> int \<Rightarrow> index_interval result" where
  "HalfOpen imin emax =
     (if \<not> ValidHalfOpen imin emax then Inl InvalidArgument
      else Inr (UncheckedHalfOpen imin emax))"

definition ValidSized :: "int \<Rightarrow> int \<Rightarrow> bool" where
  "ValidSized imin sz \<longleftrightarrow>
     imin \<ge> - kInfIndex \<and> sz \<ge> 0 \<and> sz \<le> kInfSize \<and>
     imin < kInfIndex \<and> imin \<le> kInfIndex + 1 - sz \<and>
     imin + sz > - kInfIndex + 1"

definition UncheckedSized :: "int \<Rightarrow> int \<Rightarrow> index_interval" where
  "UncheckedSized imin sz = mk_interval imin sz"

definition Sized :: "int \<Rightarrow> int \<Rightarrow> index_interval result" where
  "Sized imin sz =
     (if \<not> ValidSized imin sz then Inl InvalidArgument
      else Inr (UncheckedSized imin sz))"

definition FiniteRange :: index_interval where
  "FiniteRange = UncheckedClosed kMinFiniteIndex kMaxFiniteIndex"

definition exclusive_min :: "index_interval \<Rightarrow> int" where
  "exclusive_min x = inclusive_min x - 1"

definition exclusive_max :: "index_interval \<Rightarrow> int" where
  "exclusive_max x = inclusive_min x + interval_size x"

definition inclusive_max :: "index_interval \<Rightarrow> int" where
  "inclusive_max x = inclusive_min x + interval_size x - 1"

definition empty_interval :: "index_interval \<Rightarrow> bool" where
  "empty_interval x \<longleftrightarrow> interval_size x = 0"

definition negate_interval :: "index_interval \<Rightarrow> index_interval" where
  "negate_interval x =
     (if interval_size x = 0 then mk_interval (- inclusive_min x) 0
      else mk_interval (- inclusive_max x) (interval_size x))"

definition Contains_index :: "index_interval \<Rightarrow> int \<Rightarrow> bool" where
  "Contains_index i index \<longleftrightarrow>
     index \<ge> kMinFiniteIndex \<and> index \<le> kMaxFiniteIndex \<and>
     index \<ge> inclusive_min i \<and> index \<le> inclusive_max i"

definition Contains_interval :: "index_interval \<Rightarrow> index_interval \<Rightarrow> bool" where
  "Contains_interval outer inner \<longleftrightarrow>
     interval_size inner = 0 \<or>
     (inclusive_min inner \<ge> inclusive_min outer \<and> inclusive_max inner \<le> inclusive_max outer)"

definition IsFinite_interval :: "index_interval \<Rightarrow> bool" where
  "IsFinite_interval i \<longleftrightarrow> inclusive_min i \<noteq> - kInfIndex \<and> inclusive_max i \<noteq> kInfIndex"

definition ExplicitIndexOr :: "int \<Rightarrow> int \<Rightarrow> int" where
  "ExplicitIndexOr index default_value = (if index = kImplicit then default_value else index)"

definition ImplicitOrEqual :: "int \<Rightarrow> int \<Rightarrow> bool" where
  "ImplicitOrEqual index expected \<longleftrightarrow> index = kImplicit \<or> index = expected"

definition DividePositiveRoundOut :: "index_interval \<Rightarrow> int \<Rightarrow> index_interval" where
  "DividePositiveRoundOut i divisor =
     UncheckedHalfOpen (FloorOfRatio (inclusive_min i) divisor)
                       (CeilOfRatio (exclusive_max i) divisor)"

definition default_oi :: oi_interval where
  "default_oi = \<lparr>interval = Infinite, implicit_lower = True, implicit_upper = True\<rparr>"

definition effective_interval :: "oi_interval \<Rightarrow> index_interval" where
  "effective_interval x =
     UncheckedClosed (if implicit_lower x then - kInfIndex else inclusive_min (interval x))
                     (if implicit_upper x then kInfIndex else inclusive_max (interval x))"

lemmas interval_accessor_defs [ivl_defs] =
  mk_interval_def UncheckedClosed_def UncheckedHalfOpen_def UncheckedSized_def
  exclusive_min_def exclusive_max_def inclusive_max_def empty_interval_def

section \<open>index\_interval.cc: set operations and shifts\<close>

definition AreCompatibleOrUnbounded :: "index_interval \<Rightarrow> index_interval \<Rightarrow> bool" where
  "AreCompatibleOrUnbounded a b \<longleftrightarrow>
     (let a_lower = inclusive_min a; a_upper = inclusive_max a;
          b_lower = inclusive_min b; b_upper = inclusive_max b
      in (a_lower = b_lower \<or> a_lower = - kInfIndex \<or> b_lower = - kInfIndex) \<and>
         (a_upper = b_upper \<or> a_upper = kInfIndex \<or> b_upper = kInfIndex))"

definition Hull :: "index_interval \<Rightarrow> index_interval \<Rightarrow> index_interval" where
  "Hull a b =
     (if empty_interval a then b
      else if empty_interval b then a
      else UncheckedClosed (min (inclusive_min a) (inclusive_min b))
                           (max (inclusive_max a) (inclusive_max b)))"

definition Intersect :: "index_interval \<Rightarrow> index_interval \<Rightarrow> index_interval" where
  "Intersect a b =
     (let lower = max (inclusive_min a) (inclusive_min b);
          upper = min (inclusive_max a) (inclusive_max b);
          sz = (if upper < lower then 0 else upper - lower + 1)
      in UncheckedSized lower sz)"

definition FiniteSubset :: "index_interval \<Rightarrow> index_interval" where
  "FiniteSubset i = Intersect i FiniteRange"

definition Hull_oi :: "oi_interval \<Rightarrow> oi_interval \<Rightarrow> oi_interval" where
  "Hull_oi a b =
     (let i = Hull (interval a) (interval b);
          lower = (if inclusive_min (interval a) = inclusive_min (interval b)
                   then implicit_lower a \<and> implicit_lower b
                   else if inclusive_min i = inclusive_min (interval a)
                   then implicit_lower a else implicit_lower b);
          upper = (if inclusive_max (interval a) = inclusive_max (interval b)
                   then implicit_upper a \<and> implicit_upper b
                   else if inclusive_max (interval a) = inclusive_max i
                   then implicit_upper a else implicit_upper b)
      in \<lparr>interval = i, implicit_lower = lower, implicit_upper = upper\<rparr>)"

definition Intersect_oi :: "oi_interval \<Rightarrow> oi_interval \<Rightarrow> oi_interval" where
  "Intersect_oi a b =
     (let i = Intersect (interval a) (interval b);
          lower = (if inclusive_min (interval a) = inclusive_min (interval b)
                   then implicit_lower a \<and> implicit_lower b
                   else if inclusive_min i = inclusive_min (interval a)
                   then implicit_lower a else implicit_lower b);
          upper = (if inclusive_max (interval a) = inclusive_max (interval b)
                   then implicit_upper a \<and> implicit_upper b
                   else if inclusive_max (interval a) < inclusive_max (interval b)
                   then implicit_upper a else implicit_upper b)
      in \<lparr>interval = i, implicit_lower = lower, implicit_upper = upper\<rparr>)"

definition IntersectPreferringExplicit :: "oi_interval \<Rightarrow> oi_interval \<Rightarrow> oi_interval" where
  "IntersectPreferringExplicit a b =
     (let imin = (if implicit_lower a = implicit_lower b
                  then max (inclusive_min (interval a)) (inclusive_min (interval b))
                  else max (inclusive_min (effective_interval a))
                           (inclusive_min (effective_interval b)));
          imax = (if implicit_upper a = implicit_upper b
                  then min (inclusive_max (interval a)) (inclusive_max (interval b))
                  else min (inclusive_max (effective_interval a))
                           (inclusive_max (effective_interval b)))
      in \<lparr>interval = UncheckedClosed imin (max (imin - 1) imax),
          implicit_lower = implicit_lower a \<and> implicit_lower b,
          implicit_upper = implicit_upper a \<and> implicit_upper b\<rparr>)"

definition ContainsOrUnbounded :: "index_interval \<Rightarrow> index_interval \<Rightarrow> bool" where
  "ContainsOrUnbounded outer inner \<longleftrightarrow>
     (inclusive_min inner = - kInfIndex \<or> inclusive_min inner \<ge> inclusive_min outer) \<and>
     (inclusive_max inner = kInfIndex \<or> inclusive_max inner \<le> inclusive_max outer)"

text \<open>One bound of \<^verbatim>\<open>ShiftInterval\<close>: an infinite bound stays, a finite one is checked.\<close>

definition shift_bound :: "int \<Rightarrow> int \<Rightarrow> int \<Rightarrow> int result" where
  "shift_bound infb bound offset =
     (if bound = infb then Inr infb
      else let (overflow, b) = AddOverflow bound offset
           in if overflow \<or> \<not> IsFiniteIndex b then Inl InvalidArgument else Inr b)"

definition ShiftInterval2 :: "index_interval \<Rightarrow> int \<Rightarrow> int \<Rightarrow> index_interval result" where
  "ShiftInterval2 i min_offset max_offset =
     bind_result (shift_bound (- kInfIndex) (inclusive_min i) min_offset) (\<lambda>imin.
     bind_result (shift_bound kInfIndex (inclusive_max i) max_offset) (\<lambda>imax.
     Inr (UncheckedClosed imin imax)))"

definition ShiftIntervalBackward2 :: "index_interval \<Rightarrow> int \<Rightarrow> int \<Rightarrow> index_interval result" where
  "ShiftIntervalBackward2 i min_offset max_offset =
     ShiftInterval2 i (wrap_Multiply min_offset (- 1)) (wrap_Multiply max_offset (- 1))"

definition ShiftInterval :: "index_interval \<Rightarrow> int \<Rightarrow> index_interval result" where
  "ShiftInterval i offset = ShiftInterval2 i offset offset"

definition ShiftIntervalBackward :: "index_interval \<Rightarrow> int \<Rightarrow> index_interval result" where
  "ShiftIntervalBackward i offset = ShiftIntervalBackward2 i offset offset"

definition ShiftIntervalTo :: "index_interval \<Rightarrow> int \<Rightarrow> index_interval result" where
  "ShiftIntervalTo i origin =
     (if \<not> IsFiniteIndex origin then Inl OutOfRange
      else if inclusive_min i = - kInfIndex then Inl InvalidArgument
      else ShiftInterval i (snd (SubOverflow origin (inclusive_min i))))"

definition CheckContains :: "index_interval \<Rightarrow> int \<Rightarrow> unit result" where
  "CheckContains i index = (if Contains_index i index then Inr () else Inl OutOfRange)"

section \<open>index\_interval.cc: strided slices\<close>

text \<open>
  \<^verbatim>\<open>ExtractStridedSlice\<close> first resolves \<open>start\<close> (with the flag that the start was left
  implicit), then the inclusive stop, then builds the result. The assignments
  \<^verbatim>\<open>orig.implicit_lower() = false\<close> and \<^verbatim>\<open>orig.implicit_upper() = false\<close> are the flags
  carried along.
\<close>

definition slice_start :: "oi_interval \<Rightarrow> int \<Rightarrow> int \<Rightarrow> (int \<times> bool) result" where
  "slice_start orig start stride =
     (if start = kImplicit then
        Inr (if stride > 0 then inclusive_min (interval orig) else inclusive_max (interval orig),
             implicit_lower orig)
      else if \<not> IsValidIndex start then Inl InvalidArgument
      else Inr (start, False))"

definition slice_stop ::
  "oi_interval \<Rightarrow> interval_form \<Rightarrow> int \<Rightarrow> int \<Rightarrow> int \<Rightarrow> (int \<times> bool) result" where
  "slice_stop orig form start stop_or_size stride =
     (if form = Sized_form then
        (let sz = stop_or_size
         in if sz = kImplicit then
              Inr (if stride > 0 then inclusive_max (interval orig)
                   else inclusive_min (interval orig), implicit_upper orig)
            else if sz < 0 then Inl InvalidArgument
            else if sz = 0 then Inr (start + (if stride > 0 then - 1 else 1), False)
            else let (overflow1, extent) = MulOverflow stride (sz - 1);
                     (overflow2, stop) = AddOverflow start extent
                 in if overflow1 \<or> overflow2 then Inl OutOfRange else Inr (stop, False))
      else if stop_or_size = kImplicit then
        Inr (if stride > 0 then inclusive_max (interval orig)
             else inclusive_min (interval orig), implicit_upper orig)
      else if form = Closed_form \<or> \<not> IsFiniteIndex stop_or_size then Inr (stop_or_size, False)
      else Inr (stop_or_size + (if stride > 0 then - 1 else 1), False))"

definition ExtractStridedSlice ::
  "oi_interval \<Rightarrow> interval_form \<Rightarrow> int \<Rightarrow> int \<Rightarrow> int \<Rightarrow> (oi_interval \<times> int) result" where
  "ExtractStridedSlice orig form start0 stop_or_size stride =
     (let constraint = UncheckedClosed
            (if implicit_lower orig then - kInfIndex else inclusive_min (interval orig))
            (if implicit_upper orig then kInfIndex else inclusive_max (interval orig))
      in if stride = 0 \<or> stride = index_min then Inl InvalidArgument
      else
        bind_result (slice_start orig start0 stride) (\<lambda>(start, lower).
        bind_result (slice_stop orig form start stop_or_size stride) (\<lambda>(inclusive_stop, upper).
        if \<bar>stride\<bar> \<noteq> 1 \<and> \<not> IsFiniteIndex start then Inl InvalidArgument
        else
          bind_result
            (if stride > 0 then Closed start inclusive_stop else Closed inclusive_stop start)
            (\<lambda>adjusted_interval.
          if \<not> Contains_interval constraint adjusted_interval then Inl OutOfRange
          else
            (let new_start = start sdiv stride;
                 new_size = (if \<bar>inclusive_stop\<bar> = kInfIndex then kInfIndex + 1 - new_start
                             else CeilOfRatio (interval_size adjusted_interval) \<bar>stride\<bar>)
             in Inr (\<lparr>interval = UncheckedSized new_start new_size,
                      implicit_lower = (if stride > 0 then lower else upper),
                      implicit_upper = (if stride > 0 then upper else lower)\<rparr>, start))))))"

definition ExtractHalfOpenStridedSlice ::
  "oi_interval \<Rightarrow> int \<Rightarrow> int \<Rightarrow> int \<Rightarrow> (oi_interval \<times> int) result" where
  "ExtractHalfOpenStridedSlice orig start stop stride =
     ExtractStridedSlice orig HalfOpen_form start stop stride"

definition ExtractClosedStridedSlice ::
  "oi_interval \<Rightarrow> int \<Rightarrow> int \<Rightarrow> int \<Rightarrow> (oi_interval \<times> int) result" where
  "ExtractClosedStridedSlice orig start stop stride =
     ExtractStridedSlice orig Closed_form start stop stride"

definition ExtractSizedStridedSlice ::
  "oi_interval \<Rightarrow> int \<Rightarrow> int \<Rightarrow> int \<Rightarrow> (oi_interval \<times> int) result" where
  "ExtractSizedStridedSlice orig start sz stride =
     ExtractStridedSlice orig Sized_form start sz stride"

text \<open>The optional translation of the result of \<^verbatim>\<open>ComputeStridedSliceMap\<close> to an origin.\<close>

definition slice_translate :: "int \<Rightarrow> oi_interval \<Rightarrow> oi_interval result" where
  "slice_translate translate_origin_to new_interval =
     (if translate_origin_to \<noteq> kImplicit then
        bind_result (ShiftIntervalTo (interval new_interval) translate_origin_to)
          (\<lambda>i. Inr (new_interval\<lparr>interval := i\<rparr>))
      else Inr new_interval)"

definition ComputeStridedSliceMap ::
  "oi_interval \<Rightarrow> interval_form \<Rightarrow> int \<Rightarrow> int \<Rightarrow> int \<Rightarrow> int \<Rightarrow> (oi_interval \<times> int) result" where
  "ComputeStridedSliceMap orig form translate_origin_to start stop_or_size stride =
     bind_result (ExtractStridedSlice orig form start stop_or_size stride)
       (\<lambda>(new_interval, adjusted_start).
     bind_result (slice_translate translate_origin_to new_interval) (\<lambda>new_interval.
     let (overflow1, scaled_min) = MulOverflow (inclusive_min (interval new_interval)) stride;
         (overflow2, output_offset) = SubOverflow adjusted_start scaled_min
     in if overflow1 \<or> overflow2 then Inl OutOfRange
        else Inr (new_interval, output_offset)))"

section \<open>index\_interval.cc: affine transforms of intervals\<close>

text \<open>
  The \<^verbatim>\<open>do { ... break; ... } while (false)\<close> of \<^verbatim>\<open>GetAffineTransformDomain\<close>: every
  \<^verbatim>\<open>break\<close> leads to the overflow error after the loop.
\<close>

definition affine_domain_lower :: "int \<Rightarrow> int \<Rightarrow> int \<Rightarrow> int result" where
  "affine_domain_lower lower offset divisor =
     (if lower = - kInfIndex then Inr (- kInfIndex)
      else let (overflow, l) = SubOverflow lower offset
           in if overflow then Inl InvalidArgument
              else let l' = CeilOfRatio l divisor
                   in if \<not> IsFiniteIndex l' then Inl InvalidArgument else Inr l')"

definition affine_domain_size :: "bool \<Rightarrow> int \<Rightarrow> int \<Rightarrow> int \<Rightarrow> int \<Rightarrow> int result" where
  "affine_domain_size is_empty result_lower upper offset divisor =
     (if is_empty then Inr 0
      else if upper = kInfIndex then Inr (kInfIndex - result_lower + 1)
      else let (overflow, u) = SubOverflow upper offset
           in if overflow then Inl InvalidArgument
              else let u' = FloorOfRatio u divisor
                   in if \<not> IsFiniteIndex u' then Inl InvalidArgument
                      else Inr (u' - result_lower + 1))"

definition GetAffineTransformDomain ::
  "index_interval \<Rightarrow> int \<Rightarrow> int \<Rightarrow> index_interval result" where
  "GetAffineTransformDomain i offset0 divisor0 =
     (if divisor0 = 0 then Inl InvalidArgument
      else if i = Infinite then Inr i
      else
        bind_result
          (if divisor0 < 0 then
             (if divisor0 = index_min \<or> offset0 = index_min then Inl InvalidArgument
              else Inr (- divisor0, - offset0,
                        - inclusive_max i - of_bool (empty_interval i),
                        - inclusive_min i - of_bool (empty_interval i)))
           else Inr (divisor0, offset0, inclusive_min i, inclusive_max i))
          (\<lambda>(divisor, offset, lower, upper).
        bind_result (affine_domain_lower lower offset divisor) (\<lambda>result_lower.
        bind_result (affine_domain_size (empty_interval i) result_lower upper offset divisor)
          (\<lambda>result_size. Inr (UncheckedSized result_lower result_size)))))"

definition GetAffineTransformDomain_oi ::
  "oi_interval \<Rightarrow> int \<Rightarrow> int \<Rightarrow> oi_interval result" where
  "GetAffineTransformDomain_oi i offset divisor =
     bind_result (GetAffineTransformDomain (interval i) offset divisor) (\<lambda>d.
     Inr (if divisor < 0
          then \<lparr>interval = d, implicit_lower = implicit_upper i, implicit_upper = implicit_lower i\<rparr>
          else i\<lparr>interval := d\<rparr>))"

text \<open>The lambda \<^verbatim>\<open>transform_bound_overflow\<close> of \<^verbatim>\<open>GetAffineTransformRange\<close>.\<close>

definition transform_bound :: "int \<Rightarrow> int \<Rightarrow> int \<Rightarrow> int result" where
  "transform_bound offset multiplier bound =
     (if bound = - kInfIndex \<or> bound = kInfIndex then
        Inr (if multiplier < 0 then bound * - 1 else bound)
      else let (overflow1, b1) = MulOverflow bound multiplier;
               (overflow2, b2) = AddOverflow b1 offset
           in if overflow1 \<or> overflow2 \<or> \<not> IsFiniteIndex b2 then Inl InvalidArgument
              else Inr b2)"

definition GetAffineTransformRange ::
  "index_interval \<Rightarrow> int \<Rightarrow> int \<Rightarrow> index_interval result" where
  "GetAffineTransformRange i offset multiplier =
     bind_result (transform_bound offset multiplier (inclusive_min i)) (\<lambda>lower.
     bind_result (transform_bound offset multiplier (inclusive_max i)) (\<lambda>upper.
     if empty_interval i then Inr (UncheckedSized lower 0)
     else if multiplier = 0 then Inr (UncheckedSized lower 1)
     else if multiplier < 0 then Inr (UncheckedClosed upper lower)
     else Inr (UncheckedClosed lower upper)))"

definition GetAffineTransformInverseDomain ::
  "index_interval \<Rightarrow> int \<Rightarrow> int \<Rightarrow> index_interval result" where
  "GetAffineTransformInverseDomain i offset divisor =
     bind_result (GetAffineTransformRange i offset divisor) (\<lambda>new_interval.
     if empty_interval new_interval then Inr new_interval
     else if divisor > 0 \<and> inclusive_max new_interval \<noteq> kInfIndex then
       (let (overflow, imax) = AddOverflow (inclusive_max new_interval) (divisor - 1)
        in if overflow \<or> \<not> IsFiniteIndex imax then Inl InvalidArgument
           else Inr (UncheckedClosed (inclusive_min new_interval) imax))
     else if divisor < 0 \<and> inclusive_min new_interval \<noteq> - kInfIndex then
       (let (overflow, imin) = AddOverflow (inclusive_min new_interval) (divisor + 1)
        in if overflow \<or> \<not> IsFiniteIndex imin then Inl InvalidArgument
           else Inr (UncheckedClosed imin (inclusive_max new_interval)))
     else Inr new_interval)"

definition GetAffineTransformRange_oi ::
  "oi_interval \<Rightarrow> int \<Rightarrow> int \<Rightarrow> oi_interval result" where
  "GetAffineTransformRange_oi i offset multiplier =
     bind_result (GetAffineTransformRange (interval i) offset multiplier) (\<lambda>d.
     Inr (if multiplier < 0
          then \<lparr>interval = d, implicit_lower = implicit_upper i, implicit_upper = implicit_lower i\<rparr>
          else i\<lparr>interval := d\<rparr>))"

section \<open>index\_interval.cc: merging\<close>

definition MergeDimensionLabels :: "string \<Rightarrow> string \<Rightarrow> string result" where
  "MergeDimensionLabels a b =
     (if a = [] then Inr b
      else if b = [] then Inr a
      else if a = b then Inr a
      else Inl InvalidArgument)"

text \<open>One bound of \<^verbatim>\<open>MergeOptionallyImplicitIndexIntervals\<close>, with its implicit flag.\<close>

definition merge_bound :: "int \<Rightarrow> int \<times> bool \<Rightarrow> int \<times> bool \<Rightarrow> (int \<times> bool) result" where
  "merge_bound infb a b =
     (if fst a = infb \<and> snd a then Inr b
      else if fst b = infb \<and> snd b then Inr a
      else if fst a \<noteq> fst b then Inl InvalidArgument
      else Inr (fst a, snd a \<and> snd b))"

definition MergeOptionallyImplicitIndexIntervals ::
  "oi_interval \<Rightarrow> oi_interval \<Rightarrow> oi_interval result" where
  "MergeOptionallyImplicitIndexIntervals a b =
     (if a = b then Inr a
      else
        bind_result (merge_bound (- kInfIndex)
            (inclusive_min (interval a), implicit_lower a)
            (inclusive_min (interval b), implicit_lower b)) (\<lambda>(imin, lower).
        bind_result (merge_bound kInfIndex
            (inclusive_max (interval a), implicit_upper a)
            (inclusive_max (interval b), implicit_upper b)) (\<lambda>(imax, upper).
        bind_result (Closed imin imax) (\<lambda>i.
        Inr \<lparr>interval = i, implicit_lower = lower, implicit_upper = upper\<rparr>))))"

end
