(* ===== verification/Interval_Properties.thy ===== *)
theory Interval_Properties
  imports Index_Interval
begin

text \<open>
  Correctness of the interval operations. The well-formedness of an interval is
  \<^verbatim>\<open>IndexInterval::ValidSized\<close>; what an interval means is given twice: the set of finite
  indices it contains (\<open>interval_indices\<close>, the meaning of \<^verbatim>\<open>Contains(interval, index)\<close>) and
  the condition its bounds impose on an unbounded integer (\<open>in_bounds\<close>, where an infinite
  bound imposes nothing).
\<close>

section \<open>Well-formedness and meaning\<close>

definition valid_interval :: "index_interval \<Rightarrow> bool" where
  "valid_interval i \<longleftrightarrow> ValidSized (inclusive_min i) (interval_size i)"

definition interval_indices :: "index_interval \<Rightarrow> int set" where
  "interval_indices i = {x. Contains_index i x}"

definition in_bounds :: "index_interval \<Rightarrow> int \<Rightarrow> bool" where
  "in_bounds i x \<longleftrightarrow>
     (inclusive_min i = - kInfIndex \<or> inclusive_min i \<le> x) \<and>
     (inclusive_max i = kInfIndex \<or> x \<le> inclusive_max i)"

lemma accessor_simps [simp]:
  "inclusive_min (mk_interval a b) = a" "interval_size (mk_interval a b) = b"
  "inclusive_max (mk_interval a b) = a + b - 1"
  "inclusive_min (UncheckedClosed a b) = a" "interval_size (UncheckedClosed a b) = b - a + 1"
  "inclusive_max (UncheckedClosed a b) = b"
  "inclusive_min (UncheckedSized a b) = a" "interval_size (UncheckedSized a b) = b"
  "inclusive_max (UncheckedSized a b) = a + b - 1"
  "inclusive_min (UncheckedHalfOpen a b) = a" "interval_size (UncheckedHalfOpen a b) = b - a"
  "inclusive_max (UncheckedHalfOpen a b) = b - 1"
  "inclusive_min Infinite = - kInfIndex" "inclusive_max Infinite = kInfIndex"
  "interval_size Infinite = kInfSize"
  by (simp_all add: ivl_defs Infinite_def index_consts)

lemma interval_eqI:
  "inclusive_min a = inclusive_min b \<Longrightarrow> inclusive_max a = inclusive_max b \<Longrightarrow> a = b"
  for a b :: index_interval
  by (simp add: inclusive_max_def)

lemma mk_interval_min_size [simp]: "mk_interval (inclusive_min i) (interval_size i) = i"
  by (simp add: mk_interval_def)

lemma interval_size_eq: "interval_size i = inclusive_max i - inclusive_min i + 1"
  by (simp add: inclusive_max_def)

lemma empty_interval_iff: "empty_interval i \<longleftrightarrow> inclusive_max i = inclusive_min i - 1"
  by (simp add: empty_interval_def inclusive_max_def)

lemma valid_interval_iff_closed:
  "valid_interval i \<longleftrightarrow> ValidClosed (inclusive_min i) (inclusive_max i)"
  by (auto simp: valid_interval_def ValidSized_def ValidClosed_def inclusive_max_def index_consts)

lemma valid_UncheckedClosed [simp]:
  "valid_interval (UncheckedClosed a b) \<longleftrightarrow> ValidClosed a b"
  by (simp add: valid_interval_iff_closed)

lemma valid_UncheckedSized [simp]:
  "valid_interval (UncheckedSized a b) \<longleftrightarrow> ValidSized a b"
  by (simp add: valid_interval_def)

lemma valid_UncheckedHalfOpen [simp]:
  "valid_interval (UncheckedHalfOpen a b) \<longleftrightarrow> ValidHalfOpen a b"
  by (auto simp: valid_interval_def ValidSized_def ValidHalfOpen_def index_consts)

lemma valid_interval_Infinite [simp]: "valid_interval Infinite"
  by (simp add: valid_interval_def ValidSized_def index_consts)

lemma interval_indices_iff:
  "x \<in> interval_indices i \<longleftrightarrow> IsFiniteIndex x \<and> inclusive_min i \<le> x \<and> x \<le> inclusive_max i"
  by (auto simp: interval_indices_def Contains_index_def IsFiniteIndex_def)

lemma interval_indices_in_bounds: "x \<in> interval_indices i \<Longrightarrow> in_bounds i x"
  by (auto simp: interval_indices_iff in_bounds_def)

lemma in_bounds_finite_iff:
  "IsFiniteIndex x \<Longrightarrow> x \<in> interval_indices i \<longleftrightarrow> in_bounds i x"
  by (auto simp: interval_indices_iff in_bounds_def IsFiniteIndex_def index_consts)

text \<open>
  The three constructors agree: the checked ones succeed exactly on the arguments their
  predicate accepts, and give a well-formed interval.
\<close>

lemma Closed_eq: "Closed a b = Inr i \<longleftrightarrow> ValidClosed a b \<and> i = UncheckedClosed a b"
  by (auto simp: Closed_def)

lemma HalfOpen_eq: "HalfOpen a b = Inr i \<longleftrightarrow> ValidHalfOpen a b \<and> i = UncheckedHalfOpen a b"
  by (auto simp: HalfOpen_def)

lemma Sized_eq: "Sized a b = Inr i \<longleftrightarrow> ValidSized a b \<and> i = UncheckedSized a b"
  by (auto simp: Sized_def)

lemma HalfOpen_Closed: "HalfOpen a (b + 1) = Closed a b"
  by (simp add: HalfOpen_def Closed_def ValidHalfOpen_def ValidClosed_def UncheckedHalfOpen_def
      UncheckedClosed_def mk_interval_def)

lemma Sized_HalfOpen:
  "in_int64 n \<Longrightarrow> Sized a n = HalfOpen a (a + n)"
  by (auto simp: HalfOpen_def Sized_def ValidHalfOpen_def ValidSized_def UncheckedHalfOpen_def
      UncheckedSized_def mk_interval_def index_consts)

section \<open>Intersection and hull\<close>

lemmas valid_interval_arith =
  valid_interval_iff_closed ValidClosed_def ValidSized_def index_consts

lemma Intersect_bounds:
  assumes "valid_interval a" "valid_interval b"
  shows "inclusive_min (Intersect a b) = max (inclusive_min a) (inclusive_min b)"
    and "inclusive_max (Intersect a b) =
           max (max (inclusive_min a) (inclusive_min b) - 1)
               (min (inclusive_max a) (inclusive_max b))"
  by (auto simp: Intersect_def Let_def max_def)

lemma valid_Intersect:
  assumes "valid_interval a" "valid_interval b"
  shows "valid_interval (Intersect a b)"
  using assms unfolding valid_interval_iff_closed Intersect_bounds [OF assms] ValidClosed_def
  by (auto simp: min_def max_def)

lemma Intersect_indices:
  assumes "valid_interval a" "valid_interval b"
  shows "interval_indices (Intersect a b) = interval_indices a \<inter> interval_indices b"
  by (auto simp: interval_indices_iff Intersect_bounds [OF assms])

lemma valid_Hull:
  assumes "valid_interval a" "valid_interval b"
  shows "valid_interval (Hull a b)"
  using assms by (auto simp: Hull_def valid_interval_iff_closed ValidClosed_def empty_interval_iff)

lemma Hull_upper:
  assumes "valid_interval a" "valid_interval b"
  shows "Contains_interval (Hull a b) a" "Contains_interval (Hull a b) b"
  by (auto simp: Hull_def Contains_interval_def empty_interval_def)

lemma Hull_least:
  assumes "valid_interval a" "valid_interval b"
    and "Contains_interval c a" "Contains_interval c b"
  shows "Contains_interval c (Hull a b)"
  using assms by (auto simp: Hull_def Contains_interval_def empty_interval_def)

lemma Contains_interval_subset:
  assumes "Contains_interval outer inner" "valid_interval inner"
  shows "interval_indices inner \<subseteq> interval_indices outer"
  using assms by (auto simp: Contains_interval_def interval_indices_iff interval_size_eq)

section \<open>Shifts\<close>

lemma shift_bound_Inr:
  "shift_bound infb b d = Inr b' \<longleftrightarrow>
     (if b = infb then b' = infb else b' = b + d \<and> IsFiniteIndex (b + d))"
  by (auto simp: shift_bound_def AddOverflow_def wrap_Add_def IsFiniteIndex_def index_consts
      split: if_splits)

lemma ShiftInterval_Inr:
  "ShiftInterval i d = Inr j \<longleftrightarrow>
     (inclusive_min i = - kInfIndex \<or> IsFiniteIndex (inclusive_min i + d)) \<and>
     (inclusive_max i = kInfIndex \<or> IsFiniteIndex (inclusive_max i + d)) \<and>
     j = UncheckedClosed
           (if inclusive_min i = - kInfIndex then - kInfIndex else inclusive_min i + d)
           (if inclusive_max i = kInfIndex then kInfIndex else inclusive_max i + d)"
  by (auto simp: ShiftInterval_def ShiftInterval2_def bind_result_Inr_iff shift_bound_Inr)

lemma ShiftInterval_error:
  "ShiftInterval i d = Inl e \<Longrightarrow> e = InvalidArgument"
  by (auto simp: ShiftInterval_def ShiftInterval2_def shift_bound_def Let_def
      bind_result_Inl_iff split: if_splits prod.splits)

lemma valid_ShiftInterval:
  assumes "valid_interval i" "ShiftInterval i d = Inr j"
  shows "valid_interval j"
  using assms
  by (auto simp: ShiftInterval_Inr valid_interval_iff_closed ValidClosed_def IsFiniteIndex_def
      index_consts)

lemma ShiftInterval_in_bounds:
  assumes "valid_interval i" "ShiftInterval i d = Inr j"
  shows "in_bounds j (x + d) \<longleftrightarrow> in_bounds i x"
  using assms by (auto simp: ShiftInterval_Inr in_bounds_def IsFiniteIndex_def index_consts)

lemma wrap_negate:
  "in_int64 d \<Longrightarrow> wrap_Multiply d (- 1) = (if d = index_min then index_min else - d)"
  by (auto simp: wrap_Multiply_def wrap_index_def index_consts)

lemma ShiftInterval_Backward_inverse:
  assumes "valid_interval i" "in_int64 d" "ShiftInterval i d = Inr j"
  shows "ShiftIntervalBackward j d = Inr i"
proof -
  have b: "inclusive_min i = - kInfIndex \<or> IsFiniteIndex (inclusive_min i)"
    "inclusive_max i = kInfIndex \<or> IsFiniteIndex (inclusive_max i)"
    using assms(1) by (auto simp: valid_interval_arith IsFiniteIndex_def)
  have d: "(inclusive_min i = - kInfIndex \<and> inclusive_max i = kInfIndex) \<or> d \<noteq> index_min"
    using b assms(3) by (auto simp: ShiftInterval_Inr IsFiniteIndex_def index_consts)
  define lo where "lo = inclusive_min i"
  define hi where "hi = inclusive_max i"
  have j: "inclusive_min j = (if lo = - kInfIndex then - kInfIndex else lo + d)"
    "inclusive_max j = (if hi = kInfIndex then kInfIndex else hi + d)"
    "lo = - kInfIndex \<or> IsFiniteIndex (lo + d)" "hi = kInfIndex \<or> IsFiniteIndex (hi + d)"
    using assms(3) by (simp_all add: ShiftInterval_Inr lo_def hi_def)
  have nf: "\<not> IsFiniteIndex (- kInfIndex)" "\<not> IsFiniteIndex kInfIndex"
    by (simp_all add: IsFiniteIndex_def index_consts)
  have "ShiftInterval j (wrap_Multiply d (- 1)) = Inr i"
  proof (cases "lo = - kInfIndex \<and> hi = kInfIndex")
    case True
    then show ?thesis
      using j by (auto simp: ShiftInterval_Inr lo_def hi_def intro: interval_eqI)
  next
    case False
    then have w: "wrap_Multiply d (- 1) = - d"
      using d assms(2) by (auto simp: wrap_negate lo_def hi_def)
    have "i = UncheckedClosed lo hi"
      by (rule interval_eqI) (simp_all add: lo_def hi_def)
    then show ?thesis
      unfolding ShiftInterval_Inr w using b j nf
      by (auto simp: lo_def hi_def)
  qed
  then show ?thesis
    by (simp add: ShiftIntervalBackward_def ShiftIntervalBackward2_def ShiftInterval_def)
qed

lemma ShiftIntervalTo_Inr:
  assumes "valid_interval i" "ShiftIntervalTo i origin = Inr j"
  shows "inclusive_min j = origin"
    and "inclusive_max i \<noteq> kInfIndex \<Longrightarrow> interval_size j = interval_size i"
    and "valid_interval j"
    and "in_bounds j (x + (origin - inclusive_min i)) \<longleftrightarrow> in_bounds i x"
proof -
  have o: "IsFiniteIndex origin" "inclusive_min i \<noteq> - kInfIndex"
    using assms(2) by (auto simp: ShiftIntervalTo_def split: if_splits)
  have "in_int64 (origin - inclusive_min i)"
    using assms(1) o by (auto simp: valid_interval_arith IsFiniteIndex_def)
  then have s: "ShiftInterval i (origin - inclusive_min i) = Inr j"
    using assms(2) o by (simp add: ShiftIntervalTo_def SubOverflow_def wrap_Subtract_def)
  show "inclusive_min j = origin"
    and "inclusive_max i \<noteq> kInfIndex \<Longrightarrow> interval_size j = interval_size i"
    using s o by (auto simp: ShiftInterval_Inr interval_size_eq)
  show "valid_interval j" by (rule valid_ShiftInterval [OF assms(1) s])
  show "in_bounds j (x + (origin - inclusive_min i)) \<longleftrightarrow> in_bounds i x"
    by (rule ShiftInterval_in_bounds [OF assms(1) s])
qed

section \<open>Affine transforms of intervals\<close>

lemma affine_domain_lower_Inr:
  assumes "0 < dv" "affine_domain_lower lower off dv = Inr rl"
  shows "(lower = - kInfIndex \<longleftrightarrow> rl = - kInfIndex) \<and>
         (lower \<noteq> - kInfIndex \<longrightarrow> IsFiniteIndex rl \<and> rl = ceil_div (lower - off) dv)"
  using assms
  by (auto simp: affine_domain_lower_def SubOverflow_def wrap_Subtract_def Let_def
      CeilOfRatio_eq IsFiniteIndex_def index_consts split: if_splits)

lemma affine_domain_size_Inr:
  assumes "0 < dv" "affine_domain_size False rl upper off dv = Inr sz"
  shows "if upper = kInfIndex then rl + sz - 1 = kInfIndex
         else IsFiniteIndex (rl + sz - 1) \<and> rl + sz - 1 = (upper - off) div dv"
  using assms
  by (auto simp: affine_domain_size_def SubOverflow_def wrap_Subtract_def Let_def
      FloorOfRatio_eq split: if_splits)

lemma affine_domain_bounds:
  assumes dv: "0 < dv"
    and rl: "affine_domain_lower lower off dv = Inr rl"
    and sz: "affine_domain_size False rl upper off dv = Inr sz"
    and v: "ValidClosed lower upper" "lower \<le> upper"
  shows "valid_interval (UncheckedSized rl sz)"
    and "in_bounds (UncheckedSized rl sz) x \<longleftrightarrow>
           (lower = - kInfIndex \<or> lower \<le> off + dv * x) \<and>
           (upper = kInfIndex \<or> off + dv * x \<le> upper)"
proof -
  define ru where "ru = rl + sz - 1"
  have l: "(lower = - kInfIndex \<and> rl = - kInfIndex) \<or>
      (lower \<noteq> - kInfIndex \<and> IsFiniteIndex rl \<and> rl = ceil_div (lower - off) dv)"
    using affine_domain_lower_Inr [OF dv rl] by auto
  have u: "(upper = kInfIndex \<and> ru = kInfIndex) \<or>
      (upper \<noteq> kInfIndex \<and> IsFiniteIndex ru \<and> ru = (upper - off) div dv)"
    using affine_domain_size_Inr [OF dv sz] by (auto simp: ru_def split: if_splits)
  have order: "rl \<le> ru + 1" if "rl = ceil_div (lower - off) dv" "ru = (upper - off) div dv"
  proof -
    have "lower - off \<le> dv * (ru + 1)"
      using int_div_bounds(2) [OF dv, of "upper - off"] v(2) that
      by (simp add: algebra_simps)
    then show ?thesis
      using ceil_div_le_iff [OF dv] that(1) by blast
  qed
  have "ValidClosed rl ru"
    using l u order v by (auto simp: ValidClosed_def IsFiniteIndex_def index_consts)
  then show "valid_interval (UncheckedSized rl sz)"
    by (simp add: valid_interval_iff_closed ru_def)
  have inf: "rl = - kInfIndex \<longleftrightarrow> lower = - kInfIndex" "ru = kInfIndex \<longleftrightarrow> upper = kInfIndex"
    using l u by (auto simp: IsFiniteIndex_def index_consts)
  have lo: "lower = - kInfIndex \<or> (rl \<le> x \<longleftrightarrow> lower \<le> off + dv * x)"
    using l ceil_div_le_iff [OF dv, of "lower - off" x] by auto
  have up: "upper = kInfIndex \<or> (x \<le> ru \<longleftrightarrow> off + dv * x \<le> upper)"
    using u le_int_div_iff [OF dv, of x "upper - off"] by auto
  show "in_bounds (UncheckedSized rl sz) x \<longleftrightarrow>
      (lower = - kInfIndex \<or> lower \<le> off + dv * x) \<and> (upper = kInfIndex \<or> off + dv * x \<le> upper)"
    using inf lo up by (auto simp: in_bounds_def simp flip: ru_def)
qed

lemma nonempty_le: "valid_interval i \<Longrightarrow> \<not> empty_interval i \<Longrightarrow> inclusive_min i \<le> inclusive_max i"
  by (auto simp: valid_interval_iff_closed ValidClosed_def empty_interval_iff)

lemma GetAffineTransformDomain_nonempty:
  assumes "valid_interval i" "\<not> empty_interval i"
    and "GetAffineTransformDomain i off dv = Inr d"
  shows "valid_interval d \<and> (\<forall>x. in_bounds d x \<longleftrightarrow> in_bounds i (off + dv * x))"
proof (cases "i = Infinite")
  case True
  then have "d = Infinite"
    using assms(3) by (auto simp: GetAffineTransformDomain_def split: if_splits)
  with True show ?thesis by (simp add: in_bounds_def)
next
  case False
  have ord: "inclusive_min i \<le> inclusive_max i"
    by (rule nonempty_le [OF assms(1,2)])
  have v: "ValidClosed (inclusive_min i) (inclusive_max i)"
    using assms(1) by (simp add: valid_interval_iff_closed)
  have dv0: "dv \<noteq> 0"
    using assms(3) by (auto simp: GetAffineTransformDomain_def)
  show ?thesis
  proof (cases "0 < dv")
    case True
    then obtain rl sz where
      "affine_domain_lower (inclusive_min i) off dv = Inr rl"
      "affine_domain_size False rl (inclusive_max i) off dv = Inr sz"
      "d = UncheckedSized rl sz"
      using assms(2,3) False
      by (auto simp: GetAffineTransformDomain_def bind_result_Inr_iff split: if_splits)
    with affine_domain_bounds [OF True _ _ v ord] show ?thesis
      by (simp add: in_bounds_def)
  next
    case neg: False
    then have dv: "0 < - dv" using dv0 by simp
    obtain rl sz where *:
      "affine_domain_lower (- inclusive_max i) (- off) (- dv) = Inr rl"
      "affine_domain_size False rl (- inclusive_min i) (- off) (- dv) = Inr sz"
      "d = UncheckedSized rl sz"
      using assms(2,3) False neg dv0
      by (auto simp: GetAffineTransformDomain_def bind_result_Inr_iff split: if_splits)
    have v': "ValidClosed (- inclusive_max i) (- inclusive_min i)"
      using v ord by (auto simp: ValidClosed_def)
    have ord': "- inclusive_max i \<le> - inclusive_min i"
      using ord by simp
    have "in_bounds d x \<longleftrightarrow> in_bounds i (off + dv * x)" for x
      using affine_domain_bounds(2) [OF dv *(1,2) v' ord', of x] *(3)
      by (auto simp: in_bounds_def)
    moreover have "valid_interval d"
      using affine_domain_bounds(1) [OF dv *(1,2) v' ord'] *(3) by simp
    ultimately show ?thesis by blast
  qed
qed

lemma GetAffineTransformDomain_empty:
  assumes "empty_interval i" "GetAffineTransformDomain i off dv = Inr d"
  shows "empty_interval d"
  using assms
  by (auto simp: GetAffineTransformDomain_def bind_result_Inr_iff affine_domain_size_def
      empty_interval_def split: if_splits)

lemma GetAffineTransformDomain_error:
  "GetAffineTransformDomain i off dv = Inl e \<Longrightarrow> e = InvalidArgument"
  by (auto simp: GetAffineTransformDomain_def bind_result_Inl_iff affine_domain_lower_def
      affine_domain_size_def Let_def split: if_splits prod.splits)

lemma transform_bound_Inr:
  "transform_bound off m b = Inr b' \<longleftrightarrow>
     (if b = - kInfIndex \<or> b = kInfIndex then b' = (if m < 0 then - b else b)
      else in_int64 (b * m) \<and> in_int64 (b * m + off) \<and> IsFiniteIndex b' \<and> b' = b * m + off)"
  by (auto simp: transform_bound_def MulOverflow_def AddOverflow_def wrap_Multiply_def
      wrap_Add_def Let_def split: if_splits)

lemma GetAffineTransformRange_cases:
  assumes v: "valid_interval i" and ne: "\<not> empty_interval i" and m: "m \<noteq> 0"
    and r: "GetAffineTransformRange i off m = Inr r"
  obtains lo hi where
    "transform_bound off m (inclusive_min i) = Inr lo"
    "transform_bound off m (inclusive_max i) = Inr hi"
    "inclusive_min r = (if m < 0 then hi else lo)"
    "inclusive_max r = (if m < 0 then lo else hi)"
proof -
  obtain lo hi where b: "transform_bound off m (inclusive_min i) = Inr lo"
    "transform_bound off m (inclusive_max i) = Inr hi"
    and "r = (if m < 0 then UncheckedClosed hi lo else UncheckedClosed lo hi)"
    using r ne m
    by (auto simp: GetAffineTransformRange_def bind_result_Inr_iff if_distrib [of Inr, symmetric])
  then show thesis by (intro that [of lo hi]) simp_all
qed

lemma affine_le_cancel:
  fixes a x m off :: int
  assumes "m \<noteq> 0"
  shows "(if m < 0 then off + m * x \<le> a * m + off else a * m + off \<le> off + m * x) \<longleftrightarrow> a \<le> x"
  using assms mult_le_cancel_right [of a m x] mult_le_cancel_right [of x m a]
  by (auto simp: mult.commute [of m x])

lemma affine_lower_iff:
  fixes a x m off lo K :: int
  assumes "m \<noteq> 0" "0 < K"
    and "if a = - K then lo = (if m < 0 then K else - K) else - K < lo \<and> lo < K \<and> lo = a * m + off"
  shows "(if m < 0 then lo = K \<or> off + m * x \<le> lo else lo = - K \<or> lo \<le> off + m * x) \<longleftrightarrow>
         a = - K \<or> a \<le> x"
  using assms affine_le_cancel [OF assms(1), of off x a]
  by (cases "a = - K"; cases "m < 0") simp_all

lemma affine_upper_iff:
  fixes a x m off hi K :: int
  assumes "m \<noteq> 0" "0 < K"
    and "if a = K then hi = (if m < 0 then - K else K) else - K < hi \<and> hi < K \<and> hi = a * m + off"
  shows "(if m < 0 then hi = - K \<or> hi \<le> off + m * x else hi = K \<or> off + m * x \<le> hi) \<longleftrightarrow>
         a = K \<or> x \<le> a"
  using assms affine_lower_iff [of "- m" K "- a" hi off "- x"]
  by (cases "a = K"; cases "m < 0") simp_all

lemma GetAffineTransformRange_nonempty:
  assumes v: "valid_interval i" and ne: "\<not> empty_interval i" and m: "m \<noteq> 0"
    and r: "GetAffineTransformRange i off m = Inr r"
  shows "valid_interval r \<and> \<not> empty_interval r \<and>
         (\<forall>x. in_bounds r (off + m * x) \<longleftrightarrow> in_bounds i x)"
proof -
  obtain lo hi where b: "transform_bound off m (inclusive_min i) = Inr lo"
    "transform_bound off m (inclusive_max i) = Inr hi"
    and r': "inclusive_min r = (if m < 0 then hi else lo)"
    "inclusive_max r = (if m < 0 then lo else hi)"
    using GetAffineTransformRange_cases [OF assms] by blast
  have fin: "- kInfIndex \<noteq> kInfIndex" "\<not> IsFiniteIndex kInfIndex" "\<not> IsFiniteIndex (- kInfIndex)"
    by (simp_all add: IsFiniteIndex_def index_consts)
  have mx: "inclusive_min i < kInfIndex" "- kInfIndex < inclusive_max i"
    "inclusive_min i \<le> inclusive_max i"
    using v nonempty_le [OF v ne] by (auto simp: valid_interval_iff_closed ValidClosed_def)
  have fin': "IsFiniteIndex z \<Longrightarrow> - kInfIndex < z \<and> z < kInfIndex" for z
    by (auto simp: IsFiniteIndex_def index_consts)
  have lo: "if inclusive_min i = - kInfIndex then lo = (if m < 0 then kInfIndex else - kInfIndex)
      else - kInfIndex < lo \<and> lo < kInfIndex \<and> lo = inclusive_min i * m + off"
    using b(1) mx fin' [of lo] by (auto simp: transform_bound_Inr split: if_splits)
  have hi: "if inclusive_max i = kInfIndex then hi = (if m < 0 then - kInfIndex else kInfIndex)
      else - kInfIndex < hi \<and> hi < kInfIndex \<and> hi = inclusive_max i * m + off"
    using b(2) mx fin' [of hi] by (auto simp: transform_bound_Inr split: if_splits)
  have k: "0 < kInfIndex" by (simp add: index_consts)
  have bounds: "in_bounds r (off + m * x) \<longleftrightarrow> in_bounds i x" for x
    unfolding in_bounds_def r'
    using affine_lower_iff [OF m k lo, of x] affine_upper_iff [OF m k hi, of x]
    by (cases "m < 0") (simp_all add: conj_commute)
  have ord: "if m < 0 then hi \<le> lo else lo \<le> hi"
  proof (cases "inclusive_min i = - kInfIndex \<or> inclusive_max i = kInfIndex")
    case True
    then show ?thesis using lo hi k by (cases "m < 0") (auto split: if_splits)
  next
    case False
    have "lo = inclusive_min i * m + off" "hi = inclusive_max i * m + off"
      using lo hi False by simp_all
    then show ?thesis
      using mx(3) by (simp add: mult_right_mono mult_right_mono_neg)
  qed
  have "if m < 0 then ValidClosed hi lo else ValidClosed lo hi"
    unfolding ValidClosed_def using lo hi ord k by (cases "m < 0") (auto split: if_splits)
  then have "valid_interval r" "\<not> empty_interval r"
    using r' ord by (auto simp: valid_interval_iff_closed empty_interval_iff split: if_splits)
  with bounds show ?thesis by blast
qed

text \<open>
  \<^verbatim>\<open>GetAffineTransformDomain\<close> undoes \<^verbatim>\<open>GetAffineTransformRange\<close>. A negative multiplier is
  negated by the former, together with the offset, which excludes the two values whose
  negation is not representable.
\<close>

lemma ceil_div_mult [simp]: "0 < m \<Longrightarrow> ceil_div (a * m) m = a" "0 < m \<Longrightarrow> ceil_div (m * a) m = a"
  using nonzero_mult_div_cancel_right [of m "- a"]
  by (simp_all add: ceil_div_def mult.commute [of m a])

lemma affine_domain_lower_finite:
  assumes "0 < m" "in_int64 (a * m)" "IsFiniteIndex a" "lower = a * m + off" "lower \<noteq> - kInfIndex"
  shows "affine_domain_lower lower off m = Inr a"
  using assms by (simp add: affine_domain_lower_def SubOverflow_def wrap_Subtract_def CeilOfRatio_eq)

lemma affine_domain_size_finite:
  assumes "0 < m" "in_int64 (b * m)" "IsFiniteIndex b" "upper = b * m + off" "upper \<noteq> kInfIndex"
  shows "affine_domain_size False rl upper off m = Inr (b - rl + 1)"
  using assms by (simp add: affine_domain_size_def SubOverflow_def wrap_Subtract_def FloorOfRatio_eq)

lemma Domain_Range_inverse_pos:
  assumes v: "valid_interval i" and ne: "\<not> empty_interval i" and m: "0 < m"
    and r: "GetAffineTransformRange i off m = Inr r"
  shows "GetAffineTransformDomain r off m = Inr i"
proof (cases "i = Infinite")
  case True
  then show ?thesis
    using r m by (auto simp: GetAffineTransformRange_def GetAffineTransformDomain_def
        transform_bound_def empty_interval_def index_consts ivl_defs Infinite_def)
next
  case False
  define a b where "a = inclusive_min i" and "b = inclusive_max i"
  have vb: "ValidClosed a b" "a \<le> b"
    using v nonempty_le [OF v ne] by (auto simp: a_def b_def valid_interval_iff_closed)
  obtain lo hi where t: "transform_bound off m a = Inr lo" "transform_bound off m b = Inr hi"
    and r': "inclusive_min r = lo" "inclusive_max r = hi"
    using GetAffineTransformRange_cases [OF v ne _ r] m by (auto simp: a_def b_def)
  have fin: "a = - kInfIndex \<or> IsFiniteIndex a" "b = kInfIndex \<or> IsFiniteIndex b"
    "a \<noteq> kInfIndex" "b \<noteq> - kInfIndex"
    using vb by (auto simp: ValidClosed_def IsFiniteIndex_def index_consts)
  have nf: "\<not> IsFiniteIndex (- kInfIndex)" "\<not> IsFiniteIndex kInfIndex" "- kInfIndex \<noteq> kInfIndex"
    by (simp_all add: IsFiniteIndex_def index_consts)
  have rl: "affine_domain_lower lo off m = Inr a"
  proof (cases "a = - kInfIndex")
    case True
    then show ?thesis using t(1) m by (simp add: transform_bound_def affine_domain_lower_def)
  next
    case False
    then show ?thesis
      using t(1) fin nf m by (intro affine_domain_lower_finite) (auto simp: transform_bound_Inr)
  qed
  have sz: "affine_domain_size False a hi off m = Inr (b - a + 1)"
  proof (cases "b = kInfIndex")
    case True
    then show ?thesis using t(2) m by (simp add: transform_bound_def affine_domain_size_def)
  next
    case False
    then show ?thesis
      using t(2) fin nf m by (intro affine_domain_size_finite) (auto simp: transform_bound_Inr)
  qed
  have "r \<noteq> Infinite"
  proof
    assume "r = Infinite"
    then have "lo = - kInfIndex" "hi = kInfIndex" using r' by simp_all
    then have "\<not> IsFiniteIndex lo" "\<not> IsFiniteIndex hi" using nf by simp_all
    then have "a = - kInfIndex" "b = kInfIndex"
      using t fin(3,4) by (simp_all add: transform_bound_Inr split: if_splits)
    then show False
      using False by (auto simp: a_def b_def intro: interval_eqI)
  qed
  moreover have "\<not> empty_interval r"
    using GetAffineTransformRange_nonempty [OF v ne _ r] m by simp
  moreover have "i = UncheckedSized a (b - a + 1)"
    by (rule interval_eqI) (simp_all add: a_def b_def)
  ultimately show ?thesis
    using m rl sz r' by (simp add: GetAffineTransformDomain_def)
qed

lemma negate_bounds:
  assumes "\<not> empty_interval i"
  shows "inclusive_min (negate_interval i) = - inclusive_max i"
    and "inclusive_max (negate_interval i) = - inclusive_min i"
    and "\<not> empty_interval (negate_interval i)"
  using assms by (auto simp: negate_interval_def empty_interval_def inclusive_max_def)

lemma valid_negate_interval:
  assumes "valid_interval i" "\<not> empty_interval i"
  shows "valid_interval (negate_interval i)"
  using assms nonempty_le [OF assms]
  by (auto simp: valid_interval_iff_closed ValidClosed_def negate_bounds)

lemma negate_eq_Infinite: "\<not> empty_interval i \<Longrightarrow> negate_interval i = Infinite \<longleftrightarrow> i = Infinite"
  using negate_bounds [of i] by (auto intro!: interval_eqI)

lemma transform_bound_negate:
  assumes "IsFiniteIndex off" "m < 0" "transform_bound off m b = Inr b'"
  shows "transform_bound (- off) (- m) b = Inr (- b')"
  using assms by (auto simp: transform_bound_Inr IsFiniteIndex_def index_consts split: if_splits)

lemma GetAffineTransformRange_negate:
  assumes v: "valid_interval i" and ne: "\<not> empty_interval i" and m: "m < 0"
    and off: "IsFiniteIndex off" and r: "GetAffineTransformRange i off m = Inr r"
  shows "GetAffineTransformRange i (- off) (- m) = Inr (negate_interval r)"
proof -
  obtain lo hi where t: "transform_bound off m (inclusive_min i) = Inr lo"
    "transform_bound off m (inclusive_max i) = Inr hi"
    and r': "inclusive_min r = hi" "inclusive_max r = lo"
    using GetAffineTransformRange_cases [OF v ne _ r] m by auto
  have "\<not> empty_interval r"
    using GetAffineTransformRange_nonempty [OF v ne _ r] m by simp
  then have "negate_interval r = UncheckedClosed (- lo) (- hi)"
    by (intro interval_eqI) (simp_all add: negate_bounds r')
  then show ?thesis
    using t [THEN transform_bound_negate [OF off m]] ne m
    by (simp add: GetAffineTransformRange_def)
qed

lemma GetAffineTransformDomain_negate:
  assumes "\<not> empty_interval r" "m < 0" "m \<noteq> index_min" "off \<noteq> index_min"
  shows "GetAffineTransformDomain r off m = GetAffineTransformDomain (negate_interval r) (- off) (- m)"
  using assms
  by (auto simp: GetAffineTransformDomain_def negate_bounds negate_eq_Infinite)
    (metis negate_eq_Infinite)

lemma GetAffineTransformDomain_Range:
  assumes v: "valid_interval i" and ne: "\<not> empty_interval i"
    and m: "m \<noteq> 0" "m \<noteq> index_min" and off: "IsFiniteIndex off"
    and r: "GetAffineTransformRange i off m = Inr r"
  shows "GetAffineTransformDomain r off m = Inr i"
proof (cases "0 < m")
  case True
  then show ?thesis by (rule Domain_Range_inverse_pos [OF v ne _ r])
next
  case False
  then have neg: "m < 0" using m by simp
  have "GetAffineTransformDomain (negate_interval r) (- off) (- m) = Inr i"
    by (rule Domain_Range_inverse_pos [OF v ne _ GetAffineTransformRange_negate [OF v ne neg off r]])
      (use neg in simp)
  moreover have "\<not> empty_interval r"
    using GetAffineTransformRange_nonempty [OF v ne m(1) r] by simp
  moreover have "off \<noteq> index_min"
    using off by (auto simp: IsFiniteIndex_def index_consts)
  ultimately show ?thesis
    using GetAffineTransformDomain_negate [of r m off] neg m by simp
qed

lemma le_FloorOfRatio_iff:
  assumes "dv \<noteq> 0"
  shows "a \<le> FloorOfRatio (x - off) dv \<longleftrightarrow>
           (if dv < 0 then x \<le> a * dv + off else a * dv + off \<le> x)"
  using assms le_int_div_iff [of dv a "x - off"] le_int_div_iff [of "- dv" a "off - x"]
  by (auto simp: FloorOfRatio_eq algebra_simps div_minus_right)

lemma FloorOfRatio_le_iff:
  assumes "dv \<noteq> 0"
  shows "FloorOfRatio (x - off) dv \<le> b \<longleftrightarrow>
           (if dv < 0 then b * dv + off + (dv + 1) \<le> x else x \<le> b * dv + off + (dv - 1))"
proof -
  have "FloorOfRatio (x - off) dv \<le> b \<longleftrightarrow> \<not> b + 1 \<le> FloorOfRatio (x - off) dv"
    by linarith
  then show ?thesis
    unfolding le_FloorOfRatio_iff [OF assms] by (auto simp: algebra_simps)
qed

lemma GetAffineTransformInverseDomain_nonempty:
  assumes v: "valid_interval i" and ne: "\<not> empty_interval i" and dv: "dv \<noteq> 0"
    and d: "GetAffineTransformInverseDomain i off dv = Inr d"
  shows "in_bounds d x \<longleftrightarrow> in_bounds i (FloorOfRatio (x - off) dv)"
proof -
  obtain r where r: "GetAffineTransformRange i off dv = Inr r"
    using d by (auto simp: GetAffineTransformInverseDomain_def bind_result_Inr_iff)
  obtain lo hi where t: "transform_bound off dv (inclusive_min i) = Inr lo"
    "transform_bound off dv (inclusive_max i) = Inr hi"
    and r': "inclusive_min r = (if dv < 0 then hi else lo)"
    "inclusive_max r = (if dv < 0 then lo else hi)"
    using GetAffineTransformRange_cases [OF v ne dv r] by blast
  have rne: "\<not> empty_interval r"
    using GetAffineTransformRange_nonempty [OF v ne dv r] by simp
  have fin: "IsFiniteIndex z \<Longrightarrow> z \<noteq> - kInfIndex \<and> z \<noteq> kInfIndex" for z
    by (auto simp: IsFiniteIndex_def index_consts)
  have mx: "inclusive_min i \<noteq> kInfIndex" "inclusive_max i \<noteq> - kInfIndex"
    using v by (auto simp: valid_interval_iff_closed ValidClosed_def)
  show ?thesis
  proof (cases "dv < 0")
    case True
    have "d = (if hi = - kInfIndex then r else UncheckedClosed (hi + (dv + 1)) lo)"
      "hi \<noteq> - kInfIndex \<Longrightarrow> IsFiniteIndex (hi + (dv + 1))"
      using d rne r' True r
      by (auto simp: GetAffineTransformInverseDomain_def AddOverflow_eq_False
          split: if_splits prod.splits)
    then show ?thesis
      using t mx fin [of lo] fin [of hi] fin [of "hi + (dv + 1)"] r' True
        le_FloorOfRatio_iff [OF dv, of "inclusive_min i" x off]
        FloorOfRatio_le_iff [OF dv, of x off "inclusive_max i"]
      by (auto simp: in_bounds_def transform_bound_Inr split: if_splits)
  next
    case False
    have "d = (if hi = kInfIndex then r else UncheckedClosed lo (hi + (dv - 1)))"
      "hi \<noteq> kInfIndex \<Longrightarrow> IsFiniteIndex (hi + (dv - 1))"
      using d rne r' False dv r
      by (auto simp: GetAffineTransformInverseDomain_def AddOverflow_eq_False
          split: if_splits prod.splits)
    then show ?thesis
      using t mx fin [of lo] fin [of hi] fin [of "hi + (dv - 1)"] r' False dv
        le_FloorOfRatio_iff [OF dv, of "inclusive_min i" x off]
        FloorOfRatio_le_iff [OF dv, of x off "inclusive_max i"]
      by (auto simp: in_bounds_def transform_bound_Inr split: if_splits)
  qed
qed

end
