(* ===== verification/Strided_Slice.thy ===== *)
theory Strided_Slice
  imports Interval_Properties
begin

text \<open>
  Correctness of \<^verbatim>\<open>ExtractStridedSlice\<close> and \<^verbatim>\<open>ComputeStridedSliceMap\<close>: the interval they
  return is well-formed and is the exact preimage of the requested slice under the affine
  map they return. Both signs of the stride reduce to one arithmetic fact, stated for the
  start and stop measured in the direction of the stride.
\<close>

section \<open>The arithmetic of a slice\<close>

text \<open>
  \<open>s\<close> and \<open>e\<close> are the start and the inclusive stop (negated when the stride is negative),
  \<open>q\<close> the absolute stride, \<open>slice_min\<close> and \<open>slice_len\<close> the computed result.
\<close>

definition slice_len :: "int \<Rightarrow> int \<Rightarrow> int \<Rightarrow> int" where
  "slice_len s e q =
     (if e = kInfIndex then kInfIndex + 1 - s sdiv q else ceil_div (e - s + 1) q)"

lemma sdiv_bounds:
  fixes s q :: int
  assumes "0 < q"
  shows "q * (s sdiv q) < s + q" and "s - q < q * (s sdiv q)"
  using assms int_div_bounds [OF assms, of s] int_div_bounds [OF assms, of "- s"]
  by (auto simp: sdiv_pos_cases)

lemma ceil_div_pos_iff:
  assumes "0 < q"
  shows "k < ceil_div c q \<longleftrightarrow> q * k < c"
  using ceil_div_le_iff [OF assms, of c k] by linarith

lemma slice_len_nonneg:
  assumes q: "0 < q" and v: "ValidClosed s e"
  shows "0 \<le> slice_len s e q"
proof (cases "e = kInfIndex")
  case True
  have "q * (s sdiv q) < q * (kInfIndex + 2)"
  proof -
    have "s + q \<le> kInfIndex + q" using v by (simp add: ValidClosed_def)
    also have "\<dots> \<le> q * kInfIndex + q"
      using q mult_right_mono [of 1 q kInfIndex] by (simp add: index_consts)
    finally have "s + q \<le> q * (kInfIndex + 2)" using q by (simp add: algebra_simps)
    then show ?thesis using sdiv_bounds(1) [OF q, of s] by linarith
  qed
  then have "s sdiv q < kInfIndex + 2" using q by simp
  then show ?thesis by (simp add: slice_len_def True)
next
  case False
  have "- 1 < ceil_div (e - s + 1) q"
    unfolding ceil_div_pos_iff [OF q] using v q by (simp add: ValidClosed_def)
  then show ?thesis by (simp add: slice_len_def False)
qed

lemma slice_valid:
  assumes q: "0 < q" and v: "ValidClosed s e" and fin: "q = 1 \<or> IsFiniteIndex s"
  shows "ValidSized (s sdiv q) (slice_len s e q)"
    and "s sdiv q = - kInfIndex \<longleftrightarrow> s = - kInfIndex"
    and "s sdiv q + slice_len s e q - 1 = kInfIndex \<longleftrightarrow> e = kInfIndex"
proof -
  define m where "m = s sdiv q"
  define n where "n = slice_len s e q"
  have n0: "0 \<le> n" unfolding n_def by (rule slice_len_nonneg [OF q v])
  consider (one) "q = 1" | (many) "2 \<le> q" "IsFiniteIndex s" using q fin by linarith
  then have "ValidClosed m (m + n - 1) \<and> (m = - kInfIndex \<longleftrightarrow> s = - kInfIndex) \<and>
      (m + n - 1 = kInfIndex \<longleftrightarrow> e = kInfIndex)"
  proof cases
    case one
    then have "m = s" "m + n - 1 = e"
      by (simp_all add: m_def n_def slice_len_def ceil_div_def)
    with v show ?thesis by simp
  next
    case many
    have grow: "2 * z \<le> q * z \<or> z < 0" for z :: int
      using many(1) mult_right_mono [of 2 q z] by linarith
    have m_hi: "2 * (m - 1) < kInfIndex \<or> m - 1 < 0"
      using grow [of "m - 1"] sdiv_bounds(1) [OF q, of s] many(2)
      by (auto simp: m_def IsFiniteIndex_def algebra_simps index_consts)
    have m_lo: "2 * (- m - 1) < kInfIndex \<or> - m - 1 < 0"
      using grow [of "- m - 1"] sdiv_bounds(2) [OF q, of s] many(2)
      by (auto simp: m_def IsFiniteIndex_def algebra_simps index_consts)
    have s: "s \<noteq> - kInfIndex" using many(2) by (auto simp: IsFiniteIndex_def index_consts)
    show ?thesis
    proof (cases "e = kInfIndex")
      case True
      then have "m + n - 1 = kInfIndex" by (simp add: n_def m_def slice_len_def)
      then show ?thesis using m_hi m_lo s True by (auto simp: ValidClosed_def index_consts)
    next
      case False
      have "q * n < e - s + 1 + q"
        using ceil_div_bounds(2) [OF q, of "e - s + 1"] False by (simp add: n_def slice_len_def)
      then have "q * (m + n - 2) < e + 1"
        using sdiv_bounds(1) [OF q, of s] by (simp add: m_def algebra_simps)
      then have "2 * (m + n - 2) < kInfIndex + 1 \<or> m + n - 2 < 0"
        using grow [of "m + n - 2"] v by (auto simp: ValidClosed_def)
      then show ?thesis
        using m_hi m_lo n0 s False by (auto simp: ValidClosed_def index_consts)
    qed
  qed
  then show "ValidSized (s sdiv q) (slice_len s e q)"
    and "s sdiv q = - kInfIndex \<longleftrightarrow> s = - kInfIndex"
    and "s sdiv q + slice_len s e q - 1 = kInfIndex \<longleftrightarrow> e = kInfIndex"
    using valid_interval_iff_closed [of "UncheckedSized m n"] by (simp_all add: m_def n_def)
qed

lemma slice_preimage:
  assumes q: "0 < q" and v: "ValidClosed s e" and fin: "q = 1 \<or> IsFiniteIndex s"
  shows "in_bounds (UncheckedSized (s sdiv q) (slice_len s e q)) j \<longleftrightarrow>
         in_bounds (UncheckedClosed s e) (s + q * (j - s sdiv q))"
proof -
  have lower: "s sdiv q \<le> j \<longleftrightarrow> s \<le> s + q * (j - s sdiv q)"
    using q by (simp add: zero_le_mult_iff)
  have upper: "e \<noteq> kInfIndex \<Longrightarrow>
      j \<le> s sdiv q + slice_len s e q - 1 \<longleftrightarrow> s + q * (j - s sdiv q) \<le> e"
    using ceil_div_pos_iff [OF q, of "j - s sdiv q" "e - s + 1"]
    by (auto simp: slice_len_def)
  show ?thesis
    using lower upper slice_valid(2,3) [OF assms] by (auto simp: in_bounds_def)
qed

section \<open>ExtractStridedSlice\<close>

text \<open>
  The interval \<open>[start, stop]\<close> (or \<open>[stop, start]\<close> for a negative stride) that the code
  calls \<^verbatim>\<open>adjusted_interval\<close>.
\<close>

definition adjusted_interval :: "int \<Rightarrow> int \<Rightarrow> int \<Rightarrow> index_interval" where
  "adjusted_interval start stop stride =
     (if stride > 0 then UncheckedClosed start stop else UncheckedClosed stop start)"

lemma ExtractStridedSlice_InrE:
  assumes "ExtractStridedSlice orig form start0 stop_or_size stride = Inr (d, start)"
  obtains stop lower upper where
    "stride \<noteq> 0" "stride \<noteq> index_min"
    "slice_start orig start0 stride = Inr (start, lower)"
    "slice_stop orig form start stop_or_size stride = Inr (stop, upper)"
    "\<bar>stride\<bar> = 1 \<or> IsFiniteIndex start"
    "valid_interval (adjusted_interval start stop stride)"
    "Contains_interval (effective_interval orig) (adjusted_interval start stop stride)"
    "interval d = UncheckedSized (start sdiv stride)
       (if \<bar>stop\<bar> = kInfIndex then kInfIndex + 1 - start sdiv stride
        else CeilOfRatio (interval_size (adjusted_interval start stop stride)) \<bar>stride\<bar>)"
    "implicit_lower d = (if stride > 0 then lower else upper)"
    "implicit_upper d = (if stride > 0 then upper else lower)"
  using assms that
  unfolding ExtractStridedSlice_def Let_def effective_interval_def [symmetric]
  by (auto simp: bind_result_Inr_iff adjusted_interval_def Closed_eq split: if_splits)

lemma ExtractStridedSlice_preimage:
  assumes "ExtractStridedSlice orig form start0 stop_or_size stride = Inr (d, start)"
  shows "\<exists>stop. valid_interval (interval d) \<and>
           valid_interval (adjusted_interval start stop stride) \<and>
           Contains_interval (effective_interval orig) (adjusted_interval start stop stride) \<and>
           (\<forall>j. in_bounds (interval d) j \<longleftrightarrow>
                in_bounds (adjusted_interval start stop stride)
                          (start + stride * (j - inclusive_min (interval d))))"
  using assms
proof (cases rule: ExtractStridedSlice_InrE)
  case (1 stop lower upper)
  have fin: "\<bar>stride\<bar> = 1 \<or> IsFiniteIndex start" and st0: "stride \<noteq> 0" using 1 by simp_all
  show ?thesis
  proof (cases "0 < stride")
    case True
    have v: "ValidClosed start stop"
      using 1 True by (simp add: adjusted_interval_def)
    then have "\<bar>stop\<bar> = kInfIndex \<longleftrightarrow> stop = kInfIndex"
      by (auto simp: ValidClosed_def index_consts)
    then have d: "interval d = UncheckedSized (start sdiv stride) (slice_len start stop stride)"
      using 1 True by (simp add: slice_len_def adjusted_interval_def CeilOfRatio_eq)
    show ?thesis
      using d slice_valid(1) [OF True v] slice_preimage [OF True v] fin True 1(6,7)
      by (intro exI [of _ stop]) (simp add: adjusted_interval_def)
  next
    case False
    then have q: "0 < - stride" using st0 by simp
    have v: "ValidClosed (- start) (- stop)"
      using 1 False by (auto simp: adjusted_interval_def ValidClosed_def)
    then have "\<bar>stop\<bar> = kInfIndex \<longleftrightarrow> - stop = kInfIndex"
      by (auto simp: ValidClosed_def index_consts)
    then have d: "interval d = UncheckedSized ((- start) sdiv (- stride))
        (slice_len (- start) (- stop) (- stride))"
      using 1 False q by (simp add: slice_len_def adjusted_interval_def CeilOfRatio_eq algebra_simps)
    have fin': "- stride = 1 \<or> IsFiniteIndex (- start)"
      using fin False by (auto simp: IsFiniteIndex_def index_consts)
    have neg: "in_bounds (UncheckedClosed (- start) (- stop)) (- x) \<longleftrightarrow>
        in_bounds (UncheckedClosed stop start) x" for x
      by (auto simp: in_bounds_def)
    have "in_bounds (interval d) j \<longleftrightarrow>
        in_bounds (UncheckedClosed stop start) (start + stride * (j - inclusive_min (interval d)))" for j
      using slice_preimage [OF q v fin', of j]
        neg [of "start + stride * (j - inclusive_min (interval d))"]
      by (simp add: d algebra_simps)
    then show ?thesis
      using d slice_valid(1) [OF q v fin'] False 1(6,7)
      by (intro exI [of _ stop]) (simp add: adjusted_interval_def)
  qed
qed

lemma Contains_interval_in_bounds:
  assumes "Contains_interval outer inner" "valid_interval inner" "valid_interval outer" "in_bounds inner x"
  shows "in_bounds outer x"
  using assms
  by (auto simp: Contains_interval_def in_bounds_def valid_interval_iff_closed ValidClosed_def
      interval_size_eq)

lemma valid_effective_interval:
  "valid_interval (interval x) \<Longrightarrow> valid_interval (effective_interval x)"
  by (auto simp: effective_interval_def valid_interval_iff_closed ValidClosed_def index_consts)

section \<open>ComputeStridedSliceMap\<close>

lemma ComputeStridedSliceMap_correct:
  assumes v: "valid_interval (interval orig)"
    and r: "ComputeStridedSliceMap orig form origin start stop_or_size stride = Inr (d, off)"
  shows "valid_interval (interval d) \<and>
         (origin \<noteq> kImplicit \<longrightarrow> inclusive_min (interval d) = origin) \<and>
         (\<forall>j. in_bounds (interval d) j \<longrightarrow> in_bounds (effective_interval orig) (off + stride * j))"
proof -
  obtain e s where e: "ExtractStridedSlice orig form start stop_or_size stride = Inr (e, s)"
    and d': "slice_translate origin e = Inr d" and off: "off = s - inclusive_min (interval d) * stride"
    using r unfolding ComputeStridedSliceMap_def
    by (auto simp: bind_result_Inr_iff Let_def MulOverflow_def
        SubOverflow_def wrap_Multiply_def wrap_Subtract_def split: if_splits)
  obtain stop where ve: "valid_interval (interval e)"
    and va: "valid_interval (adjusted_interval s stop stride)"
    and c: "Contains_interval (effective_interval orig) (adjusted_interval s stop stride)"
    and pre: "\<And>j. in_bounds (interval e) j \<longleftrightarrow>
        in_bounds (adjusted_interval s stop stride) (s + stride * (j - inclusive_min (interval e)))"
    using ExtractStridedSlice_preimage [OF e] by blast
  have inside: "in_bounds (effective_interval orig) (s + stride * (j - inclusive_min (interval e)))"
    if "in_bounds (interval e) j" for j
    using Contains_interval_in_bounds [OF c va valid_effective_interval [OF v]] that pre by blast
  show ?thesis
  proof (cases "origin = kImplicit")
    case True
    then have "d = e" using d' by (simp add: slice_translate_def)
    have "off + stride * j = s + stride * (j - inclusive_min (interval e))" for j
      by (simp add: off \<open>d = e\<close> algebra_simps)
    then show ?thesis using ve inside True \<open>d = e\<close> by simp
  next
    case False
    then obtain i where i: "ShiftIntervalTo (interval e) origin = Inr i" "interval d = i"
      using d' by (auto simp: slice_translate_def bind_result_Inr_iff)
    note t = ShiftIntervalTo_Inr [OF ve i(1)]
    have "off + stride * j =
        s + stride * (j - (origin - inclusive_min (interval e)) - inclusive_min (interval e))" for j
      by (simp add: off i(2) t(1) algebra_simps)
    then have "in_bounds (effective_interval orig) (off + stride * j)" if "in_bounds i j" for j
      using inside [of "j - (origin - inclusive_min (interval e))"] that
        t(4) [of "j - (origin - inclusive_min (interval e))"]
      by simp
    then show ?thesis using t(1,3) i(2) by simp
  qed
qed

end
