(* ===== verification/Box_Space.thy ===== *)
theory Box_Space
  imports Strided_Slice
begin

text \<open>
  Boxes (\<^verbatim>\<open>tensorstore/box.h\<close>, \<^verbatim>\<open>box.cc\<close>), the saturating product of extents
  (\<^verbatim>\<open>util/extents.h\<close>) and the decomposition of a difference of boxes into disjoint sub-boxes
  (\<^verbatim>\<open>internal/box_difference.cc\<close>). A \<^verbatim>\<open>Box\<close> and a \<^verbatim>\<open>BoxView\<close> are the same pair of vectors
  here; a \<^verbatim>\<open>MutableBoxView\<close> argument that is written becomes the returned box.
\<close>

section \<open>Data and accessors\<close>

record box =
  box_origin :: "int list"
  box_shape :: "int list"

definition box_rank :: "box \<Rightarrow> nat" where
  "box_rank b = length (box_shape b)"

definition box_at :: "box \<Rightarrow> nat \<Rightarrow> index_interval" where
  "box_at b i = UncheckedSized (box_origin b ! i) (box_shape b ! i)"

definition box_intervals :: "box \<Rightarrow> index_interval list" where
  "box_intervals b = map (box_at b) [0..<box_rank b]"

definition box_of :: "index_interval list \<Rightarrow> box" where
  "box_of is = \<lparr>box_origin = map inclusive_min is, box_shape = map interval_size is\<rparr>"

definition box_Fill :: "nat \<Rightarrow> index_interval \<Rightarrow> box" where
  "box_Fill rank i = \<lparr>box_origin = replicate rank (inclusive_min i),
                      box_shape = replicate rank (interval_size i)\<rparr>"

fun product_of_extents_from :: "int \<Rightarrow> int list \<Rightarrow> int" where
  "product_of_extents_from result [] = result"
| "product_of_extents_from result (x # xs) =
     (let (overflow, r) = MulOverflow result x
      in product_of_extents_from (if overflow then index_max else r) xs)"

definition ProductOfExtents :: "int list \<Rightarrow> int" where
  "ProductOfExtents s = product_of_extents_from 1 s"

definition box_num_elements :: "box \<Rightarrow> int" where
  "box_num_elements b = ProductOfExtents (box_shape b)"

definition box_IsEmpty :: "box \<Rightarrow> bool" where
  "box_IsEmpty b \<longleftrightarrow> (\<exists>sz \<in> set (box_shape b). sz = 0)"

definition box_AreEqual :: "box \<Rightarrow> box \<Rightarrow> bool" where
  "box_AreEqual a b \<longleftrightarrow>
     box_rank a = box_rank b \<and> box_shape a = box_shape b \<and> box_origin a = box_origin b"

definition box_IsFinite :: "box \<Rightarrow> bool" where
  "box_IsFinite b \<longleftrightarrow> (\<forall>i < box_rank b. IsFinite_interval (box_at b i))"

definition box_Contains :: "box \<Rightarrow> int list \<Rightarrow> bool" where
  "box_Contains b indices \<longleftrightarrow>
     length indices = box_rank b \<and> (\<forall>i < box_rank b. Contains_index (box_at b i) (indices ! i))"

definition box_Contains_box :: "box \<Rightarrow> box \<Rightarrow> bool" where
  "box_Contains_box outer inner \<longleftrightarrow>
     box_rank inner = box_rank outer \<and>
     (\<forall>i < box_rank outer. Contains_interval (box_at outer i) (box_at inner i))"

definition box_ContainsPartial :: "box \<Rightarrow> int list \<Rightarrow> bool" where
  "box_ContainsPartial b indices \<longleftrightarrow>
     length indices \<le> box_rank b \<and>
     (\<forall>i < length indices. Contains_index (box_at b i) (indices ! i))"

definition SubBoxView :: "box \<Rightarrow> int \<Rightarrow> int \<Rightarrow> box option" where
  "SubBoxView b begin0 end0 =
     (let e = (if end0 = - 1 then int (box_rank b) else end0)
      in if begin0 \<ge> 0 \<and> begin0 \<le> e \<and> begin0 \<le> int (box_rank b) \<and> e \<le> int (box_rank b)
         then Some \<lparr>box_origin = take (nat (e - begin0)) (drop (nat begin0) (box_origin b)),
                    box_shape = take (nat (e - begin0)) (drop (nat begin0) (box_shape b))\<rparr>
         else None)"

section \<open>Box difference\<close>

text \<open>
  Along one dimension the outer interval is divided into the intersection (part 0), the
  part before the inner interval and the part after it; the numbering of the last two
  depends on which of them exist (the \<^verbatim>\<open>switch\<close> with its fall-through).
\<close>

definition has_before :: "index_interval \<Rightarrow> index_interval \<Rightarrow> bool" where
  "has_before outer_i inner_i \<longleftrightarrow> inclusive_min outer_i < inclusive_min inner_i"

definition has_after :: "index_interval \<Rightarrow> index_interval \<Rightarrow> bool" where
  "has_after outer_i inner_i \<longleftrightarrow> inclusive_max outer_i > inclusive_max inner_i"

definition num_parts :: "index_interval \<Rightarrow> index_interval \<Rightarrow> int" where
  "num_parts outer_i inner_i =
     1 + of_bool (has_before outer_i inner_i) + of_bool (has_after outer_i inner_i)"

fun num_sub_boxes_from :: "int \<Rightarrow> (index_interval \<times> index_interval) list \<Rightarrow> int" where
  "num_sub_boxes_from total_count [] = total_count - 1"
| "num_sub_boxes_from total_count ((outer_i, inner_i) # ps) =
     (if empty_interval (Intersect outer_i inner_i) then 1
      else num_sub_boxes_from (total_count * num_parts outer_i inner_i) ps)"

definition GetNumSubtractionSubBoxes :: "box \<Rightarrow> box \<Rightarrow> int" where
  "GetNumSubtractionSubBoxes outer inner =
     num_sub_boxes_from 1 (zip (box_intervals outer) (box_intervals inner))"

definition sub_box_part :: "index_interval \<Rightarrow> index_interval \<Rightarrow> int \<Rightarrow> index_interval" where
  "sub_box_part outer_i inner_i part_i =
     (if part_i = 0 then Intersect outer_i inner_i
      else if part_i = 1 \<and> has_before outer_i inner_i
      then UncheckedHalfOpen (inclusive_min outer_i) (inclusive_min inner_i)
      else UncheckedHalfOpen (exclusive_max inner_i) (exclusive_max outer_i))"

text \<open>The loop of \<^verbatim>\<open>GetSubBox\<close>; \<open>None\<close> is the early return that copies \<^verbatim>\<open>outer_\<close>.\<close>

fun sub_box_loop ::
  "int \<Rightarrow> (index_interval \<times> index_interval) list \<Rightarrow> index_interval list option" where
  "sub_box_loop sub_box_index [] = Some []"
| "sub_box_loop sub_box_index ((outer_i, inner_i) # ps) =
     (if empty_interval (Intersect outer_i inner_i) then None
      else
        let part_i = sub_box_index smod num_parts outer_i inner_i
        in map_option ((#) (sub_box_part outer_i inner_i part_i))
             (sub_box_loop (sub_box_index sdiv num_parts outer_i inner_i) ps))"

definition GetSubBox :: "box \<Rightarrow> box \<Rightarrow> int \<Rightarrow> box" where
  "GetSubBox outer inner sub_box_index =
     (case sub_box_loop (sub_box_index + 1) (zip (box_intervals outer) (box_intervals inner)) of
        None \<Rightarrow> outer
      | Some out \<Rightarrow> box_of out)"

section \<open>Extents\<close>

lemma prod_list_ge1:
  fixes xs :: "int list"
  assumes "0 \<notin> set xs" "\<forall>x \<in> set xs. 0 \<le> x"
  shows "1 \<le> prod_list xs"
  using assms
proof (induction xs)
  case (Cons x xs)
  then have "0 < x" "0 < prod_list xs" by auto
  then have "0 < x * prod_list xs" by (rule mult_pos_pos)
  then show ?case by simp
qed simp

lemma product_of_extents_from_eq:
  assumes "0 \<le> r" "r \<le> index_max" "\<forall>x \<in> set xs. 0 \<le> x"
  shows "product_of_extents_from r xs =
           (if 0 \<in> set xs then 0 else min index_max (r * prod_list xs))"
  using assms
proof (induction xs arbitrary: r)
  case Nil
  then show ?case by simp
next
  case (Cons x xs)
  have x: "0 \<le> x" and rx: "0 \<le> r * x" using Cons.prems by simp_all
  have r': "(if in_int64 (r * x) then r * x else index_max) = min index_max (r * x)"
    using rx by (auto simp: index_consts)
  have step: "product_of_extents_from r (x # xs) = product_of_extents_from (min index_max (r * x)) xs"
    by (simp add: MulOverflow_def wrap_Multiply_def r' [symmetric])
  have m: "0 \<le> min index_max (r * x)" "min index_max (r * x) \<le> index_max"
    using rx by (auto simp: index_consts)
  have pos: "1 \<le> prod_list xs" if "0 \<notin> set xs"
    using that Cons.prems(3) by (intro prod_list_ge1) auto
  have sat: "min index_max (min index_max (r * x) * p) = min index_max (r * x * p)"
    if "1 \<le> p" for p :: int
  proof (cases "r * x \<le> index_max")
    case False
    have "index_max \<le> index_max * p" "index_max \<le> r * x * p"
      using that False mult_left_mono [of 1 p index_max] mult_left_mono [of 1 p "r * x"] rx
      by (auto simp: index_consts)
    then show ?thesis using False by (simp add: min_def)
  qed (simp add: min_absorb2)
  have zero: "product_of_extents_from 0 ys = 0" if "\<forall>y \<in> set ys. 0 \<le> y" for ys
    using that by (induction ys) (auto simp: MulOverflow_def wrap_Multiply_def)
  have IH: "product_of_extents_from (min index_max (r * x)) xs =
      (if 0 \<in> set xs then 0 else min index_max (min index_max (r * x) * prod_list xs))"
    using Cons.IH [OF m] Cons.prems(3) by simp
  show ?case
    unfolding step IH using sat [OF pos] zero [of xs] IH
    by (auto simp: mult.assoc index_consts)
qed

lemma ProductOfExtents_eq:
  assumes "\<forall>x \<in> set xs. 0 \<le> x"
  shows "ProductOfExtents xs = (if 0 \<in> set xs then 0 else min index_max (prod_list xs))"
  using product_of_extents_from_eq [of 1 xs] assms by (simp add: ProductOfExtents_def index_consts)

section \<open>The sub-boxes of a difference partition it\<close>

text \<open>
  The part of a dimension an index of the outer interval falls in, and the sub-box number
  (in mixed radix, first dimension least significant) of a vector of indices.
\<close>

definition part_of :: "index_interval \<Rightarrow> index_interval \<Rightarrow> int \<Rightarrow> int" where
  "part_of outer_i inner_i y =
     (if Contains_index inner_i y then 0
      else if y < inclusive_min inner_i then 1
      else num_parts outer_i inner_i - 1)"

fun sub_box_number :: "(index_interval \<times> index_interval) list \<Rightarrow> int list \<Rightarrow> int" where
  "sub_box_number ((outer_i, inner_i) # ps) (y # ys) =
     part_of outer_i inner_i y + num_parts outer_i inner_i * sub_box_number ps ys"
| "sub_box_number _ _ = 0"

definition pairs_ok :: "(index_interval \<times> index_interval) list \<Rightarrow> bool" where
  "pairs_ok ps \<longleftrightarrow> (\<forall>(a, b) \<in> set ps. valid_interval a \<and> valid_interval b \<and>
                      \<not> empty_interval (Intersect a b))"

lemmas part_defs = has_before_def has_after_def num_parts_def sub_box_part_def part_of_def
  Contains_index_def

lemma num_parts_pos: "1 \<le> num_parts a b"
  by (simp add: num_parts_def)

lemma Intersect_nonempty_iff:
  assumes "valid_interval a" "valid_interval b"
  shows "\<not> empty_interval (Intersect a b) \<longleftrightarrow>
    inclusive_min a \<le> inclusive_max a \<and> inclusive_min b \<le> inclusive_max b \<and>
    inclusive_min a \<le> inclusive_max b \<and> inclusive_min b \<le> inclusive_max a"
  by (auto simp: Intersect_def Let_def empty_interval_def)

lemma sub_box_part_iff:
  assumes "valid_interval a" "valid_interval b" "\<not> empty_interval (Intersect a b)"
  shows "0 \<le> d \<and> d < num_parts a b \<and> Contains_index (sub_box_part a b d) y \<longleftrightarrow>
         Contains_index a y \<and> d = part_of a b y"
proof -
  note ne = assms(3) [unfolded Intersect_nonempty_iff [OF assms(1,2)]]
  have ex: "exclusive_max i = inclusive_max i + 1" for i
    by (simp add: exclusive_max_def inclusive_max_def)
  have I: "inclusive_min (Intersect a b) = max (inclusive_min a) (inclusive_min b)"
    "inclusive_max (Intersect a b) = min (inclusive_max a) (inclusive_max b)"
    using ne by (auto simp: Intersect_def Let_def)
  show ?thesis
    using ne unfolding part_defs ex
    by (cases "inclusive_min a < inclusive_min b"; cases "inclusive_max b < inclusive_max a")
      (auto simp: I ex)
qed

lemma sub_box_loop_length:
  "sub_box_loop m ps = Some out \<Longrightarrow> length out = length ps"
  by (induction m ps arbitrary: out rule: sub_box_loop.induct) (auto simp: Let_def split: if_splits)

lemma sub_box_loop_defined: "pairs_ok ps \<Longrightarrow> \<exists>out. sub_box_loop m ps = Some out"
  by (induction m ps rule: sub_box_loop.induct) (auto simp: pairs_ok_def Let_def)

lemma sub_box_loop_undefined:
  assumes "(a, b) \<in> set ps" "empty_interval (Intersect a b)"
  shows "sub_box_loop m ps = None" and "num_sub_boxes_from c ps = 1"
proof -
  show "sub_box_loop m ps = None"
    using assms by (induction m ps rule: sub_box_loop.induct) (auto simp: Let_def)
  show "num_sub_boxes_from c ps = 1"
    using assms by (induction c ps rule: num_sub_boxes_from.induct) auto
qed

lemma num_sub_boxes_from_eq:
  "pairs_ok ps \<Longrightarrow> num_sub_boxes_from c ps = c * prod_list (map (\<lambda>(a, b). num_parts a b) ps) - 1"
  by (induction c ps rule: num_sub_boxes_from.induct) (auto simp: pairs_ok_def mult.assoc)

lemma sub_box_loop_iff:
  assumes "pairs_ok ps" "length ys = length ps" "0 \<le> m"
  shows "m < prod_list (map (\<lambda>(a, b). num_parts a b) ps) \<and>
         list_all2 Contains_index (the (sub_box_loop m ps)) ys \<longleftrightarrow>
         list_all2 (\<lambda>p. Contains_index (fst p)) ps ys \<and> m = sub_box_number ps ys"
  using assms
proof (induction m ps arbitrary: ys rule: sub_box_loop.induct)
  case (1 m)
  then show ?case by auto
next
  case (2 m a b ps)
  obtain y zs where ys: "ys = y # zs"
    using "2.prems"(2) by (cases ys) auto
  define n t where "n = num_parts a b" and "t = prod_list (map (\<lambda>(a, b). num_parts a b) ps)"
  have n: "0 < n" using num_parts_pos [of a b] by (simp add: n_def)
  have ab: "valid_interval a" "valid_interval b" "\<not> empty_interval (Intersect a b)"
    and ok: "pairs_ok ps"
    using "2.prems"(1) by (auto simp: pairs_ok_def)
  have dm: "m sdiv n = m div n" "m smod n = m mod n"
    using sdiv_smod_nonneg [OF n "2.prems"(3)] by simp_all
  obtain out where out: "sub_box_loop (m div n) ps = Some out"
    using sub_box_loop_defined [OF ok] by blast
  have q: "0 \<le> m div n" using n "2.prems"(3) by (simp add: pos_imp_zdiv_nonneg_iff)
  have IH: "m div n < t \<and> list_all2 Contains_index out zs \<longleftrightarrow>
      list_all2 (\<lambda>p. Contains_index (fst p)) ps zs \<and> m div n = sub_box_number ps zs"
    using "2.IH" [OF ab(3) refl ok, of zs] "2.prems"(2) q
    by (simp add: out dm ys flip: n_def t_def)
  have H: "Contains_index (sub_box_part a b (m mod n)) y \<longleftrightarrow>
      Contains_index a y \<and> m mod n = part_of a b y"
    using sub_box_part_iff [OF ab, of "m mod n" y] n by (simp flip: n_def)
  have tm: "m < n * t \<longleftrightarrow> m div n < t"
    using le_int_div_iff [OF n, of t m] by auto
  have part: "0 \<le> part_of a b y" "part_of a b y < n" if "Contains_index a y"
    using sub_box_part_iff [OF ab, of "part_of a b y" y] that by (simp_all flip: n_def)
  have num: "m = part_of a b y + n * sub_box_number ps zs \<longleftrightarrow>
      m mod n = part_of a b y \<and> m div n = sub_box_number ps zs" if "Contains_index a y"
  proof
    assume "m = part_of a b y + n * sub_box_number ps zs"
    then show "m mod n = part_of a b y \<and> m div n = sub_box_number ps zs"
      using part [OF that] n by (simp add: div_pos_pos_trivial mod_pos_pos_trivial)
  qed (metis mod_mult_div_eq)
  show ?case
    using IH H tm num
    by (auto simp: ab ys out dm Let_def simp flip: n_def t_def)
qed

lemma sub_box_number_zero_iff:
  assumes "pairs_ok ps" "list_all2 (\<lambda>p. Contains_index (fst p)) ps ys"
  shows "0 \<le> sub_box_number ps ys" and
    "sub_box_number ps ys = 0 \<longleftrightarrow> list_all2 (\<lambda>p. Contains_index (snd p)) ps ys"
proof -
  have "0 \<le> sub_box_number ps ys \<and>
    (sub_box_number ps ys = 0 \<longleftrightarrow> list_all2 (\<lambda>p. Contains_index (snd p)) ps ys)"
    using assms(2,1)
  proof (induction rule: list_all2_induct)
    case Nil
    then show ?case by simp
  next
    case (Cons p ps y ys)
    obtain a b where p: "p = (a, b)" by (cases p)
    have ab: "valid_interval a" "valid_interval b" "\<not> empty_interval (Intersect a b)"
      and ok: "pairs_ok ps"
      using Cons.prems by (auto simp: pairs_ok_def p)
    have a: "Contains_index a y" using Cons.hyps(1) by (simp add: p)
    have part: "0 \<le> part_of a b y" "part_of a b y < num_parts a b"
      using sub_box_part_iff [OF ab, of "part_of a b y" y] a by simp_all
    have zero: "part_of a b y = 0 \<longleftrightarrow> Contains_index b y"
      using a by (auto simp: part_of_def num_parts_def has_before_def has_after_def Contains_index_def)
    have n: "0 < num_parts a b" using num_parts_pos [of a b] by simp
    have r: "0 \<le> num_parts a b * sub_box_number ps ys"
      "num_parts a b * sub_box_number ps ys = 0 \<longleftrightarrow> sub_box_number ps ys = 0"
      using Cons.IH [OF ok] n by auto
    have "part_of a b y + num_parts a b * sub_box_number ps ys = 0 \<longleftrightarrow>
        part_of a b y = 0 \<and> num_parts a b * sub_box_number ps ys = 0"
      using part(1) r(1) by (rule add_nonneg_eq_0_iff)
    then show ?case
      using Cons.IH [OF ok] part zero r by (auto simp: p)
  qed
  then show "0 \<le> sub_box_number ps ys"
    "sub_box_number ps ys = 0 \<longleftrightarrow> list_all2 (\<lambda>p. Contains_index (snd p)) ps ys"
    by simp_all
qed

definition valid_box :: "box \<Rightarrow> bool" where
  "valid_box b \<longleftrightarrow> length (box_origin b) = box_rank b \<and> (\<forall>i < box_rank b. valid_interval (box_at b i))"

lemma length_box_intervals [simp]: "length (box_intervals b) = box_rank b"
  by (simp add: box_intervals_def)

lemma nth_box_intervals [simp]: "i < box_rank b \<Longrightarrow> box_intervals b ! i = box_at b i"
  by (simp add: box_intervals_def)

lemma box_Contains_iff: "box_Contains b x \<longleftrightarrow> list_all2 Contains_index (box_intervals b) x"
  by (auto simp: box_Contains_def list_all2_conv_all_nth)

lemma box_intervals_box_of [simp]: "box_intervals (box_of is) = is"
  by (rule nth_equalityI)
    (auto simp: box_intervals_def box_of_def box_rank_def box_at_def UncheckedSized_def)

lemma list_all2_zip_iff:
  assumes "length as = length bs"
  shows "list_all2 (\<lambda>p. P (fst p)) (zip as bs) ys \<longleftrightarrow> list_all2 P as ys"
    and "list_all2 (\<lambda>p. P (snd p)) (zip as bs) ys \<longleftrightarrow> list_all2 P bs ys"
  using assms by (auto simp: list_all2_conv_all_nth)

text \<open>The number of the only sub-box that can hold an index vector.\<close>

definition difference_index :: "box \<Rightarrow> box \<Rightarrow> int list \<Rightarrow> int" where
  "difference_index outer inner x =
     (let ps = zip (box_intervals outer) (box_intervals inner)
      in if \<exists>(a, b) \<in> set ps. empty_interval (Intersect a b) then 0 else sub_box_number ps x - 1)"

lemma Intersect_empty_disjoint:
  "empty_interval (Intersect a b) \<Longrightarrow> Contains_index a y \<Longrightarrow> \<not> Contains_index b y"
  by (auto simp: Intersect_def Let_def empty_interval_def Contains_index_def split: if_splits)

lemma GetSubBox_Contains_iff:
  assumes v: "valid_box outer" "valid_box inner" "box_rank outer = box_rank inner" and k: "0 \<le> k"
  shows "k < GetNumSubtractionSubBoxes outer inner \<and> box_Contains (GetSubBox outer inner k) x \<longleftrightarrow>
         box_Contains outer x \<and> \<not> box_Contains inner x \<and> k = difference_index outer inner x"
proof -
  define ps where "ps = zip (box_intervals outer) (box_intervals inner)"
  have len: "length ps = box_rank outer" using v(3) by (simp add: ps_def)
  have outer: "box_Contains outer x \<longleftrightarrow> list_all2 (\<lambda>p. Contains_index (fst p)) ps x"
    and inner: "box_Contains inner x \<longleftrightarrow> list_all2 (\<lambda>p. Contains_index (snd p)) ps x"
    using v(3) by (simp_all add: box_Contains_iff ps_def list_all2_zip_iff)
  show ?thesis
  proof (cases "\<exists>(a, b) \<in> set ps. empty_interval (Intersect a b)")
    case True
    then obtain a b where ab: "(a, b) \<in> set ps" "empty_interval (Intersect a b)" by blast
    then obtain i where i: "i < length ps" "ps ! i = (a, b)" by (auto simp: in_set_conv_nth)
    have "\<not> (box_Contains outer x \<and> box_Contains inner x)"
      using i Intersect_empty_disjoint [OF ab(2), of "x ! i"]
      unfolding outer inner list_all2_conv_all_nth by (metis fst_conv snd_conv)
    moreover have "GetSubBox outer inner k = outer" "GetNumSubtractionSubBoxes outer inner = 1"
      using sub_box_loop_undefined [OF ab]
      by (simp_all add: GetSubBox_def GetNumSubtractionSubBoxes_def flip: ps_def)
    ultimately show ?thesis
      using True k by (auto simp: difference_index_def simp flip: ps_def)
  next
    case False
    have ok: "pairs_ok ps"
      using False v by (fastforce simp: pairs_ok_def ps_def valid_box_def set_zip)
    obtain out where out: "sub_box_loop (k + 1) ps = Some out"
      using sub_box_loop_defined [OF ok] by blast
    have sub: "box_Contains (GetSubBox outer inner k) x \<longleftrightarrow> list_all2 Contains_index out x"
      by (simp add: GetSubBox_def out box_Contains_iff flip: ps_def)
    have num: "GetNumSubtractionSubBoxes outer inner = prod_list (map (\<lambda>(a, b). num_parts a b) ps) - 1"
      using num_sub_boxes_from_eq [OF ok, of 1] by (simp add: GetNumSubtractionSubBoxes_def flip: ps_def)
    have di: "difference_index outer inner x = sub_box_number ps x - 1"
      using False by (auto simp: difference_index_def simp flip: ps_def)
    show ?thesis
    proof (cases "length x = length ps")
      case True
      show ?thesis
        using sub_box_loop_iff [OF ok True, of "k + 1"] k sub_box_number_zero_iff [OF ok, of x]
        by (auto simp: sub num di outer inner out)
    next
      case False
      then show ?thesis
        using sub_box_loop_length [OF out] by (auto simp: sub outer list_all2_conv_all_nth)
    qed
  qed
qed

lemma difference_index_nonneg:
  assumes v: "valid_box outer" "valid_box inner" "box_rank outer = box_rank inner"
    and x: "box_Contains outer x" "\<not> box_Contains inner x"
  shows "0 \<le> difference_index outer inner x"
proof (cases "\<exists>(a, b) \<in> set (zip (box_intervals outer) (box_intervals inner)). empty_interval (Intersect a b)")
  case False
  have ok: "pairs_ok (zip (box_intervals outer) (box_intervals inner))"
    using False v by (fastforce simp: pairs_ok_def valid_box_def set_zip)
  show ?thesis
    using sub_box_number_zero_iff [OF ok, of x] x v(3) False
    by (simp add: difference_index_def box_Contains_iff list_all2_zip_iff)
qed (simp add: difference_index_def)

lemma GetSubBox_partition_unique:
  assumes "valid_box outer" "valid_box inner" "box_rank outer = box_rank inner"
  shows "(\<exists>!k. 0 \<le> k \<and> k < GetNumSubtractionSubBoxes outer inner \<and>
            box_Contains (GetSubBox outer inner k) x) \<longleftrightarrow>
         box_Contains outer x \<and> \<not> box_Contains inner x"
  using GetSubBox_Contains_iff [OF assms, of _ x] difference_index_nonneg [OF assms, of x] by metis

lemma GetSubBox_sound:
  assumes "valid_box outer" "valid_box inner" "box_rank outer = box_rank inner"
    "0 \<le> k" "k < GetNumSubtractionSubBoxes outer inner" "box_Contains (GetSubBox outer inner k) x"
  shows "box_Contains outer x \<and> \<not> box_Contains inner x"
  using GetSubBox_Contains_iff [OF assms(1-4), of x] assms(5,6) by blast

end
