(* ===== verification/Transform_Rep.thy ===== *)
theory Transform_Rep
  imports Box_Space
begin

text \<open>
  The representation of index transforms
  (\<^verbatim>\<open>index_space/internal/transform_rep.h\<close>, \<^verbatim>\<open>transform_rep.cc\<close>,
  \<^verbatim>\<open>identity_transform.cc\<close>, \<^verbatim>\<open>translate_output_dimensions.cc\<close>).

  A \<^verbatim>\<open>TransformRep\<close> is a block of parallel arrays (origin, shape, labels, two bit sets of
  implicit bounds) of \<^verbatim>\<open>input_rank\<close> entries and an array of \<^verbatim>\<open>output_rank\<close> output index
  maps. Here the parallel arrays are one list of dimensions, which is the view
  \<^verbatim>\<open>all_input_dimensions\<close> of the code, and the ranks are the lengths of the two lists.
  The reference count and the capacities only decide whether a representation is copied or
  updated in place (\<^verbatim>\<open>MutableRep\<close>); the model has value semantics.

  The element pointer of an index array is the function that reads the \<^verbatim>\<open>Index\<close> at a byte
  offset from the pointer: index arrays are immutable and shared, and the code only adds byte
  offsets to the pointer and reads through it.
\<close>

section \<open>Data\<close>

record index_array_data =
  element_pointer :: "int \<Rightarrow> int"
  index_range :: index_interval
  byte_strides :: "int list"

datatype output_index_method =
    Method_constant
  | Method_single_input_dimension nat
  | Method_array index_array_data

record output_index_map =
  map_method :: output_index_method
  map_offset :: int
  map_stride :: int

record transform_rep =
  input_dims :: "index_domain_dimension list"
  output_index_maps :: "output_index_map list"

definition input_rank :: "transform_rep \<Rightarrow> nat" where
  "input_rank t = length (input_dims t)"

definition output_rank :: "transform_rep \<Rightarrow> nat" where
  "output_rank t = length (output_index_maps t)"

definition optionally_implicit_domain :: "transform_rep \<Rightarrow> nat \<Rightarrow> oi_interval" where
  "optionally_implicit_domain t i = optionally_implicit_interval (input_dims t ! i)"

definition AddByteOffset :: "(int \<Rightarrow> int) \<Rightarrow> int \<Rightarrow> int \<Rightarrow> int" where
  "AddByteOffset ptr offset = (\<lambda>o'. ptr (wrap_Add offset o'))"

definition constant_map :: "int \<Rightarrow> output_index_map" where
  "constant_map off = \<lparr>map_method = Method_constant, map_offset = off, map_stride = 0\<rparr>"

section \<open>Operations of transform\_rep.cc\<close>

definition apply_map :: "output_index_map \<Rightarrow> int list \<Rightarrow> int result" where
  "apply_map m input_indices =
     bind_result
       (case map_method m of
          Method_constant \<Rightarrow> Inr 0
        | Method_single_input_dimension d \<Rightarrow> Inr (input_indices ! d)
        | Method_array a \<Rightarrow>
            (let v = element_pointer a (InnerProduct input_indices (byte_strides a))
             in bind_result (CheckContains (index_range a) v) (\<lambda>_. Inr v)))
       (\<lambda>base_output_index.
          Inr (wrap_Add (wrap_Multiply base_output_index (map_stride m)) (map_offset m)))"

definition check_input_index :: "index_domain_dimension \<times> int \<Rightarrow> unit result" where
  "check_input_index = (\<lambda>(d, x).
     if Contains_index (effective_interval (optionally_implicit_interval d)) x then Inr ()
     else Inl OutOfRange)"

definition TransformIndices :: "transform_rep \<Rightarrow> int list \<Rightarrow> int list result" where
  "TransformIndices t input_indices =
     bind_result (map_result check_input_index (zip (input_dims t) input_indices))
       (\<lambda>_. map_result (\<lambda>m. apply_map m input_indices) (output_index_maps t))"

definition implicit_dimension :: "oi_interval \<Rightarrow> bool" where
  "implicit_dimension d \<longleftrightarrow> implicit_lower d \<or> implicit_upper d"

definition IsDomainExplicitlyEmpty :: "transform_rep \<Rightarrow> bool" where
  "IsDomainExplicitlyEmpty t \<longleftrightarrow>
     (\<exists>d \<in> set (input_dims t).
        \<not> implicit_dimension (optionally_implicit_interval d) \<and>
        interval_size (interval (optionally_implicit_interval d)) = 0)"

definition ReplaceZeroRankIndexArrayIndexMap ::
  "int \<Rightarrow> index_interval \<Rightarrow> int \<Rightarrow> int \<Rightarrow> (int \<times> int) result" where
  "ReplaceZeroRankIndexArrayIndexMap index bounds output_offset output_stride =
     bind_result (CheckContains bounds index) (\<lambda>_.
       let (mul_overflow, new_offset) = MulOverflow index output_stride;
           (add_overflow, off) = AddOverflow new_offset output_offset
       in if mul_overflow \<or> add_overflow then Inl InvalidArgument else Inr (off, 0))"

definition replace_array_map :: "output_index_map \<Rightarrow> output_index_map" where
  "replace_array_map m =
     (case map_method m of Method_array _ \<Rightarrow> constant_map 0 | _ \<Rightarrow> m)"

definition ReplaceAllIndexArrayMapsWithConstantMaps :: "transform_rep \<Rightarrow> transform_rep" where
  "ReplaceAllIndexArrayMapsWithConstantMaps t =
     t\<lparr>output_index_maps := map replace_array_map (output_index_maps t)\<rparr>"

definition MutableRep :: "transform_rep \<Rightarrow> bool \<Rightarrow> transform_rep" where
  "MutableRep t domain_only = (if domain_only then t\<lparr>output_index_maps := []\<rparr> else t)"

definition GetSubDomain :: "transform_rep \<Rightarrow> nat list \<Rightarrow> transform_rep" where
  "GetSubDomain t dims =
     \<lparr>input_dims = map (\<lambda>old_dim. input_dims t ! old_dim) dims, output_index_maps = []\<rparr>"

definition IsUnlabeled :: "string list \<Rightarrow> bool" where
  "IsUnlabeled labels \<longleftrightarrow> (\<forall>s \<in> set labels. s = [])"

definition GetIndexArrayInputDimensions :: "transform_rep \<Rightarrow> nat set" where
  "GetIndexArrayInputDimensions t =
     {d \<in> {0..<input_rank t}. \<exists>m \<in> set (output_index_maps t).
        case map_method m of Method_array a \<Rightarrow> byte_strides a ! d \<noteq> 0 | _ \<Rightarrow> False}"

definition set_implicit :: "bool \<Rightarrow> bool \<Rightarrow> index_domain_dimension \<Rightarrow> index_domain_dimension" where
  "set_implicit lo up d =
     d\<lparr>optionally_implicit_interval :=
         (optionally_implicit_interval d)\<lparr>implicit_lower := lo, implicit_upper := up\<rparr>\<rparr>"

definition WithImplicitDimensions ::
  "transform_rep \<Rightarrow> nat set \<Rightarrow> nat set \<Rightarrow> bool \<Rightarrow> transform_rep" where
  "WithImplicitDimensions t0 implicit_lower_bounds implicit_upper_bounds domain_only =
     (let t = MutableRep t0 domain_only;
          dims = (if domain_only then {} else GetIndexArrayInputDimensions t)
      in t\<lparr>input_dims :=
             map (\<lambda>i. set_implicit (i \<in> implicit_lower_bounds \<and> i \<notin> dims)
                                   (i \<in> implicit_upper_bounds \<and> i \<notin> dims) (input_dims t ! i))
                 [0..<input_rank t]\<rparr>)"

text \<open>\<^verbatim>\<open>ValidateDimensionLabelsAreUnique\<close>: the labels other than the empty one differ.\<close>

definition labels_unique :: "string list \<Rightarrow> bool" where
  "labels_unique ls \<longleftrightarrow> distinct (filter (\<lambda>s. s \<noteq> []) ls)"

definition map_invariant :: "transform_rep \<Rightarrow> output_index_map \<Rightarrow> bool" where
  "map_invariant t m \<longleftrightarrow>
     (case map_method m of
        Method_constant \<Rightarrow> map_stride m = 0
      | Method_single_input_dimension d \<Rightarrow> d < input_rank t \<and> map_stride m \<noteq> 0
      | Method_array a \<Rightarrow>
          map_stride m \<noteq> 0 \<and> length (byte_strides a) = input_rank t \<and>
          \<not> IsDomainExplicitlyEmpty t \<and>
          (\<forall>d \<in> {0..<input_rank t}. byte_strides a ! d \<noteq> 0 \<longrightarrow>
             IsFinite_interval (interval (optionally_implicit_domain t d)) \<and>
             \<not> implicit_dimension (optionally_implicit_domain t d)))"

definition DebugCheckInvariants :: "transform_rep \<Rightarrow> bool" where
  "DebugCheckInvariants t \<longleftrightarrow>
     labels_unique (map label (input_dims t)) \<and>
     (\<forall>d \<in> set (input_dims t). let i = interval (optionally_implicit_interval d)
        in ValidSized (inclusive_min i) (interval_size i)) \<and>
     (\<forall>m \<in> set (output_index_maps t). map_invariant t m)"

section \<open>identity\_transform.cc and translate\_output\_dimensions.cc\<close>

definition identity_map :: "nat \<Rightarrow> output_index_map" where
  "identity_map i =
     \<lparr>map_method = Method_single_input_dimension i, map_offset = 0, map_stride = 1\<rparr>"

definition SetToIdentityTransform :: "nat \<Rightarrow> output_index_map list" where
  "SetToIdentityTransform rank = map identity_map [0..<rank]"

definition identity_output_or_domain_only :: "nat \<Rightarrow> bool \<Rightarrow> output_index_map list" where
  "identity_output_or_domain_only rank domain_only =
     (if domain_only then [] else SetToIdentityTransform rank)"

definition MakeIdentityTransform :: "nat \<Rightarrow> bool \<Rightarrow> transform_rep" where
  "MakeIdentityTransform rank domain_only =
     \<lparr>input_dims = replicate rank \<lparr>optionally_implicit_interval =
          \<lparr>interval = UncheckedSized (- kInfIndex) kInfSize,
           implicit_lower = True, implicit_upper = True\<rparr>, label = []\<rparr>,
      output_index_maps = identity_output_or_domain_only rank domain_only\<rparr>"

definition MakeIdentityTransform_labels :: "string list \<Rightarrow> bool \<Rightarrow> transform_rep" where
  "MakeIdentityTransform_labels labels domain_only =
     (let t = MakeIdentityTransform (length labels) domain_only
      in t\<lparr>input_dims := map (\<lambda>(d, l). d\<lparr>label := l\<rparr>) (zip (input_dims t) labels)\<rparr>)"

definition MakeIdentityTransformLike :: "transform_rep \<Rightarrow> bool \<Rightarrow> transform_rep" where
  "MakeIdentityTransformLike t domain_only =
     \<lparr>input_dims = input_dims t,
      output_index_maps = identity_output_or_domain_only (input_rank t) domain_only\<rparr>"

definition explicit_dim :: "index_interval \<Rightarrow> index_domain_dimension" where
  "explicit_dim i =
     \<lparr>optionally_implicit_interval =
        \<lparr>interval = i, implicit_lower = False, implicit_upper = False\<rparr>, label = []\<rparr>"

definition MakeIdentityTransform_shape :: "int list \<Rightarrow> bool \<Rightarrow> transform_rep" where
  "MakeIdentityTransform_shape shape domain_only =
     \<lparr>input_dims = map (\<lambda>s. explicit_dim (UncheckedSized 0 s)) shape,
      output_index_maps = identity_output_or_domain_only (length shape) domain_only\<rparr>"

definition MakeIdentityTransform_box :: "box \<Rightarrow> bool \<Rightarrow> transform_rep" where
  "MakeIdentityTransform_box b domain_only =
     \<lparr>input_dims = map explicit_dim (box_intervals b),
      output_index_maps = identity_output_or_domain_only (box_rank b) domain_only\<rparr>"

definition TranslateOutputDimensionsBy :: "transform_rep \<Rightarrow> int list \<Rightarrow> transform_rep result" where
  "TranslateOutputDimensionsBy t offsets =
     (if length offsets \<noteq> output_rank t then Inl InvalidArgument
      else Inr (t\<lparr>output_index_maps :=
             map (\<lambda>(m, off). m\<lparr>map_offset := wrap_Add (map_offset m) off\<rparr>)
                 (zip (output_index_maps t) offsets)\<rparr>))"

section \<open>What a transform computes\<close>

definition in_domain :: "transform_rep \<Rightarrow> int list \<Rightarrow> bool" where
  "in_domain t x \<longleftrightarrow>
     length x = input_rank t \<and>
     (\<forall>i < input_rank t. Contains_index (effective_interval (optionally_implicit_domain t i)) (x ! i))"

lemma map_result_unit_Inr_iff:
  "(\<exists>u. map_result check_input_index ps = Inr u) \<longleftrightarrow>
     (\<forall>p \<in> set ps. check_input_index p = Inr ())"
proof
  assume "\<exists>u. map_result check_input_index ps = Inr u"
  then show "\<forall>p \<in> set ps. check_input_index p = Inr ()"
    unfolding map_result_Inr_iff Ball_def in_set_conv_nth by (metis (full_types) old.unit.exhaust)
next
  assume "\<forall>p \<in> set ps. check_input_index p = Inr ()"
  then have "map_result check_input_index ps = Inr (replicate (length ps) ())"
    by (auto simp: map_result_Inr_iff)
  then show "\<exists>u. map_result check_input_index ps = Inr u" ..
qed

lemma check_input_index_Inr:
  "check_input_index (d, x) = Inr u \<longleftrightarrow>
     Contains_index (effective_interval (optionally_implicit_interval d)) x"
  by (simp add: check_input_index_def)

lemma TransformIndices_Inr_iff:
  assumes "length x = input_rank t"
  shows "TransformIndices t x = Inr y \<longleftrightarrow>
    in_domain t x \<and> length y = output_rank t \<and>
    (\<forall>i < output_rank t. apply_map (output_index_maps t ! i) x = Inr (y ! i))"
proof -
  have "(\<exists>u. map_result check_input_index (zip (input_dims t) x) = Inr u) \<longleftrightarrow> in_domain t x"
    unfolding map_result_unit_Inr_iff using assms
    by (auto simp: in_domain_def set_zip input_rank_def optionally_implicit_domain_def
        check_input_index_Inr)
  then show ?thesis
    by (auto simp: TransformIndices_def bind_result_Inr_iff map_result_Inr_iff output_rank_def)
qed

lemma TransformIndices_out_of_domain:
  assumes "length x = input_rank t" "\<not> in_domain t x"
  shows "TransformIndices t x = Inl OutOfRange"
proof -
  have c: "check_input_index p = Inr () \<or> check_input_index p = Inl OutOfRange" for p
    by (auto simp: check_input_index_def split: prod.splits)
  have "map_result check_input_index ps = Inl OutOfRange"
    if "\<not> (\<forall>p \<in> set ps. check_input_index p = Inr ())" for ps
    using that
  proof (induction ps)
    case (Cons p ps)
    then show ?case using c [of p] by (cases "check_input_index p = Inr ()") simp_all
  qed simp
  moreover have "\<not> (\<forall>p \<in> set (zip (input_dims t) x). check_input_index p = Inr ())"
    using assms
    by (auto simp: in_domain_def set_zip input_rank_def optionally_implicit_domain_def
        check_input_index_Inr)
  ultimately show ?thesis by (simp add: TransformIndices_def)
qed

end
