(* ===== verification/Propagate_Bounds.thy ===== *)
theory Propagate_Bounds
  imports Transform_Rep
begin

text \<open>
  Propagation of the bounds of an output space "b" back to the input space "a" of a transform
  (\<^verbatim>\<open>index_space/internal/propagate_bounds.cc\<close>). The \<^verbatim>\<open>BoxView\<close> of "b" together with its
  two implicit-bound bit sets is a list of optionally implicit intervals; a null transform
  (\<open>None\<close>) stands for the identity.
\<close>

section \<open>Model\<close>

text \<open>
  The state of the first loop for one dimension of "a": the inferred interval with its
  implicit flags, and whether anything was propagated to the dimension.
\<close>

type_synonym inferred = "oi_interval \<times> bool"

definition initial_inferred :: inferred where
  "initial_inferred = (\<lparr>interval = Infinite, implicit_lower = True, implicit_upper = True\<rparr>, False)"

definition check_constant_map ::
  "bool \<Rightarrow> oi_interval \<Rightarrow> int \<Rightarrow> inferred list \<Rightarrow> inferred list result" where
  "check_constant_map is_domain_empty b off st =
     (if is_domain_empty then Inr st
      else bind_result (CheckContains (effective_interval b) off) (\<lambda>_. Inr st))"

definition propagate_step ::
  "bool \<Rightarrow> oi_interval \<Rightarrow> output_index_map \<Rightarrow> inferred list \<Rightarrow> inferred list result" where
  "propagate_step is_domain_empty b m st =
     (case map_method m of
        Method_array _ \<Rightarrow> Inr st
      | Method_constant \<Rightarrow> check_constant_map is_domain_empty b (map_offset m) st
      | Method_single_input_dimension a_dim \<Rightarrow>
          (if map_stride m = 0 then check_constant_map is_domain_empty b (map_offset m) st
           else bind_result (GetAffineTransformDomain_oi b (map_offset m) (map_stride m))
                  (\<lambda>p. Inr (st[a_dim := (IntersectPreferringExplicit p (fst (st ! a_dim)), True)]))))"

fun propagate_loop ::
  "bool \<Rightarrow> (oi_interval \<times> output_index_map) list \<Rightarrow> inferred list \<Rightarrow> inferred list result" where
  "propagate_loop is_domain_empty [] st = Inr st"
| "propagate_loop is_domain_empty ((b, m) # ps) st =
     bind_result (propagate_step is_domain_empty b m st) (propagate_loop is_domain_empty ps)"

definition combined_bounds :: "oi_interval \<Rightarrow> index_interval \<Rightarrow> index_interval" where
  "combined_bounds existing inferred =
     (let imin = (if implicit_lower existing then inclusive_min inferred
                  else inclusive_min (interval existing));
          imax = max (imin - 1) (if implicit_upper existing then inclusive_max inferred
                                 else inclusive_max (interval existing))
      in UncheckedClosed imin imax)"

definition validate_dimension ::
  "bool \<Rightarrow> oi_interval \<times> inferred \<Rightarrow> index_interval result" where
  "validate_dimension is_domain_empty = (\<lambda>(existing, (inferred, propagated)).
     if \<not> propagated then Inr (interval existing)
     else let combined = combined_bounds existing (interval inferred)
          in if \<not> is_domain_empty \<and> \<not> Contains_interval (effective_interval inferred) combined
             then Inl OutOfRange else Inr combined)"

definition PropagateBounds ::
  "oi_interval list \<Rightarrow> transform_rep option \<Rightarrow> index_interval list result" where
  "PropagateBounds b a_to_b =
     (case a_to_b of
        None \<Rightarrow> Inr (map interval b)
      | Some t \<Rightarrow>
          (let existing = map optionally_implicit_interval (input_dims t);
               is_domain_empty = (\<exists>d \<in> set existing.
                 \<not> implicit_lower d \<and> \<not> implicit_upper d \<and> empty_interval (interval d))
           in bind_result
                (propagate_loop is_domain_empty (zip b (output_index_maps t))
                   (replicate (input_rank t) initial_inferred))
                (\<lambda>st. map_result (validate_dimension is_domain_empty) (zip existing st))))"

text \<open>The implicit bits: a pair of flags per dimension of "a".\<close>

definition implicit_step ::
  "oi_interval \<times> output_index_map \<Rightarrow> (bool \<times> bool) list \<Rightarrow> (bool \<times> bool) list" where
  "implicit_step = (\<lambda>(b, m) flags.
     case map_method m of
       Method_single_input_dimension a_dim \<Rightarrow>
         if map_stride m = 0 then flags
         else let (lo, up) = (if map_stride m < 0 then (implicit_upper b, implicit_lower b)
                              else (implicit_lower b, implicit_upper b))
              in flags[a_dim := (lo \<and> fst (flags ! a_dim), up \<and> snd (flags ! a_dim))]
     | _ \<Rightarrow> flags)"

definition PropagateImplicitBoundState ::
  "oi_interval list \<Rightarrow> transform_rep option \<Rightarrow> (bool \<times> bool) list" where
  "PropagateImplicitBoundState b a_to_b =
     (case a_to_b of
        None \<Rightarrow> map (\<lambda>d. (implicit_lower d, implicit_upper d)) b
      | Some t \<Rightarrow>
          fold implicit_step (zip b (output_index_maps t))
            (map (\<lambda>d. (implicit_lower (optionally_implicit_interval d),
                        implicit_upper (optionally_implicit_interval d))) (input_dims t)))"

definition make_oi :: "index_interval \<times> bool \<times> bool \<Rightarrow> oi_interval" where
  "make_oi = (\<lambda>(i, lo, up). \<lparr>interval = i, implicit_lower = lo, implicit_upper = up\<rparr>)"

definition PropagateBounds_implicit ::
  "oi_interval list \<Rightarrow> transform_rep option \<Rightarrow> oi_interval list result" where
  "PropagateBounds_implicit b a_to_b =
     bind_result (PropagateBounds b a_to_b) (\<lambda>a.
       Inr (map make_oi (zip a (PropagateImplicitBoundState b a_to_b))))"

definition explicit_oi :: "index_interval \<Rightarrow> oi_interval" where
  "explicit_oi i = \<lparr>interval = i, implicit_lower = False, implicit_upper = False\<rparr>"

definition PropagateExplicitBounds ::
  "index_interval list \<Rightarrow> transform_rep option \<Rightarrow> index_interval list result" where
  "PropagateExplicitBounds b a_to_b = PropagateBounds (map explicit_oi b) a_to_b"

definition set_domains :: "transform_rep \<Rightarrow> oi_interval list \<Rightarrow> transform_rep" where
  "set_domains t ds =
     t\<lparr>input_dims := map (\<lambda>(d, oi). d\<lparr>optionally_implicit_interval := oi\<rparr>) (zip (input_dims t) ds)\<rparr>"

definition propagate_index_range ::
  "bool \<Rightarrow> oi_interval \<times> output_index_map \<Rightarrow> output_index_map result" where
  "propagate_index_range domain_is_explicitly_empty = (\<lambda>(b, m).
     case map_method m of
       Method_array a \<Rightarrow>
         if domain_is_explicitly_empty then Inr (constant_map 0)
         else bind_result (GetAffineTransformDomain (effective_interval b) (map_offset m) (map_stride m))
           (\<lambda>propagated_bounds. Inr (m\<lparr>map_method :=
              Method_array (a\<lparr>index_range := Intersect propagated_bounds (index_range a)\<rparr>)\<rparr>))
     | _ \<Rightarrow> Inr m)"

definition PropagateBoundsToTransform ::
  "oi_interval list \<Rightarrow> transform_rep option \<Rightarrow> transform_rep result" where
  "PropagateBoundsToTransform b a_to_b =
     (case a_to_b of
        None \<Rightarrow> Inr \<lparr>input_dims = map (\<lambda>oi. \<lparr>optionally_implicit_interval = oi, label = []\<rparr>) b,
                     output_index_maps = SetToIdentityTransform (length b)\<rparr>
      | Some t \<Rightarrow>
          bind_result (PropagateBounds_implicit b a_to_b) (\<lambda>ds.
            let t' = set_domains t ds
            in bind_result
                 (map_result (propagate_index_range (IsDomainExplicitlyEmpty t'))
                    (zip b (output_index_maps t)))
                 (\<lambda>maps. Inr (t'\<lparr>output_index_maps := maps\<rparr>))))"

definition PropagateExplicitBoundsToTransform ::
  "index_interval list \<Rightarrow> transform_rep option \<Rightarrow> transform_rep result" where
  "PropagateExplicitBoundsToTransform b a_to_b = PropagateBoundsToTransform (map explicit_oi b) a_to_b"

section \<open>Bounds whose implicit sides are unbounded\<close>

text \<open>
  Propagation is exact for bounds of which only infinite ones are implicit: an explicit bound
  may be anything. (A finite implicit bound is a default that may be overridden, and the
  representation as a minimum and a size cannot keep it next to a conflicting explicit one.)
\<close>

definition weak_interval :: "index_interval \<Rightarrow> bool" where
  "weak_interval i \<longleftrightarrow>
     - kInfIndex \<le> inclusive_min i \<and> inclusive_min i \<le> kInfIndex \<and>
     - kInfIndex \<le> inclusive_max i \<and> inclusive_max i \<le> kInfIndex \<and>
     inclusive_min i \<le> inclusive_max i + 1"

definition plain_bounds :: "oi_interval \<Rightarrow> bool" where
  "plain_bounds oi \<longleftrightarrow>
     weak_interval (interval oi) \<and>
     (implicit_lower oi \<longrightarrow> inclusive_min (interval oi) = - kInfIndex) \<and>
     (implicit_upper oi \<longrightarrow> inclusive_max (interval oi) = kInfIndex)"

lemma valid_imp_weak: "valid_interval i \<Longrightarrow> weak_interval i"
  by (auto simp: valid_interval_iff_closed ValidClosed_def weak_interval_def)

lemma effective_plain: "plain_bounds oi \<Longrightarrow> effective_interval oi = interval oi"
  by (auto simp: plain_bounds_def effective_interval_def intro!: interval_eqI)

lemma IntersectPreferringExplicit_plain:
  assumes "plain_bounds a" "plain_bounds b"
  shows "plain_bounds (IntersectPreferringExplicit a b)"
    and "in_bounds (interval (IntersectPreferringExplicit a b)) z \<longleftrightarrow>
         in_bounds (interval a) z \<and> in_bounds (interval b) z"
proof -
  have e: "effective_interval a = interval a" "effective_interval b = interval b"
    using assms by (simp_all add: effective_plain)
  have r: "interval (IntersectPreferringExplicit a b) =
      UncheckedClosed (max (inclusive_min (interval a)) (inclusive_min (interval b)))
        (max (max (inclusive_min (interval a)) (inclusive_min (interval b)) - 1)
             (min (inclusive_max (interval a)) (inclusive_max (interval b))))"
    by (simp add: IntersectPreferringExplicit_def Let_def e)
  show "plain_bounds (IntersectPreferringExplicit a b)"
    using assms unfolding plain_bounds_def weak_interval_def r
    by (auto simp: IntersectPreferringExplicit_def Let_def index_consts)
  show "in_bounds (interval (IntersectPreferringExplicit a b)) z \<longleftrightarrow>
         in_bounds (interval a) z \<and> in_bounds (interval b) z"
    using assms unfolding plain_bounds_def weak_interval_def r in_bounds_def
    by (auto simp: max_def min_def)
qed

lemma GetAffineTransformDomain_unbounded:
  assumes "\<not> empty_interval i" "GetAffineTransformDomain i off s = Inr d"
  shows "0 < s \<Longrightarrow> inclusive_min i = - kInfIndex \<Longrightarrow> inclusive_min d = - kInfIndex"
    and "0 < s \<Longrightarrow> inclusive_max i = kInfIndex \<Longrightarrow> inclusive_max d = kInfIndex"
    and "s < 0 \<Longrightarrow> inclusive_min i = - kInfIndex \<Longrightarrow> inclusive_max d = kInfIndex"
    and "s < 0 \<Longrightarrow> inclusive_max i = kInfIndex \<Longrightarrow> inclusive_min d = - kInfIndex"
  using assms
  by (auto simp: GetAffineTransformDomain_def bind_result_Inr_iff affine_domain_lower_def
      affine_domain_size_def split: if_splits)

lemma GetAffineTransformDomain_empty_bounds:
  assumes "valid_interval i" "empty_interval i" "GetAffineTransformDomain i off s = Inr d"
  shows "weak_interval d \<and> \<not> in_bounds d z \<and> \<not> in_bounds i w"
proof -
  obtain rl where rl: "d = UncheckedSized rl 0" "IsFiniteIndex rl"
    using assms
    by (auto simp: GetAffineTransformDomain_def bind_result_Inr_iff affine_domain_lower_def
        affine_domain_size_def Let_def empty_interval_iff valid_interval_iff_closed ValidClosed_def
        split: if_splits prod.splits)
  show ?thesis
    using assms(1,2) rl
    by (auto simp: weak_interval_def in_bounds_def IsFiniteIndex_def index_consts
        empty_interval_iff valid_interval_iff_closed ValidClosed_def)
qed

lemma GetAffineTransformDomain_oi_plain:
  assumes b: "plain_bounds b" "valid_interval (interval b)"
    and p: "GetAffineTransformDomain_oi b off s = Inr p"
  shows "plain_bounds p" and "in_bounds (interval p) z \<longleftrightarrow> in_bounds (interval b) (off + s * z)"
proof -
  obtain d where d: "GetAffineTransformDomain (interval b) off s = Inr d"
    and p': "p = (if s < 0 then \<lparr>interval = d, implicit_lower = implicit_upper b,
                    implicit_upper = implicit_lower b\<rparr> else b\<lparr>interval := d\<rparr>)"
    using p by (auto simp: GetAffineTransformDomain_oi_def bind_result_Inr_iff)
  have s: "s \<noteq> 0" using d by (auto simp: GetAffineTransformDomain_def)
  have "plain_bounds p \<and> (in_bounds (interval p) z \<longleftrightarrow> in_bounds (interval b) (off + s * z))"
  proof (cases "empty_interval (interval b)")
    case True
    have "\<not> implicit_lower b" "\<not> implicit_upper b"
      using b True
      by (auto simp: plain_bounds_def empty_interval_iff valid_interval_iff_closed ValidClosed_def)
    then show ?thesis
      using GetAffineTransformDomain_empty_bounds [OF b(2) True d] by (simp add: plain_bounds_def p')
  next
    case False
    note nonempty = GetAffineTransformDomain_nonempty [OF b(2) False d]
    show ?thesis
      using nonempty valid_imp_weak [of d] b(1) GetAffineTransformDomain_unbounded [OF False d] s
      by (auto simp: plain_bounds_def p')
  qed
  then show "plain_bounds p" "in_bounds (interval p) z \<longleftrightarrow> in_bounds (interval b) (off + s * z)"
    by simp_all
qed

section \<open>The first loop computes the preimage of the bounds\<close>

text \<open>
  The condition the bounds of "b" put on the value \<open>z\<close> of dimension \<open>d\<close> of "a", by way of the
  maps of the list; and the condition on the constant maps.
\<close>

definition map_uses :: "output_index_map \<Rightarrow> nat \<Rightarrow> bool" where
  "map_uses m d \<longleftrightarrow> map_method m = Method_single_input_dimension d \<and> map_stride m \<noteq> 0"

definition preimage_of :: "(oi_interval \<times> output_index_map) list \<Rightarrow> nat \<Rightarrow> int \<Rightarrow> bool" where
  "preimage_of ps d z \<longleftrightarrow>
     (\<forall>(b, m) \<in> set ps. map_uses m d \<longrightarrow> in_bounds (effective_interval b) (map_offset m + map_stride m * z))"

definition constant_like :: "output_index_map \<Rightarrow> bool" where
  "constant_like m \<longleftrightarrow>
     (case map_method m of Method_constant \<Rightarrow> True
      | Method_single_input_dimension _ \<Rightarrow> map_stride m = 0 | Method_array _ \<Rightarrow> False)"

definition constants_inside :: "(oi_interval \<times> output_index_map) list \<Rightarrow> bool" where
  "constants_inside ps \<longleftrightarrow>
     (\<forall>(b, m) \<in> set ps. constant_like m \<longrightarrow> Contains_index (effective_interval b) (map_offset m))"

definition b_plain :: "(oi_interval \<times> output_index_map) list \<Rightarrow> bool" where
  "b_plain ps \<longleftrightarrow> (\<forall>(b, m) \<in> set ps. plain_bounds b \<and> valid_interval (interval b))"

lemma propagate_step_cases:
  assumes "propagate_step e b m st = Inr st'"
  obtains (const) "constant_like m" "st' = st" "\<not> e \<Longrightarrow> Contains_index (effective_interval b) (map_offset m)"
  | (array) a where "map_method m = Method_array a" "st' = st"
  | (single) d p where "map_method m = Method_single_input_dimension d" "map_stride m \<noteq> 0"
      "GetAffineTransformDomain_oi b (map_offset m) (map_stride m) = Inr p"
      "st' = st[d := (IntersectPreferringExplicit p (fst (st ! d)), True)]"
  using assms
  by (auto simp: propagate_step_def check_constant_map_def CheckContains_def constant_like_def
      bind_result_Inr_iff split: output_index_method.splits if_splits)

lemma propagate_loop_plain:
  assumes "propagate_loop e ps st = Inr st'" "b_plain ps" "\<forall>oi \<in> set st. plain_bounds (fst oi)"
    and "d < length st"
  shows "length st' = length st \<and> plain_bounds (fst (st' ! d)) \<and>
    (in_bounds (interval (fst (st' ! d))) z \<longleftrightarrow> in_bounds (interval (fst (st ! d))) z \<and> preimage_of ps d z) \<and>
    (snd (st' ! d) \<longleftrightarrow> snd (st ! d) \<or> (\<exists>(b, m) \<in> set ps. map_uses m d)) \<and>
    (\<not> e \<longrightarrow> constants_inside ps)"
  using assms
proof (induction e ps st arbitrary: st' rule: propagate_loop.induct)
  case (1 e st)
  then show ?case by (auto simp: preimage_of_def constants_inside_def)
next
  case (2 e b m ps st)
  obtain st1 where st1: "propagate_step e b m st = Inr st1" and rest: "propagate_loop e ps st1 = Inr st'"
    using "2.prems"(1) by (auto simp: bind_result_Inr_iff)
  have b: "plain_bounds b" "valid_interval (interval b)" and ps: "b_plain ps"
    using "2.prems"(2) by (auto simp: b_plain_def)
  from st1 show ?case
  proof (cases rule: propagate_step_cases)
    case const
    have "\<not> map_uses m d" using const(1) by (auto simp: constant_like_def map_uses_def)
    then show ?thesis
      using "2.IH" [OF rest] ps "2.prems"(3,4) const
      by (auto simp: preimage_of_def constants_inside_def)
  next
    case (array a)
    then show ?thesis
      using "2.IH" [OF rest] ps "2.prems"(3,4)
      by (auto simp: preimage_of_def constants_inside_def map_uses_def constant_like_def)
  next
    case (single d' p)
    note pp = GetAffineTransformDomain_oi_plain [OF b single(3)]
    have st_plain: "plain_bounds (fst (st ! d'))" if "d' < length st"
      using "2.prems"(3) that by simp
    have st1_plain: "\<forall>oi \<in> set st1. plain_bounds (fst oi)"
    proof (cases "d' < length st")
      case True
      then show ?thesis
        using "2.prems"(3) IntersectPreferringExplicit_plain(1) [OF pp(1) st_plain [OF True]] single(4)
        by (auto dest!: subsetD [OF set_update_subset_insert])
    next
      case False
      then show ?thesis using "2.prems"(3) single(4) by (simp add: list_update_beyond)
    qed
    have uses: "map_uses m d \<longleftrightarrow> d' = d" using single(1,2) by (auto simp: map_uses_def)
    have nth: "st1 ! d = (if d' = d then (IntersectPreferringExplicit p (fst (st ! d)), True) else st ! d)"
      using "2.prems"(4) single(4) by simp
    have pre: "preimage_of ((b, m) # ps) d z \<longleftrightarrow>
        (d' = d \<longrightarrow> in_bounds (interval b) (map_offset m + map_stride m * z)) \<and> preimage_of ps d z"
      by (simp add: preimage_of_def uses effective_plain [OF b(1)])
    have const: "constants_inside ((b, m) # ps) \<longleftrightarrow> constants_inside ps"
      using single(1,2) by (simp add: constants_inside_def constant_like_def)
    have len: "length st1 = length st" by (simp add: single(4))
    have ex: "(\<exists>(b', m') \<in> set ((b, m) # ps). map_uses m' d) \<longleftrightarrow> d' = d \<or> (\<exists>(b', m') \<in> set ps. map_uses m' d)"
      by (simp add: uses)
    have IH: "length st' = length st \<and> plain_bounds (fst (st' ! d)) \<and>
        (in_bounds (interval (fst (st' ! d))) z \<longleftrightarrow> in_bounds (interval (fst (st1 ! d))) z \<and> preimage_of ps d z) \<and>
        (snd (st' ! d) \<longleftrightarrow> snd (st1 ! d) \<or> (\<exists>(b, m) \<in> set ps. map_uses m d)) \<and>
        (\<not> e \<longrightarrow> constants_inside ps)"
      using "2.IH" [OF rest ps st1_plain, unfolded len, OF "2.prems"(4)] .
    show ?thesis
    proof (cases "d' = d")
      case True
      have "in_bounds (interval (fst (st1 ! d))) z \<longleftrightarrow>
          in_bounds (interval b) (map_offset m + map_stride m * z) \<and> in_bounds (interval (fst (st ! d))) z"
        using IntersectPreferringExplicit_plain(2) [OF pp(1) st_plain, of z] True "2.prems"(4)
        by (simp add: nth pp(2))
      moreover have "snd (st1 ! d)" using True by (simp add: nth)
      ultimately show ?thesis using IH True unfolding pre const ex by blast
    next
      case False
      then have "st1 ! d = st ! d" by (simp add: nth)
      then show ?thesis using IH False unfolding pre const ex by simp
    qed
  qed
qed

section \<open>The implicit bits\<close>

definition lower_implicit :: "(oi_interval \<times> output_index_map) list \<Rightarrow> nat \<Rightarrow> bool" where
  "lower_implicit ps d \<longleftrightarrow>
     (\<forall>(b, m) \<in> set ps. map_uses m d \<longrightarrow> (if map_stride m < 0 then implicit_upper b else implicit_lower b))"

definition upper_implicit :: "(oi_interval \<times> output_index_map) list \<Rightarrow> nat \<Rightarrow> bool" where
  "upper_implicit ps d \<longleftrightarrow>
     (\<forall>(b, m) \<in> set ps. map_uses m d \<longrightarrow> (if map_stride m < 0 then implicit_lower b else implicit_upper b))"

lemma length_implicit_step [simp]: "length (implicit_step p flags) = length flags"
  by (auto simp: implicit_step_def Let_def split: prod.splits output_index_method.splits)

lemma length_fold_implicit_step [simp]: "length (fold implicit_step ps flags) = length flags"
  by (induction ps arbitrary: flags) simp_all

lemma implicit_step_nth:
  assumes "d < length flags"
  shows "implicit_step (b, m) flags ! d =
    (if map_uses m d
     then ((if map_stride m < 0 then implicit_upper b else implicit_lower b) \<and> fst (flags ! d),
           (if map_stride m < 0 then implicit_lower b else implicit_upper b) \<and> snd (flags ! d))
     else flags ! d)"
  using assms
  by (auto simp: implicit_step_def map_uses_def nth_list_update split: output_index_method.splits)

lemma fold_implicit_step_nth:
  assumes "d < length flags"
  shows "fold implicit_step ps flags ! d =
    (fst (flags ! d) \<and> lower_implicit ps d, snd (flags ! d) \<and> upper_implicit ps d)"
  using assms
proof (induction ps arbitrary: flags)
  case Nil
  then show ?case by (simp add: lower_implicit_def upper_implicit_def)
next
  case (Cons p ps)
  obtain b m where p: "p = (b, m)" by (cases p)
  show ?case
    using Cons.IH [of "implicit_step p flags"] Cons.prems
    by (auto simp: p implicit_step_nth lower_implicit_def upper_implicit_def)
qed

lemma GetAffineTransformDomain_oi_flags:
  "GetAffineTransformDomain_oi b off s = Inr p \<Longrightarrow>
     implicit_lower p = (if s < 0 then implicit_upper b else implicit_lower b) \<and>
     implicit_upper p = (if s < 0 then implicit_lower b else implicit_upper b)"
  by (auto simp: GetAffineTransformDomain_oi_def bind_result_Inr_iff)

lemma propagate_loop_flags:
  assumes "propagate_loop e ps st = Inr st'" "d < length st"
  shows "implicit_lower (fst (st' ! d)) \<longleftrightarrow> implicit_lower (fst (st ! d)) \<and> lower_implicit ps d"
    and "implicit_upper (fst (st' ! d)) \<longleftrightarrow> implicit_upper (fst (st ! d)) \<and> upper_implicit ps d"
proof -
  have "(implicit_lower (fst (st' ! d)) \<longleftrightarrow> implicit_lower (fst (st ! d)) \<and> lower_implicit ps d) \<and>
        (implicit_upper (fst (st' ! d)) \<longleftrightarrow> implicit_upper (fst (st ! d)) \<and> upper_implicit ps d)"
    using assms
  proof (induction e ps st arbitrary: st' rule: propagate_loop.induct)
    case (1 e st)
    then show ?case by (auto simp: lower_implicit_def upper_implicit_def)
  next
    case (2 e b m ps st)
    obtain st1 where st1: "propagate_step e b m st = Inr st1" and rest: "propagate_loop e ps st1 = Inr st'"
      using "2.prems"(1) by (auto simp: bind_result_Inr_iff)
    have split: "lower_implicit ((b, m) # ps) d \<longleftrightarrow>
        (map_uses m d \<longrightarrow> (if map_stride m < 0 then implicit_upper b else implicit_lower b)) \<and> lower_implicit ps d"
      "upper_implicit ((b, m) # ps) d \<longleftrightarrow>
        (map_uses m d \<longrightarrow> (if map_stride m < 0 then implicit_lower b else implicit_upper b)) \<and> upper_implicit ps d"
      by (simp_all add: lower_implicit_def upper_implicit_def)
    from st1 show ?case
    proof (cases rule: propagate_step_cases)
      case const
      then show ?thesis
        using "2.IH" [OF rest] "2.prems"(2) unfolding split by (simp add: map_uses_def constant_like_def
            split: output_index_method.splits)
    next
      case (array a)
      then show ?thesis using "2.IH" [OF rest] "2.prems"(2) unfolding split by (simp add: map_uses_def)
    next
      case (single d' p)
      then show ?thesis
        using "2.IH" [OF rest] "2.prems"(2) GetAffineTransformDomain_oi_flags [OF single(3)]
        unfolding split
        by (cases "d' = d") (auto simp: map_uses_def IntersectPreferringExplicit_def Let_def)
    qed
  qed
  then show "implicit_lower (fst (st' ! d)) \<longleftrightarrow> implicit_lower (fst (st ! d)) \<and> lower_implicit ps d"
    "implicit_upper (fst (st' ! d)) \<longleftrightarrow> implicit_upper (fst (st ! d)) \<and> upper_implicit ps d"
    by simp_all
qed

section \<open>The propagated bounds are exact\<close>

lemma combined_bounds_exact:
  assumes v: "valid_interval (interval a)" and p: "plain_bounds q"
    and c: "Contains_interval (effective_interval q) (combined_bounds a (interval q))"
  shows "in_bounds (effective_interval
           (make_oi (combined_bounds a (interval q), implicit_lower a \<and> implicit_lower q,
                     implicit_upper a \<and> implicit_upper q))) z \<longleftrightarrow>
         in_bounds (effective_interval a) z \<and> in_bounds (interval q) z"
proof -
  have sz: "interval_size i = inclusive_max i - inclusive_min i + 1" for i
    by (rule interval_size_eq)
  show ?thesis
    using v p c effective_plain [OF p]
    unfolding Contains_interval_def combined_bounds_def make_oi_def effective_interval_def
      valid_interval_iff_closed ValidClosed_def plain_bounds_def weak_interval_def in_bounds_def
    by (cases "implicit_lower a"; cases "implicit_upper a"; cases "implicit_lower q"; cases "implicit_upper q")
      (auto simp: sz Let_def index_consts)
qed

text \<open>The list of pairs the loops of the code run over.\<close>

abbreviation b_maps :: "oi_interval list \<Rightarrow> transform_rep \<Rightarrow> (oi_interval \<times> output_index_map) list" where
  "b_maps b t \<equiv> zip b (output_index_maps t)"

definition valid_dims :: "transform_rep \<Rightarrow> bool" where
  "valid_dims t \<longleftrightarrow> (\<forall>d \<in> set (input_dims t). valid_interval (interval (optionally_implicit_interval d)))"

lemma domain_empty_iff:
  "(\<exists>d \<in> set (map optionally_implicit_interval (input_dims t)).
      \<not> implicit_lower d \<and> \<not> implicit_upper d \<and> empty_interval (interval d)) \<longleftrightarrow>
   IsDomainExplicitlyEmpty t"
  by (auto simp: IsDomainExplicitlyEmpty_def implicit_dimension_def empty_interval_def)

lemma PropagateBounds_Some:
  "PropagateBounds b (Some t) =
     bind_result (propagate_loop (IsDomainExplicitlyEmpty t) (b_maps b t)
                    (replicate (input_rank t) initial_inferred))
       (\<lambda>st. map_result (validate_dimension (IsDomainExplicitlyEmpty t))
               (zip (map optionally_implicit_interval (input_dims t)) st))"
  unfolding PropagateBounds_def option.case Let_def domain_empty_iff by (rule refl)

lemma plain_initial_inferred: "plain_bounds (fst initial_inferred)"
  by (simp add: initial_inferred_def plain_bounds_def weak_interval_def index_consts Infinite_def ivl_defs)

lemma in_bounds_initial_inferred: "in_bounds (interval (fst initial_inferred)) z"
  by (simp add: initial_inferred_def in_bounds_def Infinite_def ivl_defs index_consts)

lemma propagate_loop_length: "propagate_loop e ps st0 = Inr st \<Longrightarrow> length st = length st0"
proof (induction e ps st0 rule: propagate_loop.induct)
  case (2 e b m ps st0)
  then show ?case by (auto simp: bind_result_Inr_iff elim!: propagate_step_cases)
qed simp

lemma PropagateBounds_implicit_length:
  "PropagateBounds_implicit b (Some t) = Inr ds \<Longrightarrow> length ds = input_rank t"
  by (auto simp: PropagateBounds_implicit_def PropagateBounds_Some bind_result_Inr_iff map_result_Inr_iff
      PropagateImplicitBoundState_def input_rank_def dest!: propagate_loop_length)

lemma PropagateBounds_implicit_nth:
  assumes r: "PropagateBounds_implicit b (Some t) = Inr ds" and d: "d < input_rank t"
  obtains st where "propagate_loop (IsDomainExplicitlyEmpty t) (b_maps b t)
        (replicate (input_rank t) initial_inferred) = Inr st"
    and "length ds = input_rank t"
    and "validate_dimension (IsDomainExplicitlyEmpty t) (optionally_implicit_domain t d, st ! d) =
         Inr (interval (ds ! d))"
    and "implicit_lower (ds ! d) \<longleftrightarrow>
         implicit_lower (optionally_implicit_domain t d) \<and> lower_implicit (b_maps b t) d"
    and "implicit_upper (ds ! d) \<longleftrightarrow>
         implicit_upper (optionally_implicit_domain t d) \<and> upper_implicit (b_maps b t) d"
proof -
  define ex where "ex = map optionally_implicit_interval (input_dims t)"
  obtain st a where st: "propagate_loop (IsDomainExplicitlyEmpty t) (b_maps b t)
        (replicate (input_rank t) initial_inferred) = Inr st"
    and a: "map_result (validate_dimension (IsDomainExplicitlyEmpty t)) (zip ex st) = Inr a"
    and ds: "ds = map make_oi (zip a (PropagateImplicitBoundState b (Some t)))"
    using r by (auto simp: PropagateBounds_implicit_def PropagateBounds_Some bind_result_Inr_iff ex_def)
  have "length st = input_rank t"
    using propagate_loop_length [OF st] by simp
  then have len: "length a = input_rank t" "length (zip ex st) = input_rank t" "d < length (zip ex st)"
    using a d by (auto simp: map_result_Inr_iff ex_def input_rank_def)
  have v: "validate_dimension (IsDomainExplicitlyEmpty t) (zip ex st ! d) = Inr (a ! d)"
    using a len by (simp add: map_result_Inr_iff)
  have fl: "PropagateImplicitBoundState b (Some t) ! d =
      (implicit_lower (optionally_implicit_domain t d) \<and> lower_implicit (b_maps b t) d,
       implicit_upper (optionally_implicit_domain t d) \<and> upper_implicit (b_maps b t) d)"
    "length (PropagateImplicitBoundState b (Some t)) = input_rank t"
    using d by (simp_all add: PropagateImplicitBoundState_def fold_implicit_step_nth input_rank_def
        optionally_implicit_domain_def)
  have dsd: "ds ! d = make_oi (a ! d, PropagateImplicitBoundState b (Some t) ! d)"
    using len fl(2) d by (simp add: ds)
  show thesis
    using that [OF st] v len fl dsd d
    by (simp add: ds make_oi_def ex_def optionally_implicit_domain_def input_rank_def)
qed

lemma PropagateBounds_exact:
  assumes r: "PropagateBounds_implicit b (Some t) = Inr ds" and d: "d < input_rank t"
    and v: "valid_dims t" and b: "b_plain (b_maps b t)" and ne: "\<not> IsDomainExplicitlyEmpty t"
  shows "in_bounds (effective_interval (ds ! d)) z \<longleftrightarrow>
         in_bounds (effective_interval (optionally_implicit_domain t d)) z \<and> preimage_of (b_maps b t) d z"
    and "constants_inside (b_maps b t)"
proof -
  obtain st where st: "propagate_loop False (b_maps b t) (replicate (input_rank t) initial_inferred) = Inr st"
    and val: "validate_dimension False (optionally_implicit_domain t d, st ! d) = Inr (interval (ds ! d))"
    and lo: "implicit_lower (ds ! d) \<longleftrightarrow>
         implicit_lower (optionally_implicit_domain t d) \<and> lower_implicit (b_maps b t) d"
    and up: "implicit_upper (ds ! d) \<longleftrightarrow>
         implicit_upper (optionally_implicit_domain t d) \<and> upper_implicit (b_maps b t) d"
    using PropagateBounds_implicit_nth [OF r d] ne by metis
  let ?a = "optionally_implicit_domain t d" and ?q = "fst (st ! d)"
  have init: "replicate (input_rank t) initial_inferred ! d = initial_inferred" using d by simp
  have loop: "plain_bounds ?q" "in_bounds (interval ?q) z \<longleftrightarrow> preimage_of (b_maps b t) d z"
    "snd (st ! d) \<longleftrightarrow> (\<exists>(b, m) \<in> set (b_maps b t). map_uses m d)" "constants_inside (b_maps b t)" for z
    using propagate_loop_plain [OF st b, of d z] d
    by (simp_all add: plain_initial_inferred in_bounds_initial_inferred init)
      (simp_all add: initial_inferred_def)
  have flags: "implicit_lower ?q \<longleftrightarrow> lower_implicit (b_maps b t) d"
    "implicit_upper ?q \<longleftrightarrow> upper_implicit (b_maps b t) d"
    using propagate_loop_flags [OF st, of d] d by (simp_all add: initial_inferred_def)
  show "constants_inside (b_maps b t)" by (rule loop(4))
  have va: "valid_interval (interval ?a)"
    using v d by (auto simp: valid_dims_def optionally_implicit_domain_def input_rank_def)
  show "in_bounds (effective_interval (ds ! d)) z \<longleftrightarrow>
      in_bounds (effective_interval ?a) z \<and> preimage_of (b_maps b t) d z"
  proof (cases "snd (st ! d)")
    case True
    have "Contains_interval (effective_interval ?q) (combined_bounds ?a (interval ?q))"
      and "interval (ds ! d) = combined_bounds ?a (interval ?q)"
      using val True by (auto simp: validate_dimension_def Let_def split: prod.splits if_splits)
    moreover from this have "ds ! d = make_oi (combined_bounds ?a (interval ?q),
        implicit_lower ?a \<and> implicit_lower ?q, implicit_upper ?a \<and> implicit_upper ?q)"
      using lo up flags by (simp add: make_oi_def)
    ultimately show ?thesis
      using combined_bounds_exact [OF va loop(1), of z] loop(2) [of z] by simp
  next
    case False
    then have un: "\<And>b' m. (b', m) \<in> set (b_maps b t) \<Longrightarrow> \<not> map_uses m d"
      using loop(3) by blast
    then have "lower_implicit (b_maps b t) d" "upper_implicit (b_maps b t) d"
      "preimage_of (b_maps b t) d z"
      by (auto simp: lower_implicit_def upper_implicit_def preimage_of_def)
    moreover have "interval (ds ! d) = interval ?a"
      using val False by (auto simp: validate_dimension_def split: prod.splits)
    ultimately show ?thesis
      using lo up by (simp add: effective_interval_def)
  qed
qed

lemma propagate_loop_constants: "propagate_loop False ps st = Inr st' \<Longrightarrow> constants_inside ps"
proof (induction False ps st rule: propagate_loop.induct)
  case (2 b m ps st)
  obtain st1 where st1: "propagate_step False b m st = Inr st1" and rest: "propagate_loop False ps st1 = Inr st'"
    using "2.prems" by (auto simp: bind_result_Inr_iff)
  have "constants_inside ps" by (rule "2.hyps" [OF rest])
  moreover from st1 have "constant_like m \<longrightarrow> Contains_index (effective_interval b) (map_offset m)"
    by (cases rule: propagate_step_cases) (auto simp: constant_like_def)
  ultimately show ?case by (simp add: constants_inside_def)
qed (simp add: constants_inside_def)

lemma PropagateBounds_constants:
  assumes "PropagateBounds_implicit b (Some t) = Inr ds" "\<not> IsDomainExplicitlyEmpty t"
  shows "constants_inside (b_maps b t)"
  using assms propagate_loop_constants
  by (auto simp: PropagateBounds_implicit_def PropagateBounds_Some bind_result_Inr_iff)

end
