(* ===== verification/Contiguous_Layout.thy ===== *)
theory Contiguous_Layout
  imports Box_Space
begin

text \<open>
  Contiguous and strided layouts: \<^verbatim>\<open>contiguous_layout.cc\<close> and \<^verbatim>\<open>strided_layout.cc\<close>. The
  strides of a contiguous layout are shown to enumerate the elements of an array without gaps
  or overlaps, which is what the code that copies arrays into freshly allocated storage
  relies on.
\<close>

section \<open>Permutations\<close>

datatype contiguous_layout_order = c_order | fortran_order

definition SetPermutation :: "contiguous_layout_order \<Rightarrow> nat \<Rightarrow> nat list" where
  "SetPermutation order rank =
     (if order = c_order then [0..<rank] else map (\<lambda>i. rank - 1 - i) [0..<rank])"

fun valid_permutation_from :: "int \<Rightarrow> int set \<Rightarrow> int list \<Rightarrow> bool" where
  "valid_permutation_from rank seen_dims [] = True"
| "valid_permutation_from rank seen_dims (dim # dims) =
     (if dim < 0 \<or> dim \<ge> rank \<or> dim \<in> seen_dims then False
      else valid_permutation_from rank (insert dim seen_dims) dims)"

definition kMaxRank :: int where
  "kMaxRank = 32"

definition IsValidPermutation :: "int list \<Rightarrow> bool" where
  "IsValidPermutation permutation \<longleftrightarrow>
     (let rank = int (length permutation)
      in if rank > kMaxRank then False else valid_permutation_from rank {} permutation)"

definition PermutationMatchesOrder :: "nat list \<Rightarrow> contiguous_layout_order \<Rightarrow> bool" where
  "PermutationMatchesOrder permutation order \<longleftrightarrow>
     (if order = c_order then (\<forall>i < length permutation. permutation ! i = i)
      else (\<forall>i < length permutation. permutation ! i = length permutation - i - 1))"

fun invert_from :: "nat \<Rightarrow> nat list \<Rightarrow> nat list \<Rightarrow> nat list" where
  "invert_from i [] inverse_perm = inverse_perm"
| "invert_from i (p # perm) inverse_perm = invert_from (Suc i) perm (inverse_perm[p := i])"

text \<open>The output array is not initialised by the code; it starts as zeros here.\<close>

definition InvertPermutation :: "nat list \<Rightarrow> nat list" where
  "InvertPermutation perm = invert_from 0 perm (replicate (length perm) 0)"

definition SetPermutationFromStrides :: "int list \<Rightarrow> nat list" where
  "SetPermutationFromStrides strides =
     sort_key (\<lambda>i. if strides ! i > 0 then - (strides ! i) else strides ! i) [0..<length strides]"

section \<open>Strides\<close>

fun compute_strides_loop :: "int \<Rightarrow> int list \<Rightarrow> int list" where
  "compute_strides_loop element_stride [] = []"
| "compute_strides_loop element_stride (s # shape) =
     element_stride # compute_strides_loop (wrap_Multiply element_stride s) shape"

definition ComputeStrides :: "contiguous_layout_order \<Rightarrow> int \<Rightarrow> int list \<Rightarrow> int list" where
  "ComputeStrides order element_stride shape =
     (if order = c_order then rev (compute_strides_loop element_stride (rev shape))
      else compute_strides_loop element_stride shape)"

fun compute_strides_perm :: "int \<Rightarrow> nat list \<Rightarrow> int list \<Rightarrow> int list \<Rightarrow> int list" where
  "compute_strides_perm element_stride [] shape strides = strides"
| "compute_strides_perm element_stride (i # is) shape strides =
     compute_strides_perm (wrap_Multiply element_stride (shape ! i)) is shape
       (strides[i := element_stride])"

definition ComputeStrides_permutation :: "nat list \<Rightarrow> int \<Rightarrow> int list \<Rightarrow> int list" where
  "ComputeStrides_permutation permutation element_stride shape =
     compute_strides_perm element_stride (rev permutation) shape (replicate (length shape) 0)"

fun is_contiguous_loop :: "int \<Rightarrow> int list \<Rightarrow> int list \<Rightarrow> bool" where
  "is_contiguous_loop stride (b # b' # bs) (s # ss) =
     (if b \<noteq> stride then False
      else let (overflow, stride') = MulOverflow stride s
           in if overflow then False else is_contiguous_loop stride' (b' # bs) ss)"
| "is_contiguous_loop stride [b] ss = (b = stride)"
| "is_contiguous_loop stride _ _ = True"

definition IsContiguousLayout ::
  "int list \<Rightarrow> int list \<Rightarrow> contiguous_layout_order \<Rightarrow> int \<Rightarrow> bool" where
  "IsContiguousLayout shape byte_strides order element_size =
     (if order = c_order then is_contiguous_loop element_size (rev byte_strides) (rev shape)
      else is_contiguous_loop element_size byte_strides shape)"

fun is_contiguous_perm :: "int \<Rightarrow> nat list \<Rightarrow> int list \<Rightarrow> int list \<Rightarrow> bool" where
  "is_contiguous_perm stride [] shape byte_strides = True"
| "is_contiguous_perm stride (i # is) shape byte_strides =
     (if byte_strides ! i \<noteq> stride then False
      else let (overflow, stride') = MulOverflow stride (shape ! i)
           in if overflow then False else is_contiguous_perm stride' is shape byte_strides)"

definition IsContiguousLayout_permutation ::
  "int list \<Rightarrow> int list \<Rightarrow> nat list \<Rightarrow> int \<Rightarrow> bool" where
  "IsContiguousLayout_permutation shape byte_strides order element_size =
     is_contiguous_perm element_size (rev order) shape byte_strides"

definition IsBroadcastScalar :: "int list \<Rightarrow> int list \<Rightarrow> bool" where
  "IsBroadcastScalar shape byte_strides \<longleftrightarrow>
     (\<forall>i < length shape. \<not> (shape ! i > 1 \<and> byte_strides ! i \<noteq> 0))"

fun byte_extent_loop :: "int \<Rightarrow> int list \<Rightarrow> int list \<Rightarrow> int" where
  "byte_extent_loop byte_extent (sz # shape) (b # byte_strides) =
     (if sz = 0 then 0
      else if sz = 1 then byte_extent_loop byte_extent shape byte_strides
      else byte_extent_loop (max byte_extent (wrap_Multiply \<bar>b\<bar> sz)) shape byte_strides)"
| "byte_extent_loop byte_extent _ _ = byte_extent"

definition GetByteExtent :: "int list \<Rightarrow> int list \<Rightarrow> int \<Rightarrow> int" where
  "GetByteExtent shape byte_strides element_size = byte_extent_loop element_size shape byte_strides"

definition ValidateShapeBroadcast :: "int list \<Rightarrow> int list \<Rightarrow> unit result" where
  "ValidateShapeBroadcast source_shape target_shape =
     (if \<exists>source_dim < length source_shape.
           source_shape ! source_dim \<noteq> 1 \<and>
           (let target_dim = int (length target_shape) - int (length source_shape) + int source_dim
            in target_dim < 0 \<or> target_shape ! nat target_dim \<noteq> source_shape ! source_dim)
      then Inl InvalidArgument else Inr ())"

section \<open>Properties of permutations\<close>

lemma valid_permutation_from_iff:
  "valid_permutation_from rank seen dims \<longleftrightarrow>
     distinct dims \<and> set dims \<subseteq> {0..<rank} \<and> set dims \<inter> seen = {}"
  by (induction rank seen dims rule: valid_permutation_from.induct) auto

lemma IsValidPermutation_iff:
  "IsValidPermutation p \<longleftrightarrow>
     length p \<le> 32 \<and> distinct p \<and> set p = {0..<int (length p)}"
proof -
  have "set p = {0..<int (length p)}" if "distinct p" "set p \<subseteq> {0..<int (length p)}"
    using that distinct_card [of p] by (intro card_subset_eq) auto
  then show ?thesis
    by (auto simp: IsValidPermutation_def Let_def kMaxRank_def valid_permutation_from_iff)
qed

lemma length_invert_from [simp]: "length (invert_from i perm iv) = length iv"
  by (induction i perm iv rule: invert_from.induct) simp_all

definition is_perm :: "nat list \<Rightarrow> bool" where
  "is_perm p \<longleftrightarrow> distinct p \<and> set p = {0..<length p}"

lemma is_permI: "distinct p \<Longrightarrow> set p \<subseteq> {0..<length p} \<Longrightarrow> is_perm p"
  using distinct_card [of p] card_subset_eq [of "{0..<length p}" "set p"]
  by (simp add: is_perm_def)

lemma invert_from_other: "j \<notin> set perm \<Longrightarrow> invert_from i perm iv ! j = iv ! j"
  by (induction i perm iv rule: invert_from.induct) auto

lemma invert_from_at:
  assumes "distinct perm" "k < length perm" "\<forall>p \<in> set perm. p < length iv"
  shows "invert_from i perm iv ! (perm ! k) = i + k"
  using assms
proof (induction i perm iv arbitrary: k rule: invert_from.induct)
  case (2 i p perm iv)
  show ?case
  proof (cases k)
    case 0
    then show ?thesis using "2.prems" by (simp add: invert_from_other)
  next
    case (Suc k')
    then show ?thesis using "2.prems" "2.IH" [of k'] by simp
  qed
qed simp

lemma InvertPermutation_left:
  assumes "is_perm p" "k < length p"
  shows "InvertPermutation p ! (p ! k) = k"
  using assms invert_from_at [of p k "replicate (length p) 0" 0]
  by (auto simp: is_perm_def InvertPermutation_def)

lemma InvertPermutation_right:
  assumes "is_perm p" "j < length p"
  shows "p ! (InvertPermutation p ! j) = j" and "InvertPermutation p ! j < length p"
proof -
  have "j \<in> set p" using assms by (auto simp: is_perm_def)
  then obtain k where "k < length p" "p ! k = j" by (auto simp: in_set_conv_nth)
  then show "p ! (InvertPermutation p ! j) = j" "InvertPermutation p ! j < length p"
    using InvertPermutation_left [OF assms(1), of k] by auto
qed

lemma is_perm_InvertPermutation:
  assumes "is_perm p"
  shows "is_perm (InvertPermutation p)"
proof -
  have len: "length (InvertPermutation p) = length p" by (simp add: InvertPermutation_def)
  have "distinct (InvertPermutation p)"
    unfolding distinct_conv_nth len
    using InvertPermutation_right(1) [OF assms] by metis
  moreover have "set (InvertPermutation p) \<subseteq> {0..<length p}"
    using InvertPermutation_right(2) [OF assms] len by (auto simp: in_set_conv_nth)
  ultimately show ?thesis
    using len by (intro is_permI) simp_all
qed

lemma SetPermutation_perm: "is_perm (SetPermutation order rank)"
proof (cases order)
  case fortran_order
  have "distinct (map ((-) (rank - Suc 0)) [0..<rank])" by (auto simp: distinct_map inj_on_def)
  moreover have "(\<lambda>x. rank - Suc x) ` {0..<rank} \<subseteq> {0..<rank}" by auto
  ultimately show ?thesis
    using fortran_order by (intro is_permI) (simp_all add: SetPermutation_def)
qed (simp add: is_perm_def SetPermutation_def)

lemma SetPermutationFromStrides_perm:
  "is_perm (SetPermutationFromStrides strides)"
  "sorted (map (\<lambda>i. - \<bar>strides ! i\<bar>) (SetPermutationFromStrides strides))"
proof -
  have f: "(\<lambda>i. if strides ! i > 0 then - (strides ! i) else strides ! i) = (\<lambda>i. - \<bar>strides ! i\<bar>)"
    by auto
  show "is_perm (SetPermutationFromStrides strides)"
    by (simp add: is_perm_def SetPermutationFromStrides_def)
  show "sorted (map (\<lambda>i. - \<bar>strides ! i\<bar>) (SetPermutationFromStrides strides))"
    unfolding SetPermutationFromStrides_def f by (rule sorted_sort_key)
qed

section \<open>Contiguous strides enumerate the elements\<close>

text \<open>
  The position of an element in the enumeration where the last index varies slowest
  (\<open>column_major\<close>), which is the order of \<open>compute_strides_loop\<close>.
\<close>

fun in_shape :: "int list \<Rightarrow> int list \<Rightarrow> bool" where
  "in_shape (s # shape) (p # pos) \<longleftrightarrow> 0 \<le> p \<and> p < s \<and> in_shape shape pos"
| "in_shape [] [] \<longleftrightarrow> True"
| "in_shape _ _ \<longleftrightarrow> False"

fun column_major :: "int list \<Rightarrow> int list \<Rightarrow> int" where
  "column_major (s # shape) (p # pos) = p + s * column_major shape pos"
| "column_major _ _ = 0"

lemma in_shape_iff: "in_shape shape pos \<longleftrightarrow> list_all2 (\<lambda>s p. 0 \<le> p \<and> p < s) shape pos"
  by (induction shape pos rule: in_shape.induct) auto

lemma in_shape_length: "in_shape shape pos \<Longrightarrow> length pos = length shape"
  by (induction shape pos rule: in_shape.induct) auto

lemma in_shape_rev: "in_shape (rev shape) (rev pos) \<longleftrightarrow> in_shape shape pos"
  by (auto simp: in_shape_iff list_all2_rev)

lemma column_major_bounds:
  assumes "in_shape shape pos"
  shows "0 \<le> column_major shape pos" and "column_major shape pos < prod_list shape"
proof -
  have "0 \<le> column_major shape pos \<and> column_major shape pos < prod_list shape"
    using assms
  proof (induction shape pos rule: in_shape.induct)
    case (1 s shape p pos)
    have "s * (column_major shape pos + 1) \<le> s * prod_list shape"
      using 1 by (intro mult_left_mono) auto
    then have "p + s * column_major shape pos < s * prod_list shape"
      using 1 by (simp add: algebra_simps)
    then show ?case using 1 by simp
  qed auto
  then show "0 \<le> column_major shape pos" "column_major shape pos < prod_list shape" by simp_all
qed

lemma column_major_inj:
  assumes "in_shape shape pos" "in_shape shape pos'" "column_major shape pos = column_major shape pos'"
  shows "pos = pos'"
  using assms
proof (induction shape pos arbitrary: pos' rule: in_shape.induct)
  case (1 s shape p pos)
  obtain q qs where q: "pos' = q # qs" "0 \<le> q" "q < s" "in_shape shape qs"
    using "1.prems"(2) by (cases pos') auto
  let ?a = "column_major shape pos" and ?b = "column_major shape qs"
  have eq: "p + s * ?a = q + s * ?b" using "1.prems"(3) q(1) by simp
  have "(p + s * ?a) mod s = p" "(q + s * ?b) mod s = q"
    using "1.prems"(1) q by simp_all
  then have "p = q" using eq by simp
  moreover have "?a = ?b" using eq \<open>p = q\<close> q by simp
  ultimately show ?case using 1 q by simp
next
  case 2
  then show ?case by (cases pos') auto
qed auto

lemma in_shape_prod_pos: "in_shape shape pos \<Longrightarrow> 0 < prod_list shape"
  using column_major_bounds [of shape pos] by simp

lemma compute_strides_loop_dot:
  assumes "in_shape shape pos" "0 < e" "e * prod_list shape \<le> index_max"
  shows "sum_list (map2 (*) pos (compute_strides_loop e shape)) = e * column_major shape pos"
  using assms
proof (induction shape pos arbitrary: e rule: in_shape.induct)
  case (1 s shape p pos)
  have s: "1 \<le> s" and p: "1 \<le> prod_list shape"
    using "1.prems"(1) in_shape_prod_pos [of shape pos] by auto
  have "e * s * 1 \<le> e * s * prod_list shape"
    using s p "1.prems"(2) by (intro mult_left_mono) auto
  then have le: "e * s \<le> index_max" using "1.prems"(3) by (simp add: mult.assoc)
  have "0 < e * s" using s "1.prems"(2) by simp
  then have w: "wrap_Multiply e s = e * s"
    using le by (simp add: wrap_Multiply_def index_consts)
  show ?case
    using 1 w \<open>0 < e * s\<close> by (simp add: algebra_simps)
qed auto

lemma length_compute_strides_loop [simp]: "length (compute_strides_loop e shape) = length shape"
  by (induction e shape rule: compute_strides_loop.induct) simp_all

lemma length_ComputeStrides [simp]: "length (ComputeStrides order e shape) = length shape"
  by (simp add: ComputeStrides_def)

lemma sum_list_map2_rev:
  fixes a b :: "int list"
  assumes "length a = length b"
  shows "sum_list (map2 (*) (rev a) (rev b)) = sum_list (map2 (*) a b)"
  using assms by (simp add: zip_rev rev_map [symmetric] sum_list_rev)

definition linear_position :: "contiguous_layout_order \<Rightarrow> int list \<Rightarrow> int list \<Rightarrow> int" where
  "linear_position order shape pos =
     (if order = c_order then column_major (rev shape) (rev pos) else column_major shape pos)"

lemma linear_position_bounds:
  assumes "in_shape shape pos"
  shows "0 \<le> linear_position order shape pos" and "linear_position order shape pos < prod_list shape"
  using column_major_bounds [of shape pos] column_major_bounds [of "rev shape" "rev pos"] assms
  by (auto simp: linear_position_def in_shape_rev prod_list.rev)

lemma linear_position_inj:
  assumes "in_shape shape pos" "in_shape shape pos'"
    and "linear_position order shape pos = linear_position order shape pos'"
  shows "pos = pos'"
  using column_major_inj [of shape pos pos'] column_major_inj [of "rev shape" "rev pos" "rev pos'"] assms
  by (auto simp: linear_position_def in_shape_rev split: if_splits)

lemma ComputeStrides_dot:
  assumes "in_shape shape pos" "0 < e" "e * prod_list shape \<le> index_max"
  shows "sum_list (map2 (*) pos (ComputeStrides order e shape)) = e * linear_position order shape pos"
proof (cases "order = c_order")
  case True
  have "in_shape (rev shape) (rev pos)" "e * prod_list (rev shape) \<le> index_max"
    using assms by (simp_all add: in_shape_rev prod_list.rev)
  from compute_strides_loop_dot [OF this(1) assms(2) this(2)] show ?thesis
    using sum_list_map2_rev [of "rev pos" "compute_strides_loop e (rev shape)"] in_shape_length [OF assms(1)]
    by (simp add: ComputeStrides_def linear_position_def True)
next
  case False
  then show ?thesis
    using compute_strides_loop_dot [OF assms] by (simp add: ComputeStrides_def linear_position_def)
qed

lemma ComputeStrides_InnerProduct:
  assumes "in_shape shape pos" "0 < e" "e * prod_list shape \<le> index_max"
  shows "InnerProduct pos (ComputeStrides order e shape) = e * linear_position order shape pos"
    and "0 \<le> e * linear_position order shape pos"
    and "e * linear_position order shape pos + e \<le> e * prod_list shape"
proof -
  note b = linear_position_bounds [OF assms(1), of order]
  show nn: "0 \<le> e * linear_position order shape pos" using b assms(2) by simp
  have "e * (linear_position order shape pos + 1) \<le> e * prod_list shape"
    using b assms(2) by (intro mult_left_mono) auto
  then show le: "e * linear_position order shape pos + e \<le> e * prod_list shape"
    by (simp add: algebra_simps)
  show "InnerProduct pos (ComputeStrides order e shape) = e * linear_position order shape pos"
    unfolding InnerProduct_eq ComputeStrides_dot [OF assms]
    using nn le assms(2,3) by (intro wrap_index_id) (auto simp: index_consts)
qed

section \<open>Contiguity checks\<close>

lemma is_contiguous_loop_imp:
  "is_contiguous_loop e bs ss \<Longrightarrow> length bs = length ss \<Longrightarrow> bs = compute_strides_loop e ss"
proof (induction e bs ss rule: is_contiguous_loop.induct)
  case (1 e b b' bs s ss)
  then show ?case
    by (auto simp: MulOverflow_def wrap_Multiply_def split: if_splits prod.splits)
next
  case (2 e b ss)
  then show ?case by (cases ss) auto
qed auto

lemma is_contiguous_loop_compute:
  assumes "0 < e" "\<forall>s \<in> set ss. 1 \<le> s" "e * prod_list ss \<le> index_max"
  shows "is_contiguous_loop e (compute_strides_loop e ss) ss"
  using assms
proof (induction e ss rule: compute_strides_loop.induct)
  case (2 e s ss)
  have p: "1 \<le> prod_list ss" using "2.prems"(2) by (intro prod_list_ge1) auto
  have "e * s * 1 \<le> e * s * prod_list ss"
    using p "2.prems"(1,2) by (intro mult_left_mono) auto
  then have le: "e * s \<le> index_max" using "2.prems"(3) by (simp add: mult.assoc)
  have pos: "0 < e * s" using "2.prems"(1,2) by simp
  have w: "wrap_Multiply e s = e * s" "MulOverflow e s = (False, e * s)"
    using le pos by (auto simp: wrap_Multiply_def MulOverflow_eq_False index_consts)
  have IH: "is_contiguous_loop (e * s) (compute_strides_loop (e * s) ss) ss"
    using "2.IH" [unfolded w(1)] "2.prems" pos by (simp add: mult.assoc)
  show ?case
  proof (cases ss)
    case (Cons s' ss')
    then show ?thesis using IH by (simp add: w)
  qed simp
qed simp

lemma IsContiguousLayout_iff:
  assumes "length shape = length byte_strides" "0 < e" "\<forall>s \<in> set shape. 1 \<le> s"
    and "e * prod_list shape \<le> index_max"
  shows "IsContiguousLayout shape byte_strides order e \<longleftrightarrow> byte_strides = ComputeStrides order e shape"
proof -
  have fwd: "byte_strides = ComputeStrides order e shape" if "IsContiguousLayout shape byte_strides order e"
    using that assms(1) is_contiguous_loop_imp [of e byte_strides shape]
      is_contiguous_loop_imp [of e "rev byte_strides" "rev shape"]
    by (auto simp: IsContiguousLayout_def ComputeStrides_def rev_swap split: if_splits)
  have bwd: "IsContiguousLayout shape (ComputeStrides order e shape) order e"
    using is_contiguous_loop_compute [of e shape] is_contiguous_loop_compute [of e "rev shape"] assms
    by (simp add: IsContiguousLayout_def ComputeStrides_def prod_list.rev)
  show ?thesis using fwd bwd by auto
qed

end
