(* ===== verification/Transform_Array.thy ===== *)
theory Transform_Array
  imports Propagate_Bounds Contiguous_Layout "HOL-Library.List_Lexorder"
begin

text \<open>
  Transforming an index array by an index transform:
  \<^verbatim>\<open>index_space/internal/transform_array.cc\<close> and the parts of \<^verbatim>\<open>iterate.cc\<close> and
  \<^verbatim>\<open>iterate_impl.h\<close> it uses, for the element type \<^verbatim>\<open>Index\<close> (8 bytes) and the constraints
  \<^verbatim>\<open>{skip_repeated_elements}\<close> that the composition of transforms passes (no required layout
  order, no required allocation). The iteration over blocks of 1024 positions with combined
  dimensions (\<^verbatim>\<open>SimplifyDimensionIterationOrder\<close>, \<^verbatim>\<open>IterateUsingSimplifiedLayout\<close>) is the
  iteration over all positions of the ordered dimensions here.
\<close>

section \<open>State of the iteration over one transformed array\<close>

record array_view =
  av_pointer :: "int \<Rightarrow> int"
  av_domain :: "index_interval list"
  av_byte_strides :: "int list"

text \<open>One entry of \<^verbatim>\<open>index_array_pointers\<close>, \<^verbatim>\<open>index_array_byte_strides\<close> and
  \<^verbatim>\<open>index_array_output_byte_strides\<close>.\<close>

record index_array_ref =
  ia_pointer :: "int \<Rightarrow> int"
  ia_byte_strides :: "int list"
  ia_output_byte_stride :: int

text \<open>\<open>base_pointer\<close> is the byte offset from the pointer of the array.\<close>

record iteration_state =
  base_pointer :: int
  input_byte_strides :: "int list"
  index_arrays :: "index_array_ref list"

record iteration_flags =
  strided_flag :: bool
  array_indexed_flag :: bool

fun index_positions :: "int list \<Rightarrow> int list list" where
  "index_positions [] = [[]]"
| "index_positions (s # shape) =
     concat (map (\<lambda>i. map ((#) i) (index_positions shape)) (map int [0..<nat s]))"

definition ValidateIndexArrayBounds ::
  "index_interval \<Rightarrow> (int \<Rightarrow> int) \<Rightarrow> int list \<Rightarrow> int list \<Rightarrow> unit result" where
  "ValidateIndexArrayBounds bounds ptr shape strides =
     (let finite_bounds = FiniteSubset bounds;
          values = map (\<lambda>p. ptr (InnerProduct p strides)) (index_positions shape)
      in case find (\<lambda>v. v < inclusive_min finite_bounds \<or> v \<ge> exclusive_max finite_bounds) values of
           Some bad_index \<Rightarrow> CheckContains bounds bad_index
         | None \<Rightarrow> Inr ())"

definition add_base :: "int \<Rightarrow> iteration_state \<Rightarrow> iteration_state" where
  "add_base off st = st\<lparr>base_pointer := wrap_Add (base_pointer st) off\<rparr>"

definition iterate_constant ::
  "index_interval \<Rightarrow> int \<Rightarrow> iteration_state \<times> iteration_flags list \<Rightarrow>
     (iteration_state \<times> iteration_flags list) result" where
  "iterate_constant bounds output_offset sf =
     bind_result (CheckContains bounds output_offset) (\<lambda>_. Inr sf)"

definition iterate_single ::
  "int list \<Rightarrow> int list \<Rightarrow> index_interval \<Rightarrow> int \<Rightarrow> nat \<Rightarrow> int \<Rightarrow> int \<Rightarrow>
     iteration_state \<times> iteration_flags list \<Rightarrow> (iteration_state \<times> iteration_flags list) result" where
  "iterate_single origin shape bounds byte_stride d output_offset output_stride = (\<lambda>(st, flags).
     bind_result (GetAffineTransformRange (UncheckedSized (origin ! d) (shape ! d))
                    output_offset output_stride) (\<lambda>range.
       if \<not> Contains_interval bounds range then Inl OutOfRange
       else Inr ((add_base (wrap_Multiply byte_stride (wrap_Multiply output_stride (origin ! d))) st)
                   \<lparr>input_byte_strides := (input_byte_strides st)
                      [d := wrap_Add (input_byte_strides st ! d) (wrap_Multiply byte_stride output_stride)]\<rparr>,
                 flags[d := (flags ! d)\<lparr>strided_flag := True\<rparr>])))"

definition varying_dim :: "int list \<Rightarrow> index_array_data \<Rightarrow> nat \<Rightarrow> bool" where
  "varying_dim shape a d \<longleftrightarrow> byte_strides a ! d \<noteq> 0 \<and> shape ! d \<noteq> 1"

definition iterate_array ::
  "int list \<Rightarrow> int list \<Rightarrow> index_interval \<Rightarrow> int \<Rightarrow> index_array_data \<Rightarrow> int \<Rightarrow> int \<Rightarrow>
     iteration_state \<times> iteration_flags list \<Rightarrow> (iteration_state \<times> iteration_flags list) result" where
  "iterate_array origin shape bounds byte_stride a output_offset output_stride = (\<lambda>(st, flags).
     bind_result (GetAffineTransformDomain bounds output_offset output_stride) (\<lambda>propagated.
       let index_bounds = Intersect propagated (index_range a);
           ptr = AddByteOffset (element_pointer a) (InnerProduct origin (byte_strides a));
           dims = [0..<length shape]
       in if \<forall>d \<in> set dims. \<not> varying_dim shape a d then
            (let index = ptr 0
             in bind_result (CheckContains index_bounds index) (\<lambda>_.
                  Inr (add_base (wrap_Multiply byte_stride (wrap_Multiply output_stride index)) st, flags)))
          else
            bind_result (ValidateIndexArrayBounds index_bounds ptr shape (byte_strides a)) (\<lambda>_.
              Inr (st\<lparr>index_arrays := index_arrays st @
                        [\<lparr>ia_pointer = ptr, ia_byte_strides = byte_strides a,
                          ia_output_byte_stride = wrap_Multiply byte_stride output_stride\<rparr>]\<rparr>,
                   map (\<lambda>d. if varying_dim shape a d
                             then (flags ! d)\<lparr>array_indexed_flag := True\<rparr> else flags ! d) dims))))"

definition iterate_output_dim ::
  "int list \<Rightarrow> int list \<Rightarrow> index_interval \<times> int \<times> output_index_map \<Rightarrow>
     iteration_state \<times> iteration_flags list \<Rightarrow> (iteration_state \<times> iteration_flags list) result" where
  "iterate_output_dim origin shape = (\<lambda>(bounds, byte_stride, m) (st, flags).
     if byte_stride = 0 then Inr (st, flags)
     else
       let sf = (add_base (wrap_Multiply (map_offset m) byte_stride) st, flags)
       in if map_stride m = 0 then iterate_constant bounds (map_offset m) sf
          else case map_method m of
            Method_constant \<Rightarrow> iterate_constant bounds (map_offset m) sf
          | Method_single_input_dimension d \<Rightarrow>
              iterate_single origin shape bounds byte_stride d (map_offset m) (map_stride m) sf
          | Method_array a \<Rightarrow>
              iterate_array origin shape bounds byte_stride a (map_offset m) (map_stride m) sf)"

fun iterate_loop ::
  "int list \<Rightarrow> int list \<Rightarrow> (index_interval \<times> int \<times> output_index_map) list \<Rightarrow>
     iteration_state \<times> iteration_flags list \<Rightarrow> (iteration_state \<times> iteration_flags list) result" where
  "iterate_loop origin shape [] sf = Inr sf"
| "iterate_loop origin shape (o' # os) sf =
     bind_result (iterate_output_dim origin shape o' sf) (iterate_loop origin shape os)"

text \<open>The default flags \<^verbatim>\<open>can_skip\<close> of \<^verbatim>\<open>skip_repeated_elements\<close>.\<close>

definition initial_flags :: "nat \<Rightarrow> iteration_flags list" where
  "initial_flags rank = replicate rank \<lparr>strided_flag = False, array_indexed_flag = False\<rparr>"

definition InitializeSingleArrayIterationState ::
  "array_view \<Rightarrow> transform_rep option \<Rightarrow> int list \<Rightarrow> int list \<Rightarrow> iteration_flags list \<Rightarrow>
     (iteration_state \<times> iteration_flags list) result" where
  "InitializeSingleArrayIterationState arr transform origin shape flags =
     (case transform of
        None \<Rightarrow>
          Inr (\<lparr>base_pointer = InnerProduct origin (av_byte_strides arr),
                input_byte_strides = av_byte_strides arr, index_arrays = []\<rparr>,
               map (\<lambda>d. if shape ! d \<noteq> 1 then (flags ! d)\<lparr>strided_flag := True\<rparr> else flags ! d)
                 [0..<length shape])
      | Some t \<Rightarrow>
          iterate_loop origin shape
            (zip (av_domain arr) (zip (av_byte_strides arr) (output_index_maps t)))
            (\<lparr>base_pointer = 0, input_byte_strides = replicate (input_rank t) 0, index_arrays = []\<rparr>,
             flags))"

section \<open>transform\_array.cc\<close>

definition MarkSingletonDimsAsSkippable ::
  "int list \<Rightarrow> iteration_flags list \<Rightarrow> iteration_flags list" where
  "MarkSingletonDimsAsSkippable shape flags =
     map (\<lambda>d. if shape ! d = 1 then \<lparr>strided_flag = False, array_indexed_flag = False\<rparr> else flags ! d)
       [0..<length shape]"

text \<open>
  The comparison \<^verbatim>\<open>OrderTransformedArrayDimensionsByStrides\<close> as a sort key. \<^verbatim>\<open>std::sort\<close>
  leaves the order of equivalent dimensions open; here it is stable.
\<close>

definition dimension_sort_key :: "iteration_state \<Rightarrow> nat \<Rightarrow> int list" where
  "dimension_sort_key st d =
     map (\<lambda>ia. - \<bar>ia_byte_strides ia ! d\<bar>) (index_arrays st) @ [- \<bar>input_byte_strides st ! d\<bar>]"

definition ComputeDimensionIterationOrder ::
  "iteration_state \<Rightarrow> iteration_flags list \<Rightarrow> nat list" where
  "ComputeDimensionIterationOrder st flags =
     sort_key (dimension_sort_key st)
       (filter (\<lambda>d. array_indexed_flag (flags ! d)) [0..<length flags]) @
     sort_key (dimension_sort_key st)
       (filter (\<lambda>d. strided_flag (flags ! d) \<and> \<not> array_indexed_flag (flags ! d)) [0..<length flags])"

text \<open>\<^verbatim>\<open>sizeof(Index)\<close>, and the size check of \<^verbatim>\<open>AllocateAndConstruct\<close> (\<^verbatim>\<open>data_type.cc\<close>).\<close>

definition index_bytes :: int where
  "index_bytes = 8"

definition AllocateAndConstruct :: "int \<Rightarrow> unit result" where
  "AllocateAndConstruct n =
     (let (overflow, signed_bytes) = MulOverflow index_bytes n
      in if overflow \<or> RoundUpTo signed_bytes index_bytes > kMaxFiniteSize then Inl BadAlloc else Inr ())"

definition element_offset :: "iteration_state \<Rightarrow> int list \<Rightarrow> int" where
  "element_offset st p =
     wrap_index (base_pointer st + InnerProduct p (input_byte_strides st) +
       sum_list (map (\<lambda>ia. wrap_Multiply (ia_pointer ia (InnerProduct p (ia_byte_strides ia)))
                              (ia_output_byte_stride ia)) (index_arrays st)))"

definition place :: "nat \<Rightarrow> nat list \<Rightarrow> int list \<Rightarrow> int list" where
  "place rank order q = fold (\<lambda>(d, v) p. p[d := v]) (zip order q) (replicate rank 0)"

definition copy_region ::
  "array_view \<Rightarrow> iteration_state \<Rightarrow> nat \<Rightarrow> nat list \<Rightarrow> int list \<Rightarrow> int list \<Rightarrow> int \<Rightarrow> int" where
  "copy_region arr st rank order new_shape new_byte_strides =
     fold (\<lambda>q mem. mem(InnerProduct q new_byte_strides :=
                         av_pointer arr (element_offset st (place rank order q))))
       (index_positions new_shape) (\<lambda>_. 0)"

definition TransformArraySubRegion ::
  "array_view \<Rightarrow> transform_rep option \<Rightarrow> int list \<Rightarrow> int list \<Rightarrow>
     ((int \<Rightarrow> int) option \<times> int list) result" where
  "TransformArraySubRegion arr transform result_origin result_shape =
     (let rank = length result_shape
      in if \<exists>s \<in> set result_shape. s = 0 then Inr (None, replicate rank 0)
         else bind_result
           (InitializeSingleArrayIterationState arr transform result_origin result_shape
              (initial_flags rank)) (\<lambda>(st, flags).
           if index_arrays st = [] then
             Inr (Some (AddByteOffset (av_pointer arr) (base_pointer st)), input_byte_strides st)
           else
             let order = ComputeDimensionIterationOrder st (MarkSingletonDimsAsSkippable result_shape flags);
                 new_shape = map (\<lambda>d. result_shape ! d) order;
                 new_byte_strides = ComputeStrides c_order index_bytes new_shape
             in bind_result (AllocateAndConstruct (ProductOfExtents new_shape)) (\<lambda>_.
                  Inr (Some (copy_region arr st rank order new_shape new_byte_strides),
                       place rank order new_byte_strides))))"

section \<open>What the state of the iteration stands for\<close>

lemma index_positions_iff: "q \<in> set (index_positions shape) \<longleftrightarrow> in_shape shape q"
proof (induction shape arbitrary: q)
  case Nil
  then show ?case by (cases q) auto
next
  case (Cons s shape)
  show ?case
  proof (cases q)
    case (Cons p ps)
    have "(\<exists>k. k < nat s \<and> p = int k) \<longleftrightarrow> 0 \<le> p \<and> p < s"
      by (metis (no_types, lifting) nat_eq_iff2 of_nat_0_le_iff zless_nat_eq_int_zless nat_less_iff)
    then show ?thesis using Cons.IH [of ps] by (auto simp: Cons)
  qed auto
qed

lemma dot_add:
  fixes a b c :: "int list"
  assumes "length a = length c" "length b = length c"
  shows "sum_list (map2 (*) (map2 (+) a b) c) = sum_list (map2 (*) a c) + sum_list (map2 (*) b c)"
  using assms
proof (induction c arbitrary: a b)
  case (Cons c cs)
  then show ?case by (cases a; cases b) (auto simp: algebra_simps)
qed simp

lemma dot_update:
  fixes p s :: "int list"
  assumes "length p = length s" "d < length s"
  shows "sum_list (map2 (*) p (s[d := v])) = sum_list (map2 (*) p s) + p ! d * (v - s ! d)"
  using assms
proof (induction s arbitrary: p d)
  case (Cons x s)
  then show ?case by (cases p; cases d) (auto simp: algebra_simps)
qed simp

lemma dot_zero:
  fixes p s :: "int list"
  assumes "length p = length s" "\<And>d. d < length s \<Longrightarrow> p ! d = 0 \<or> s ! d = 0"
  shows "sum_list (map2 (*) p s) = 0"
  using assms
proof (induction s arbitrary: p)
  case (Cons x s)
  obtain q qs where p: "p = q # qs" using Cons.prems(1) by (cases p) auto
  have "q = 0 \<or> x = 0" using Cons.prems(2) [of 0] by (simp add: p)
  moreover have "sum_list (map2 (*) qs s) = 0"
    using Cons.IH [of qs] Cons.prems(1) Cons.prems(2) [of "Suc _"] by (simp add: p)
  ultimately show ?case by (auto simp: p)
qed simp

lemma InnerProduct_add:
  assumes "length a = length c" "length b = length c"
  shows "InnerProduct (map2 (+) a b) c = wrap_index (InnerProduct a c + InnerProduct b c)"
  using assms by (simp add: InnerProduct_eq dot_add)

lemma InnerProduct_add_zero:
  assumes "length a = length c" "length b = length c" "\<And>d. d < length c \<Longrightarrow> b ! d = 0 \<or> c ! d = 0"
  shows "InnerProduct (map2 (+) a b) c = InnerProduct a c"
  using assms by (simp add: InnerProduct_eq dot_add dot_zero)

text \<open>The value of a map before wrapping, and the input dimensions it depends on.\<close>

definition base_value :: "output_index_map \<Rightarrow> int list \<Rightarrow> int" where
  "base_value m x =
     (case map_method m of
        Method_constant \<Rightarrow> 0
      | Method_single_input_dimension d \<Rightarrow> x ! d
      | Method_array a \<Rightarrow> element_pointer a (InnerProduct x (byte_strides a)))"

definition map_value :: "output_index_map \<Rightarrow> int list \<Rightarrow> int" where
  "map_value m x = base_value m x * map_stride m + map_offset m"

definition dim_used :: "output_index_map \<Rightarrow> nat \<Rightarrow> bool" where
  "dim_used m d \<longleftrightarrow>
     map_stride m \<noteq> 0 \<and>
     (case map_method m of
        Method_constant \<Rightarrow> False
      | Method_single_input_dimension e \<Rightarrow> d = e
      | Method_array a \<Rightarrow> byte_strides a ! d \<noteq> 0)"

definition raw_offset :: "iteration_state \<Rightarrow> int list \<Rightarrow> int" where
  "raw_offset st p =
     base_pointer st + sum_list (map2 (*) p (input_byte_strides st)) +
     sum_list (map (\<lambda>ia. ia_pointer ia (InnerProduct p (ia_byte_strides ia)) * ia_output_byte_stride ia)
       (index_arrays st))"

lemma element_offset_eq: "element_offset st p = wrap_index (raw_offset st p)"
  unfolding element_offset_def raw_offset_def wrap_index_eq_weq InnerProduct_eq
  by (intro weq_intros weq_sum_list)

definition map_fits :: "nat \<Rightarrow> output_index_map \<Rightarrow> bool" where
  "map_fits n m \<longleftrightarrow>
     (case map_method m of
        Method_constant \<Rightarrow> True
      | Method_single_input_dimension d \<Rightarrow> d < n
      | Method_array a \<Rightarrow> length (byte_strides a) = n)"

definition state_fits :: "nat \<Rightarrow> iteration_state \<times> iteration_flags list \<Rightarrow> bool" where
  "state_fits n = (\<lambda>(st, flags).
     length (input_byte_strides st) = n \<and> length flags = n \<and>
     (\<forall>ia \<in> set (index_arrays st). length (ia_byte_strides ia) = n))"

lemma iterate_output_dim_fits:
  assumes "iterate_output_dim origin shape (b, bs, m) sf = Inr sf'" "state_fits n sf"
    "map_fits n m" "length shape = n"
  shows "state_fits n sf'"
  using assms
  by (auto simp: iterate_output_dim_def iterate_constant_def iterate_single_def iterate_array_def
      add_base_def state_fits_def map_fits_def Let_def bind_result_Inr_iff
      split: if_splits output_index_method.splits prod.splits)

lemma raw_offset_add_base:
  assumes "weq off off'"
  shows "weq (raw_offset (add_base off st) p) (raw_offset st p + off')"
proof -
  have "raw_offset (add_base off st) p = wrap_Add (base_pointer st) off + (raw_offset st p - base_pointer st)"
    by (simp add: raw_offset_def add_base_def)
  also have "weq \<dots> (base_pointer st + off' + (raw_offset st p - base_pointer st))"
    by (rule weq_add [OF weq_trans [OF weq_wrap_Add weq_add [OF weq_refl assms]] weq_refl])
  finally show ?thesis by (simp add: algebra_simps)
qed

lemma iterate_single_offset:
  assumes r: "iterate_single origin shape b bs d off s (st, flags) = Inr (st', flags')"
    and len: "length p = length (input_byte_strides st)" "d < length (input_byte_strides st)"
  shows "weq (raw_offset st' p) (raw_offset st p + bs * (s * (origin ! d + p ! d)))"
proof -
  define st1 where "st1 = add_base (wrap_Multiply bs (wrap_Multiply s (origin ! d))) st"
  define v where "v = wrap_Add (input_byte_strides st ! d) (wrap_Multiply bs s)"
  have st': "st' = st1\<lparr>input_byte_strides := (input_byte_strides st)[d := v]\<rparr>"
    using r by (auto simp: iterate_single_def bind_result_Inr_iff st1_def v_def split: if_splits)
  have eq: "raw_offset st' p = raw_offset st1 p + p ! d * (v - input_byte_strides st ! d)"
    using dot_update [OF len] by (simp add: raw_offset_def st' st1_def add_base_def)
  have "weq (raw_offset st1 p) (raw_offset st p + bs * (s * (origin ! d)))"
    unfolding st1_def by (rule raw_offset_add_base [OF weq_wrap_Multiply2])
  moreover have "weq (v - input_byte_strides st ! d) (input_byte_strides st ! d + bs * s - input_byte_strides st ! d)"
    unfolding v_def by (rule weq_diff [OF weq_trans [OF weq_wrap_Add] weq_refl]) (intro weq_intros)
  ultimately have "weq (raw_offset st' p) (raw_offset st p + bs * (s * (origin ! d)) +
      p ! d * (input_byte_strides st ! d + bs * s - input_byte_strides st ! d))"
    unfolding eq by (rule weq_add [OF _ weq_mult [OF weq_refl]])
  then show ?thesis by (simp add: algebra_simps)
qed

lemma iterate_array_offset:
  assumes r: "iterate_array origin shape b bs a off s (st, flags) = Inr (st', flags')"
    and len: "length p = n" "length origin = n" "length shape = n" "length (byte_strides a) = n"
    and reg: "\<And>d. d < n \<Longrightarrow> byte_strides a ! d \<noteq> 0 \<Longrightarrow> 0 \<le> p ! d \<and> p ! d < shape ! d"
  shows "weq (raw_offset st' p)
           (raw_offset st p + bs * (s * element_pointer a (InnerProduct (map2 (+) origin p) (byte_strides a))))"
proof -
  let ?ptr = "AddByteOffset (element_pointer a) (InnerProduct origin (byte_strides a))"
  let ?v = "element_pointer a (InnerProduct (map2 (+) origin p) (byte_strides a))"
  have ptr: "?ptr (InnerProduct p (byte_strides a)) = ?v"
    using len by (simp add: AddByteOffset_def InnerProduct_add wrap_Add_def)
  show ?thesis
  proof (cases "\<forall>d \<in> set [0..<length shape]. \<not> varying_dim shape a d")
    case True
    have zero: "p ! d = 0 \<or> byte_strides a ! d = 0" if "d < n" for d
      using True reg [OF that] len(3) that by (force simp: varying_dim_def)
    have "?ptr 0 = ?v"
      using InnerProduct_add_zero [of origin "byte_strides a" p] zero len
      by (simp add: AddByteOffset_def wrap_Add_def InnerProduct_eq)
    then have st': "st' = add_base (wrap_Multiply bs (wrap_Multiply s ?v)) st"
      using r True by (auto simp: iterate_array_def Let_def bind_result_Inr_iff)
    show ?thesis
      unfolding st' by (rule raw_offset_add_base [OF weq_wrap_Multiply2])
  next
    case False
    then have st': "st' = st\<lparr>index_arrays := index_arrays st @
        [\<lparr>ia_pointer = ?ptr, ia_byte_strides = byte_strides a,
          ia_output_byte_stride = wrap_Multiply bs s\<rparr>]\<rparr>"
      using r by (auto simp: iterate_array_def Let_def bind_result_Inr_iff split: if_splits)
    have "raw_offset st' p = raw_offset st p + ?v * wrap_Multiply bs s"
      by (simp add: raw_offset_def st' ptr)
    also have "weq \<dots> (raw_offset st p + ?v * (bs * s))" by (intro weq_intros)
    finally show ?thesis by (simp add: algebra_simps)
  qed
qed

lemma iterate_output_dim_offset:
  assumes r: "iterate_output_dim origin shape (b, bs, m) (st, flags) = Inr (st', flags')"
    and fits: "state_fits n (st, flags)" "map_fits n m"
    and len: "length p = n" "length origin = n" "length shape = n"
    and reg: "\<And>d. bs \<noteq> 0 \<Longrightarrow> d < n \<Longrightarrow> dim_used m d \<Longrightarrow> 0 \<le> p ! d \<and> p ! d < shape ! d"
  shows "weq (raw_offset st' p) (raw_offset st p + bs * map_value m (map2 (+) origin p))"
proof (cases "bs = 0")
  case True
  then show ?thesis using r by (simp add: iterate_output_dim_def)
next
  case bs: False
  define st1 where "st1 = add_base (wrap_Multiply (map_offset m) bs) st"
  have st1: "weq (raw_offset st1 p) (raw_offset st p + map_offset m * bs)"
    unfolding st1_def by (rule raw_offset_add_base [OF weq_wrap_Multiply])
  have ibs: "input_byte_strides st1 = input_byte_strides st" by (simp add: st1_def add_base_def)
  have "weq (raw_offset st' p) (raw_offset st1 p + bs * (map_stride m * base_value m (map2 (+) origin p)))"
  proof (cases "map_stride m = 0 \<or> map_method m = Method_constant")
    case True
    then have "st' = st1"
      using r bs by (auto simp: iterate_output_dim_def iterate_constant_def bind_result_Inr_iff
          st1_def Let_def split: if_splits)
    then show ?thesis using True by (auto simp: base_value_def)
  next
    case nz: False
    show ?thesis
    proof (cases "map_method m")
      case (Method_single_input_dimension d)
      then have "iterate_single origin shape b bs d (map_offset m) (map_stride m) (st1, flags) = Inr (st', flags')"
        using r bs nz by (simp add: iterate_output_dim_def st1_def)
      from iterate_single_offset [OF this, of p] show ?thesis
        using fits len Method_single_input_dimension
        by (simp add: ibs state_fits_def map_fits_def base_value_def)
    next
      case (Method_array a)
      then have "iterate_array origin shape b bs a (map_offset m) (map_stride m) (st1, flags) = Inr (st', flags')"
        using r bs nz by (simp add: iterate_output_dim_def st1_def)
      from iterate_array_offset [OF this len(1-3)] show ?thesis
        using fits(2) reg [OF bs] nz Method_array
        by (simp add: map_fits_def base_value_def dim_used_def)
    qed (use nz in simp)
  qed
  then have "weq (raw_offset st' p)
      (raw_offset st p + map_offset m * bs + bs * (map_stride m * base_value m (map2 (+) origin p)))"
    by (rule weq_trans [OF _ weq_add [OF st1 weq_refl]])
  then show ?thesis by (simp add: map_value_def algebra_simps)
qed

lemma iterate_loop_offset:
  assumes "iterate_loop origin shape os sf = Inr (st', flags')" "state_fits n sf"
    and "\<forall>(b, bs, m) \<in> set os. map_fits n m"
    and len: "length p = n" "length origin = n" "length shape = n"
    and "\<And>b bs m d. (b, bs, m) \<in> set os \<Longrightarrow> bs \<noteq> 0 \<Longrightarrow> d < n \<Longrightarrow> dim_used m d \<Longrightarrow>
           0 \<le> p ! d \<and> p ! d < shape ! d"
  shows "weq (raw_offset st' p)
           (raw_offset (fst sf) p + sum_list (map (\<lambda>(b, bs, m). bs * map_value m (map2 (+) origin p)) os))"
  using assms(1-3,7)
proof (induction os arbitrary: sf)
  case (Cons o' os)
  obtain b bs m where o': "o' = (b, bs, m)" by (cases o')
  obtain st1 flags1 where s1: "iterate_output_dim origin shape (b, bs, m) sf = Inr (st1, flags1)"
    and rest: "iterate_loop origin shape os (st1, flags1) = Inr (st', flags')"
    using Cons.prems(1) by (auto simp: o' bind_result_Inr_iff)
  obtain st flags where sf: "sf = (st, flags)" by (cases sf)
  have f1: "state_fits n (st1, flags1)"
    using iterate_output_dim_fits [OF s1 Cons.prems(2)] Cons.prems(3) len by (simp add: o')
  have "weq (raw_offset st1 p) (raw_offset st p + bs * map_value m (map2 (+) origin p))"
    by (rule iterate_output_dim_offset [OF s1 [unfolded sf], of n p])
      (use Cons.prems(2-4) len in \<open>auto simp: o' sf\<close>)
  moreover have "weq (raw_offset st' p)
      (raw_offset st1 p + sum_list (map (\<lambda>(b, bs, m). bs * map_value m (map2 (+) origin p)) os))"
    by (rule Cons.IH [OF rest f1, simplified]) (use Cons.prems(3,4) in \<open>auto simp: o'\<close>)
  ultimately have "weq (raw_offset st' p) (raw_offset st p + bs * map_value m (map2 (+) origin p) +
      sum_list (map (\<lambda>(b, bs, m). bs * map_value m (map2 (+) origin p)) os))"
    using weq_trans weq_add [OF _ weq_refl] by blast
  then show ?case by (simp add: o' sf add.assoc)
qed (simp add: raw_offset_def)

text \<open>What the flags of the dimensions record, where \<open>R\<close> holds of the dimensions in use.\<close>

definition flags_ok ::
  "nat \<Rightarrow> int list \<Rightarrow> (nat \<Rightarrow> bool) \<Rightarrow> iteration_state \<times> iteration_flags list \<Rightarrow> bool" where
  "flags_ok n shape R = (\<lambda>(st, flags). \<forall>d < n.
     (input_byte_strides st ! d \<noteq> 0 \<longrightarrow> strided_flag (flags ! d)) \<and>
     (\<forall>ia \<in> set (index_arrays st). ia_byte_strides ia ! d \<noteq> 0 \<longrightarrow>
        (array_indexed_flag (flags ! d) \<or> shape ! d = 1) \<and> R d) \<and>
     (strided_flag (flags ! d) \<or> array_indexed_flag (flags ! d) \<longrightarrow> R d))"

lemma iterate_output_dim_flags:
  assumes r: "iterate_output_dim origin shape (b, bs, m) (st, flags) = Inr (st', flags')"
    and fits: "state_fits n (st, flags)" "map_fits n m" "length shape = n"
    and R: "\<And>d. bs \<noteq> 0 \<Longrightarrow> d < n \<Longrightarrow> dim_used m d \<Longrightarrow> R d"
    and f: "flags_ok n shape R (st, flags)"
  shows "flags_ok n shape R (st', flags')"
proof (cases "bs = 0 \<or> map_stride m = 0 \<or> map_method m = Method_constant")
  case True
  then have "flags' = flags" "input_byte_strides st' = input_byte_strides st" "index_arrays st' = index_arrays st"
    using r by (auto simp: iterate_output_dim_def iterate_constant_def bind_result_Inr_iff add_base_def
        Let_def split: if_splits)
  then show ?thesis using f by (simp add: flags_ok_def)
next
  case nz: False
  define st1 where "st1 = add_base (wrap_Multiply (map_offset m) bs) st"
  have st1: "input_byte_strides st1 = input_byte_strides st" "index_arrays st1 = index_arrays st"
    by (simp_all add: st1_def add_base_def)
  show ?thesis
  proof (cases "map_method m")
    case (Method_single_input_dimension e)
    then have "iterate_single origin shape b bs e (map_offset m) (map_stride m) (st1, flags) = Inr (st', flags')"
      using r nz by (simp add: iterate_output_dim_def st1_def)
    then have upd: "input_byte_strides st' = (input_byte_strides st)[e := input_byte_strides st' ! e]"
      "index_arrays st' = index_arrays st" "flags' = flags[e := (flags ! e)\<lparr>strided_flag := True\<rparr>]"
      using fits Method_single_input_dimension
      by (auto simp: iterate_single_def bind_result_Inr_iff st1 add_base_def state_fits_def map_fits_def
          split: if_splits)
    have "R e" using R [of e] nz fits(2) Method_single_input_dimension by (simp add: dim_used_def map_fits_def)
    have ibs: "input_byte_strides st' ! d = input_byte_strides st ! d" if "d \<noteq> e" for d
      using that upd(1) by (metis nth_list_update_neq)
    have fl: "flags' ! d = (if d = e then (flags ! e)\<lparr>strided_flag := True\<rparr> else flags ! d)" if "d < n" for d
      using that fits(1) by (simp add: upd(3) state_fits_def)
    show ?thesis
      using f \<open>R e\<close> unfolding flags_ok_def by (auto simp: fl ibs upd(2))
  next
    case (Method_array a)
    then have ia: "iterate_array origin shape b bs a (map_offset m) (map_stride m) (st1, flags) = Inr (st', flags')"
      using r nz by (simp add: iterate_output_dim_def st1_def)
    have Ra: "R d" if "d < n" "byte_strides a ! d \<noteq> 0" for d
      using R [of d] nz that Method_array by (simp add: dim_used_def)
    show ?thesis
    proof (cases "\<forall>d \<in> set [0..<length shape]. \<not> varying_dim shape a d")
      case True
      then have "flags' = flags" "input_byte_strides st' = input_byte_strides st" "index_arrays st' = index_arrays st"
        using ia by (auto simp: iterate_array_def Let_def bind_result_Inr_iff st1 add_base_def)
      then show ?thesis using f by (simp add: flags_ok_def)
    next
      case False
      then have "input_byte_strides st' = input_byte_strides st"
        "\<exists>i. index_arrays st' = index_arrays st @ [i] \<and> ia_byte_strides i = byte_strides a"
        "flags' = map (\<lambda>d. if varying_dim shape a d then (flags ! d)\<lparr>array_indexed_flag := True\<rparr>
                    else flags ! d) [0..<length shape]"
        using ia by (auto simp: iterate_array_def Let_def bind_result_Inr_iff st1 split: if_splits)
      then show ?thesis
        using f Ra fits(3) by (auto simp: flags_ok_def varying_dim_def) blast+
    qed
  qed (use nz in simp)
qed

lemma iterate_loop_flags:
  assumes "iterate_loop origin shape os sf = Inr sf'" "state_fits n sf"
    and "\<forall>(b, bs, m) \<in> set os. map_fits n m" "length shape = n"
    and "\<And>b bs m d. (b, bs, m) \<in> set os \<Longrightarrow> bs \<noteq> 0 \<Longrightarrow> d < n \<Longrightarrow> dim_used m d \<Longrightarrow> R d"
    and "flags_ok n shape R sf"
  shows "flags_ok n shape R sf' \<and> state_fits n sf'"
  using assms
proof (induction os arbitrary: sf)
  case (Cons o' os)
  obtain b bs m where o': "o' = (b, bs, m)" by (cases o')
  obtain sf1 where s1: "iterate_output_dim origin shape (b, bs, m) sf = Inr sf1"
    and rest: "iterate_loop origin shape os sf1 = Inr sf'"
    using Cons.prems(1) by (auto simp: o' bind_result_Inr_iff)
  have f1: "state_fits n sf1"
    using iterate_output_dim_fits [OF s1 Cons.prems(2)] Cons.prems(3,4) by (simp add: o')
  have "flags_ok n shape R sf1"
  proof -
    obtain st flags st1 flags1 where "sf = (st, flags)" "sf1 = (st1, flags1)" by (cases sf; cases sf1)
    then show ?thesis
      using iterate_output_dim_flags [of origin shape b bs m st flags st1 flags1 n R] s1 Cons.prems
      by (auto simp: o')
  qed
  then show ?case
    using Cons.IH [OF rest f1] Cons.prems by auto
qed simp

section \<open>The copied region\<close>

lemma length_fold_update [simp]:
  "length (fold (\<lambda>(d, v) p. p[d := v]) us p) = length p"
  by (induction us arbitrary: p) auto

lemma length_place [simp]: "length (place rank order q) = rank"
  by (simp add: place_def)

lemma fold_update_nth:
  assumes "distinct (map fst us)" "\<forall>(d, v) \<in> set us. d < length p"
  shows "(d, v) \<in> set us \<Longrightarrow> fold (\<lambda>(d, v) p. p[d := v]) us p ! d = v"
    and "d \<notin> fst ` set us \<Longrightarrow> fold (\<lambda>(d, v) p. p[d := v]) us p ! d = p ! d"
proof -
  show other: "fold (\<lambda>(d, v) p. p[d := v]) us p ! d = p ! d" if "d \<notin> fst ` set us" for us p d
    using that by (induction us arbitrary: p) (auto split: prod.splits)
  show "(d, v) \<in> set us \<Longrightarrow> fold (\<lambda>(d, v) p. p[d := v]) us p ! d = v"
    using assms
  proof (induction us arbitrary: p)
    case (Cons u us)
    obtain e w where u: "u = (e, w)" by (cases u)
    show ?case
    proof (cases "(d, v) \<in> set us")
      case True
      then show ?thesis using Cons u by auto
    next
      case False
      then have "d = e" "v = w" using Cons.prems(1) u by auto
      then show ?thesis using other [of e us "p[e := w]"] Cons.prems(2,3) u by auto
    qed
  qed simp
qed

lemma place_nth:
  assumes "distinct order" "\<forall>d \<in> set order. d < rank" "length q = length order"
  shows "k < length order \<Longrightarrow> place rank order q ! (order ! k) = q ! k"
    and "d < rank \<Longrightarrow> d \<notin> set order \<Longrightarrow> place rank order q ! d = 0"
proof -
  have d: "distinct (map fst (zip order q))" "\<forall>(d, v) \<in> set (zip order q). d < length (replicate rank (0 :: int))"
    using assms by (auto simp: set_zip)
  show "place rank order q ! (order ! k) = q ! k" if "k < length order"
    unfolding place_def using that assms(3) fold_update_nth(1) [OF d, of "order ! k" "q ! k"]
    by (auto simp: set_zip)
  show "place rank order q ! d = 0" if "d < rank" "d \<notin> set order"
  proof -
    have "d \<notin> fst ` set (zip order q)" using that(2) by (auto simp: set_zip)
    then show ?thesis
      unfolding place_def using fold_update_nth(2) [OF d] that(1) by simp
  qed
qed

lemma dot_place:
  fixes p s :: "int list"
  assumes "distinct order" "\<forall>d \<in> set order. d < rank" "length s = length order" "length p = rank"
  shows "sum_list (map2 (*) p (place rank order s)) = sum_list (map2 (*) (map ((!) p) order) s)"
  using assms
proof (induction order arbitrary: s rule: rev_induct)
  case Nil
  show ?case using Nil dot_zero [of p "replicate rank 0"] by (simp add: place_def)
next
  case (snoc e order)
  obtain s' v where s: "s = s' @ [v]" using snoc.prems(3) by (cases s rule: rev_cases) auto
  have len: "length s' = length order" using snoc.prems(3) s by simp
  have pl: "place rank (order @ [e]) s = (place rank order s')[e := v]"
    by (simp add: place_def s len)
  have zero: "place rank order s' ! e = 0"
    using place_nth(2) [of order rank s' e] snoc.prems len by simp
  have "sum_list (map2 (*) p (place rank (order @ [e]) s)) =
      sum_list (map2 (*) p (place rank order s')) + p ! e * v"
    unfolding pl using dot_update [of p "place rank order s'" e v] snoc.prems zero by simp
  also have "\<dots> = sum_list (map2 (*) (map ((!) p) (order @ [e])) s)"
    using snoc.IH [of s'] snoc.prems len by (simp add: s)
  finally show ?case .
qed

lemma fold_writes:
  assumes "q \<in> set qs" "\<And>r. r \<in> set qs \<Longrightarrow> f r = f q \<Longrightarrow> g r = g q"
  shows "fold (\<lambda>q mem. mem(f q := g q)) qs m (f q) = g q"
  using assms
proof (induction qs arbitrary: m rule: rev_induct)
  case (snoc r qs)
  show ?case
  proof (cases "f r = f q")
    case True
    then show ?thesis using snoc.prems(2) [of r] by (simp del: fun_upd_apply add: fun_upd_same)
  next
    case False
    have "q \<in> set qs" using snoc.prems(1) False by (metis UnE empty_iff empty_set list.set_intros(1) set_ConsD set_append)
    then have "fold (\<lambda>q mem. mem(f q := g q)) qs m (f q) = g q"
    proof (rule snoc.IH)
      show "g r' = g q" if "r' \<in> set qs" "f r' = f q" for r'
        by (rule snoc.prems(2)) (use that in simp_all)
    qed
    then show ?thesis using False by (simp del: fun_upd_apply add: fun_upd_other)
  qed
qed simp

lemma index_positions_ComputeStrides_inj:
  assumes "in_shape shape q" "in_shape shape r" "0 < e" "e * prod_list shape \<le> index_max"
    and "InnerProduct q (ComputeStrides order e shape) = InnerProduct r (ComputeStrides order e shape)"
  shows "q = r"
proof -
  have "linear_position order shape q = linear_position order shape r"
    using assms ComputeStrides_InnerProduct(1) [OF assms(1,3,4), of order]
      ComputeStrides_InnerProduct(1) [OF assms(2-4), of order] by simp
  then show ?thesis by (rule linear_position_inj [OF assms(1,2)])
qed

lemma copy_region_at:
  assumes "in_shape new_shape q" "index_bytes * prod_list new_shape \<le> index_max"
  shows "copy_region arr st rank order new_shape (ComputeStrides c_order index_bytes new_shape)
           (InnerProduct q (ComputeStrides c_order index_bytes new_shape)) =
         av_pointer arr (element_offset st (place rank order q))"
  unfolding copy_region_def
proof (rule fold_writes)
  show "q \<in> set (index_positions new_shape)" using assms(1) by (simp add: index_positions_iff)
next
  fix r
  assume "r \<in> set (index_positions new_shape)"
    and eq: "InnerProduct r (ComputeStrides c_order index_bytes new_shape) =
      InnerProduct q (ComputeStrides c_order index_bytes new_shape)"
  then have "r = q"
    using index_positions_ComputeStrides_inj [OF _ assms(1) _ assms(2) eq]
    by (simp add: index_positions_iff index_bytes_def)
  then show "av_pointer arr (element_offset st (place rank order r)) =
      av_pointer arr (element_offset st (place rank order q))" by simp
qed

section \<open>A transformed sub-region reads the array through the transform\<close>

text \<open>
  The dimensions of the input space that the transformed array depends on, by way of an output
  dimension along which the array itself varies.
\<close>

definition region_dim :: "array_view \<Rightarrow> transform_rep \<Rightarrow> nat \<Rightarrow> bool" where
  "region_dim arr t d \<longleftrightarrow>
     (\<exists>k < output_rank t. av_byte_strides arr ! k \<noteq> 0 \<and> dim_used (output_index_maps t ! k) d)"

definition view_fits :: "array_view \<Rightarrow> transform_rep \<Rightarrow> bool" where
  "view_fits arr t \<longleftrightarrow>
     length (av_domain arr) = output_rank t \<and> length (av_byte_strides arr) = output_rank t \<and>
     (\<forall>m \<in> set (output_index_maps t). map_fits (input_rank t) m)"

definition output_values :: "transform_rep \<Rightarrow> int list \<Rightarrow> int list" where
  "output_values t x = map (\<lambda>m. wrap_index (map_value m x)) (output_index_maps t)"

lemma output_dot:
  assumes "view_fits arr t"
  shows "weq (sum_list (map (\<lambda>(b, bs, m). bs * map_value m x)
           (zip (av_domain arr) (zip (av_byte_strides arr) (output_index_maps t)))))
         (InnerProduct (output_values t x) (av_byte_strides arr))"
proof -
  have "length ds = length ms \<Longrightarrow> length bs = length ms \<Longrightarrow>
    weq (sum_list (map (\<lambda>(b, bs, m). bs * map_value m x) (zip ds (zip bs ms))))
        (sum_list (map2 (*) (map (\<lambda>m. wrap_index (map_value m x)) ms) bs))"
    for ds :: "index_interval list" and bs ms
  proof (induction ms arbitrary: ds bs)
    case (Cons m ms)
    obtain d ds' b bs' where ds: "ds = d # ds'" "bs = b # bs'"
      using Cons.prems by (cases ds; cases bs) auto
    have "weq (b * map_value m x) (wrap_index (map_value m x) * b)"
      using weq_mult [OF weq_refl weq_sym [OF weq_wrap], of b "map_value m x"] by (simp add: mult.commute)
    then show ?case
      using Cons.IH [of ds' bs'] Cons.prems by (auto simp: ds intro!: weq_add)
  qed simp
  then show ?thesis
    using assms by (simp add: InnerProduct_eq output_values_def view_fits_def output_rank_def)
qed

lemma initial_state_ok:
  "state_fits n (\<lparr>base_pointer = 0, input_byte_strides = replicate n 0, index_arrays = []\<rparr>, initial_flags n)"
  "flags_ok n shape R (\<lparr>base_pointer = 0, input_byte_strides = replicate n 0, index_arrays = []\<rparr>, initial_flags n)"
  "length p = n \<Longrightarrow> raw_offset \<lparr>base_pointer = 0, input_byte_strides = replicate n 0, index_arrays = []\<rparr> p = 0"
  using dot_zero [of p "replicate n 0"]
  by (simp_all add: state_fits_def flags_ok_def initial_flags_def raw_offset_def)

lemma InitializeSingleArrayIterationState_correct:
  assumes r: "InitializeSingleArrayIterationState arr (Some t) origin shape (initial_flags n) = Inr (st, flags)"
    and v: "view_fits arr t" and n: "input_rank t = n" "length origin = n" "length shape = n"
  shows "state_fits n (st, flags)" and "flags_ok n shape (region_dim arr t) (st, flags)"
    and "\<lbrakk>length p = n; \<And>d. d < n \<Longrightarrow> region_dim arr t d \<Longrightarrow> 0 \<le> p ! d \<and> p ! d < shape ! d\<rbrakk> \<Longrightarrow>
         element_offset st p = InnerProduct (output_values t (map2 (+) origin p)) (av_byte_strides arr)"
proof -
  define os where "os = zip (av_domain arr) (zip (av_byte_strides arr) (output_index_maps t))"
  have loop: "iterate_loop origin shape os
      (\<lparr>base_pointer = 0, input_byte_strides = replicate n 0, index_arrays = []\<rparr>, initial_flags n) = Inr (st, flags)"
    using r n(1) by (simp add: InitializeSingleArrayIterationState_def os_def)
  have os: "\<forall>(b, bs, m) \<in> set os. map_fits n m"
    using v n(1) by (auto simp: os_def view_fits_def set_zip)
  have R: "region_dim arr t d" if "(b, bs, m) \<in> set os" "bs \<noteq> 0" "dim_used m d" for b bs m d
    using that v by (auto simp: os_def set_zip region_dim_def output_rank_def)
  show "state_fits n (st, flags)" "flags_ok n shape (region_dim arr t) (st, flags)"
    using iterate_loop_flags [OF loop initial_state_ok(1) os n(3) _ initial_state_ok(2)] R by blast+
  show "element_offset st p = InnerProduct (output_values t (map2 (+) origin p)) (av_byte_strides arr)"
    if p: "length p = n" "\<And>d. d < n \<Longrightarrow> region_dim arr t d \<Longrightarrow> 0 \<le> p ! d \<and> p ! d < shape ! d"
  proof -
    have "weq (raw_offset st p) (sum_list (map (\<lambda>(b, bs, m). bs * map_value m (map2 (+) origin p)) os))"
      using iterate_loop_offset [OF loop initial_state_ok(1) os p(1) n(2,3)] p R
      by (simp add: initial_state_ok(3))
    then have "weq (raw_offset st p) (InnerProduct (output_values t (map2 (+) origin p)) (av_byte_strides arr))"
      using output_dot [OF v] weq_trans unfolding os_def by blast
    then show ?thesis
      unfolding element_offset_eq using wrap_index_eq_weq InnerProduct_eq by (metis wrap_index_mod(3))
  qed
qed

lemma raw_offset_cong:
  assumes f: "state_fits n (st, flags)" and len: "length p = n" "length q = n"
    and z: "\<And>d. d < n \<Longrightarrow> p ! d \<noteq> q ! d \<Longrightarrow>
      input_byte_strides st ! d = 0 \<and> (\<forall>ia \<in> set (index_arrays st). ia_byte_strides ia ! d = 0)"
  shows "raw_offset st p = raw_offset st q"
proof -
  have dot: "sum_list (map2 (*) p s) = sum_list (map2 (*) q s)"
    if "length s = n" "\<And>d. d < n \<Longrightarrow> p ! d \<noteq> q ! d \<Longrightarrow> s ! d = 0" for s
  proof -
    have "map2 (*) p s = map2 (*) q s"
      using that len by (intro nth_equalityI) auto
    then show ?thesis by simp
  qed
  have ia: "InnerProduct p (ia_byte_strides ia) = InnerProduct q (ia_byte_strides ia)"
    if "ia \<in> set (index_arrays st)" for ia
    unfolding InnerProduct_eq using dot [of "ia_byte_strides ia"] that f z by (simp add: state_fits_def)
  have ibs: "sum_list (map2 (*) p (input_byte_strides st)) = sum_list (map2 (*) q (input_byte_strides st))"
    using dot [of "input_byte_strides st"] f z by (simp add: state_fits_def)
  show ?thesis unfolding raw_offset_def ibs by (simp add: ia cong: map_cong)
qed

lemma iteration_order_props:
  fixes st flags shape
  defines "order \<equiv> ComputeDimensionIterationOrder st (MarkSingletonDimsAsSkippable shape flags)"
  shows "distinct order" and "d \<in> set order \<longleftrightarrow>
    d < length shape \<and> shape ! d \<noteq> 1 \<and> (strided_flag (flags ! d) \<or> array_indexed_flag (flags ! d))"
proof -
  show "distinct order"
    by (auto simp: order_def ComputeDimensionIterationOrder_def)
  show "d \<in> set order \<longleftrightarrow>
    d < length shape \<and> shape ! d \<noteq> 1 \<and> (strided_flag (flags ! d) \<or> array_indexed_flag (flags ! d))"
    by (auto simp: order_def ComputeDimensionIterationOrder_def MarkSingletonDimsAsSkippable_def
        split: if_splits)
qed

lemma AllocateAndConstruct_Inr:
  assumes "AllocateAndConstruct (ProductOfExtents shape) = Inr u" "\<forall>s \<in> set shape. 0 < s"
  shows "index_bytes * prod_list shape \<le> index_max"
proof -
  have nz: "0 \<notin> set shape" using assms(2) by auto
  have p: "ProductOfExtents shape = min index_max (prod_list shape)"
    using ProductOfExtents_eq [of shape] assms(2) nz by (simp add: less_imp_le)
  have "in_int64 (index_bytes * ProductOfExtents shape)"
    using assms(1) by (auto simp: AllocateAndConstruct_def MulOverflow_def Let_def split: if_splits)
  then show ?thesis by (auto simp: p index_bytes_def index_consts min_def split: if_splits)
qed

lemma TransformArraySubRegion_correct:
  assumes r: "TransformArraySubRegion arr (Some t) origin shape = Inr (Some ptr, strides)"
    and v: "view_fits arr t" and n: "input_rank t = n" "length origin = n" "length shape = n"
    and sh: "\<forall>s \<in> set shape. 0 \<le> s"
    and p: "length p = n" "\<And>d. d < n \<Longrightarrow> region_dim arr t d \<Longrightarrow> 0 \<le> p ! d \<and> p ! d < shape ! d"
  shows "ptr (InnerProduct p strides) =
           av_pointer arr (InnerProduct (output_values t (map2 (+) origin p)) (av_byte_strides arr))"
    and "length strides = n" and "\<And>d. d < n \<Longrightarrow> strides ! d \<noteq> 0 \<Longrightarrow> region_dim arr t d"
proof -
  have nz: "\<forall>s \<in> set shape. 0 < s"
    using r sh by (auto simp: TransformArraySubRegion_def Let_def order.strict_iff_order split: if_splits)
  then have nz': "\<not> (\<exists>s \<in> set shape. s = 0)" by auto
  obtain st flags where init: "InitializeSingleArrayIterationState arr (Some t) origin shape (initial_flags n) = Inr (st, flags)"
    using r n(3) nz' by (auto simp: TransformArraySubRegion_def Let_def bind_result_Inr_iff)
  note I = InitializeSingleArrayIterationState_correct [OF init v n]
  note F = I(2) [unfolded flags_ok_def, simplified, rule_format]
  have off: "element_offset st p = InnerProduct (output_values t (map2 (+) origin p)) (av_byte_strides arr)"
    by (rule I(3)) (use p in auto)
  have "ptr (InnerProduct p strides) = av_pointer arr (element_offset st p) \<and> length strides = n \<and>
      (\<forall>d < n. strides ! d \<noteq> 0 \<longrightarrow> region_dim arr t d)"
  proof (cases "index_arrays st = []")
    case True
    then have "ptr = AddByteOffset (av_pointer arr) (base_pointer st)" "strides = input_byte_strides st"
      using r n(3) nz' init by (auto simp: TransformArraySubRegion_def Let_def)
    moreover have "wrap_Add (base_pointer st) (InnerProduct p (input_byte_strides st)) = element_offset st p"
      using True by (simp add: element_offset_def wrap_Add_def)
    ultimately show ?thesis
      using I(1) F by (auto simp: AddByteOffset_def state_fits_def)
  next
    case False
    define order where "order = ComputeDimensionIterationOrder st (MarkSingletonDimsAsSkippable shape flags)"
    define new_shape where "new_shape = map (\<lambda>d. shape ! d) order"
    define ns where "ns = ComputeStrides c_order index_bytes new_shape"
    have alloc: "AllocateAndConstruct (ProductOfExtents new_shape) = Inr ()"
      and res: "ptr = copy_region arr st n order new_shape ns" "strides = place n order ns"
      using r n(3) nz' init False
      by (auto simp: TransformArraySubRegion_def Let_def bind_result_Inr_iff order_def new_shape_def ns_def)
    have dist: "distinct order" and mem: "\<And>d. d \<in> set order \<longleftrightarrow>
        d < n \<and> shape ! d \<noteq> 1 \<and> (strided_flag (flags ! d) \<or> array_indexed_flag (flags ! d))"
      using iteration_order_props [where st = st and shape = shape and flags = flags] n(3) by (simp_all add: order_def)
    have lt: "\<forall>d \<in> set order. d < n" by (simp add: mem)
    have bytes: "index_bytes * prod_list new_shape \<le> index_max"
      by (rule AllocateAndConstruct_Inr [OF alloc]) (use nz lt n(3) in \<open>auto simp: new_shape_def\<close>)
    define q where "q = map ((!) p) order"
    have R: "region_dim arr t d" if "d \<in> set order" for d using F that mem by blast
    have q: "in_shape new_shape q"
      unfolding in_shape_iff new_shape_def q_def
      using p R lt by (simp add: list_all2_map1 list_all2_map2 list_all2_same)
    have dot: "InnerProduct p strides = InnerProduct q ns"
      unfolding res InnerProduct_eq q_def
      by (simp add: dot_place [OF dist lt] p(1) ns_def new_shape_def)
    have same: "place n order q ! d = p ! d" if d: "d \<in> set order" for d
    proof -
      obtain k where "k < length order" "d = order ! k" using d by (metis in_set_conv_nth)
      then show ?thesis using place_nth(1) [OF dist lt, of q k] by (simp add: q_def)
    qed
    have "raw_offset st (place n order q) = raw_offset st p"
    proof (rule raw_offset_cong [OF I(1)])
      fix d
      assume d: "d < n" "place n order q ! d \<noteq> p ! d"
      then have out: "d \<notin> set order" using same by blast
      then have "place n order q ! d = 0" using place_nth(2) [OF dist lt _ d(1)] by (simp add: q_def)
      then have "p ! d \<noteq> 0" using d(2) by simp
      have "\<not> (strided_flag (flags ! d) \<or> array_indexed_flag (flags ! d))"
        using out d(1) mem p(2) [of d] F [OF d(1)] \<open>p ! d \<noteq> 0\<close> by force
      moreover have "shape ! d \<noteq> 1 \<or> \<not> region_dim arr t d"
        using p(2) [OF d(1)] \<open>p ! d \<noteq> 0\<close> by force
      ultimately show "input_byte_strides st ! d = 0 \<and> (\<forall>ia \<in> set (index_arrays st). ia_byte_strides ia ! d = 0)"
        using F [OF d(1)] by blast
    qed (use p(1) in simp_all)
    then have "ptr (InnerProduct p strides) = av_pointer arr (element_offset st p)"
      using copy_region_at [OF q bytes, of arr st n order]
      unfolding dot unfolding res ns_def by (simp add: element_offset_eq)
    moreover have "region_dim arr t d" if "d < n" "strides ! d \<noteq> 0" for d
      using place_nth(2) [OF dist lt, of ns d] that R by (auto simp: res ns_def new_shape_def)
    ultimately show ?thesis by (simp add: res)
  qed
  then show "ptr (InnerProduct p strides) =
           av_pointer arr (InnerProduct (output_values t (map2 (+) origin p)) (av_byte_strides arr))"
    and "length strides = n" and "\<And>d. d < n \<Longrightarrow> strides ! d \<noteq> 0 \<Longrightarrow> region_dim arr t d"
    by (simp_all add: off)
qed

end
