(* ===== verification/Compose_Transforms.thy ===== *)
theory Compose_Transforms
  imports Transform_Array
begin

text \<open>
  Composition of index transforms (\<^verbatim>\<open>index_space/internal/compose_transforms.cc\<close>): from a
  transform "b to c" and a transform "a to b", the transform "a to c". The main results say
  that applying the composition is applying the two transforms in sequence, and that its
  domain is exact.
\<close>

section \<open>Model\<close>

definition IsSingletonIndexArrayMap :: "int list \<Rightarrow> int list \<Rightarrow> bool" where
  "IsSingletonIndexArrayMap shape strides \<longleftrightarrow>
     (\<forall>d < length shape. strides ! d = 0 \<or> shape ! d = 1)"

definition domain_origin :: "oi_interval list \<Rightarrow> int list" where
  "domain_origin ds = map (\<lambda>d. inclusive_min (interval d)) ds"

definition domain_shape :: "oi_interval list \<Rightarrow> int list" where
  "domain_shape ds = map (\<lambda>d. interval_size (interval d)) ds"

definition ois_of :: "transform_rep \<Rightarrow> oi_interval list" where
  "ois_of t = map optionally_implicit_interval (input_dims t)"

text \<open>The case of an index array reached through a single input dimension of "b to c".\<close>

definition compose_single_array ::
  "oi_interval \<Rightarrow> transform_rep \<Rightarrow> oi_interval list \<Rightarrow> bool \<Rightarrow> output_index_map \<Rightarrow>
     index_array_data \<Rightarrow> int \<Rightarrow> int \<Rightarrow> output_index_map result" where
  "compose_single_array b_dim a_to_b a_dims a_empty ab_map a new_offset new_stride =
     (if a_empty then Inr (constant_map 0)
      else bind_result
        (GetAffineTransformDomain (effective_interval b_dim) (map_offset ab_map) (map_stride ab_map))
        (\<lambda>propagated_bounds.
           let range = Intersect (index_range a) propagated_bounds
           in if IsSingletonIndexArrayMap (domain_shape a_dims) (byte_strides a) then
                bind_result
                  (ReplaceZeroRankIndexArrayIndexMap
                     (element_pointer a (InnerProduct (domain_origin (ois_of a_to_b)) (byte_strides a)))
                     range new_offset new_stride)
                  (\<lambda>(off, str). Inr \<lparr>map_method = Method_constant, map_offset = off, map_stride = str\<rparr>)
              else Inr \<lparr>map_method = Method_array (a\<lparr>index_range := range\<rparr>),
                        map_offset = new_offset, map_stride = new_stride\<rparr>))"

definition compose_single ::
  "transform_rep \<Rightarrow> transform_rep \<Rightarrow> oi_interval list \<Rightarrow> bool \<Rightarrow> output_index_map \<Rightarrow> nat \<Rightarrow>
     output_index_map result" where
  "compose_single b_to_c a_to_b a_dims a_empty bc_map b_dim =
     (let ab_map = output_index_maps a_to_b ! b_dim;
          (mul_overflow, new_output_offset) = MulOverflow (map_offset ab_map) (map_stride bc_map);
          (add_overflow, new_offset) = AddOverflow (map_offset bc_map) new_output_offset
      in if mul_overflow \<or> add_overflow then Inl InvalidArgument
         else
           let new_constant = Inr \<lparr>map_method = Method_constant, map_offset = new_offset, map_stride = 0\<rparr>;
               (stride_overflow, new_stride) = MulOverflow (map_stride ab_map) (map_stride bc_map)
           in if map_stride ab_map = 0 then new_constant
              else case map_method ab_map of
                Method_constant \<Rightarrow> new_constant
              | Method_single_input_dimension a_dim \<Rightarrow>
                  (if stride_overflow then Inl InvalidArgument
                   else Inr \<lparr>map_method = Method_single_input_dimension a_dim,
                             map_offset = new_offset, map_stride = new_stride\<rparr>)
              | Method_array a \<Rightarrow>
                  (if stride_overflow then Inl InvalidArgument
                   else compose_single_array (optionally_implicit_domain b_to_c b_dim)
                          a_to_b a_dims a_empty ab_map a new_offset new_stride))"

text \<open>
  The case of an index array of "b to c". \<open>NullDereference\<close> is the read through the null
  pointer that \<^verbatim>\<open>TransformArraySubRegion\<close> returns when a dimension of the new domain has
  size zero.
\<close>

definition compose_array ::
  "transform_rep \<Rightarrow> transform_rep \<Rightarrow> oi_interval list \<Rightarrow> bool \<Rightarrow> output_index_map \<Rightarrow>
     index_array_data \<Rightarrow> output_index_map result" where
  "compose_array b_to_c a_to_b a_dims a_empty bc_map a =
     (if a_empty then Inr (constant_map 0)
      else bind_result
        (TransformArraySubRegion
           \<lparr>av_pointer = element_pointer a, av_domain = map interval (ois_of b_to_c),
            av_byte_strides = byte_strides a\<rparr>
           (Some a_to_b) (domain_origin a_dims) (domain_shape a_dims))
        (\<lambda>(new_pointer, new_strides).
           case new_pointer of
             None \<Rightarrow> Inl NullDereference
           | Some ptr \<Rightarrow>
               (if IsSingletonIndexArrayMap (domain_shape a_dims) new_strides then
                  bind_result
                    (ReplaceZeroRankIndexArrayIndexMap (ptr 0) (index_range a)
                       (map_offset bc_map) (map_stride bc_map))
                    (\<lambda>(off, str). Inr \<lparr>map_method = Method_constant, map_offset = off, map_stride = str\<rparr>)
                else Inr \<lparr>map_method = Method_array
                       \<lparr>element_pointer = AddByteOffset ptr (- InnerProduct new_strides (domain_origin a_dims)),
                        index_range = index_range a, byte_strides = new_strides\<rparr>,
                     map_offset = map_offset bc_map, map_stride = map_stride bc_map\<rparr>)))"

definition compose_map ::
  "transform_rep \<Rightarrow> transform_rep \<Rightarrow> oi_interval list \<Rightarrow> bool \<Rightarrow> output_index_map \<Rightarrow>
     output_index_map result" where
  "compose_map b_to_c a_to_b a_dims a_empty bc_map =
     (if map_stride bc_map = 0 then Inr (constant_map (map_offset bc_map))
      else case map_method bc_map of
        Method_constant \<Rightarrow> Inr (constant_map (map_offset bc_map))
      | Method_single_input_dimension b_dim \<Rightarrow>
          compose_single b_to_c a_to_b a_dims a_empty bc_map b_dim
      | Method_array a \<Rightarrow> compose_array b_to_c a_to_b a_dims a_empty bc_map a)"

definition ComposeTransformsImpl ::
  "transform_rep \<Rightarrow> transform_rep \<Rightarrow> bool \<Rightarrow> transform_rep result" where
  "ComposeTransformsImpl b_to_c a_to_b domain_only =
     bind_result (PropagateBounds_implicit (ois_of b_to_c) (Some a_to_b)) (\<lambda>a_dims.
       let a_to_c = (set_domains a_to_b a_dims)\<lparr>output_index_maps := []\<rparr>
       in if domain_only then Inr a_to_c
          else bind_result
            (map_result (compose_map b_to_c a_to_b a_dims (IsDomainExplicitlyEmpty a_to_c))
               (output_index_maps b_to_c))
            (\<lambda>maps. Inr (a_to_c\<lparr>output_index_maps := maps\<rparr>)))"

definition ComposeTransforms ::
  "transform_rep \<Rightarrow> transform_rep \<Rightarrow> bool \<Rightarrow> transform_rep result" where
  "ComposeTransforms b_to_c a_to_b domain_only =
     (if output_rank a_to_b = input_rank b_to_c then ComposeTransformsImpl b_to_c a_to_b domain_only
      else Inl InvalidArgument)"

section \<open>The value of an output index map\<close>

definition map_in_range :: "output_index_map \<Rightarrow> int list \<Rightarrow> bool" where
  "map_in_range m x \<longleftrightarrow>
     (case map_method m of
        Method_array a \<Rightarrow> Contains_index (index_range a) (base_value m x)
      | _ \<Rightarrow> True)"

lemma apply_map_eq:
  "apply_map m x = (if map_in_range m x then Inr (wrap_index (map_value m x)) else Inl OutOfRange)"
  by (auto simp: apply_map_def map_in_range_def base_value_def map_value_def CheckContains_def Let_def
      wrap_Add_def wrap_Multiply_def split: output_index_method.splits)

text \<open>No signed overflow occurs when the transform is evaluated at \<open>x\<close>.\<close>

definition exact_at :: "transform_rep \<Rightarrow> int list \<Rightarrow> bool" where
  "exact_at t x \<longleftrightarrow> (\<forall>m \<in> set (output_index_maps t). in_int64 (map_value m x))"

lemma TransformIndices_exact:
  assumes "length x = input_rank t" "exact_at t x"
  shows "TransformIndices t x = Inr y \<longleftrightarrow>
    in_domain t x \<and> y = map (\<lambda>m. map_value m x) (output_index_maps t) \<and>
    (\<forall>m \<in> set (output_index_maps t). map_in_range m x)"
proof -
  have "(length y = output_rank t \<and> (\<forall>i < output_rank t. apply_map (output_index_maps t ! i) x = Inr (y ! i)))
      \<longleftrightarrow> y = map (\<lambda>m. map_value m x) (output_index_maps t) \<and>
          (\<forall>m \<in> set (output_index_maps t). map_in_range m x)"
    (is "?l \<longleftrightarrow> ?r")
  proof
    assume l: ?l
    then have "y ! i = map_value (output_index_maps t ! i) x \<and> map_in_range (output_index_maps t ! i) x"
      if "i < output_rank t" for i
      using that assms(2)
      by (auto simp: apply_map_eq exact_at_def output_rank_def split: if_splits)
    then show ?r using l by (auto simp: output_rank_def in_set_conv_nth intro!: nth_equalityI)
  next
    assume ?r
    then show ?l using assms(2) by (auto simp: apply_map_eq exact_at_def output_rank_def)
  qed
  then show ?thesis using TransformIndices_Inr_iff [OF assms(1), of y] by blast
qed

lemma weq_affine:
  "weq (v * s1 + o1) y \<Longrightarrow> weq (v * (s1 * s2) + (o1 * s2 + o2)) (y * s2 + o2)"
  using weq_add [OF weq_mult [OF _ weq_refl, of _ y s2] weq_refl, of "v * s1 + o1" o2]
  by (simp add: algebra_simps)

lemma ReplaceZeroRankIndexArrayIndexMap_Inr:
  "ReplaceZeroRankIndexArrayIndexMap index bounds off str = Inr (off', str') \<longleftrightarrow>
     Contains_index bounds index \<and> in_int64 (index * str) \<and> in_int64 (index * str + off) \<and>
     off' = index * str + off \<and> str' = 0"
  by (auto simp: ReplaceZeroRankIndexArrayIndexMap_def CheckContains_def MulOverflow_def AddOverflow_def
      wrap_Multiply_def wrap_Add_def bind_result_Inr_iff)

section \<open>The composed maps compute the composition\<close>

text \<open>
  The situation in which a composed map is evaluated: both transforms satisfy the invariant,
  \<open>x\<close> is in the domain of "a to b", \<open>y\<close> is its image and in the domain of "b to c", and \<open>x\<close> is
  in the propagated domain.
\<close>

definition compose_setting ::
  "transform_rep \<Rightarrow> transform_rep \<Rightarrow> oi_interval list \<Rightarrow> int list \<Rightarrow> int list \<Rightarrow> bool" where
  "compose_setting b_to_c a_to_b a_dims x y \<longleftrightarrow>
     DebugCheckInvariants b_to_c \<and> DebugCheckInvariants a_to_b \<and>
     output_rank a_to_b = input_rank b_to_c \<and>
     PropagateBounds_implicit (ois_of b_to_c) (Some a_to_b) = Inr a_dims \<and>
     length x = input_rank a_to_b \<and> exact_at a_to_b x \<and>
     TransformIndices a_to_b x = Inr y \<and> in_domain b_to_c y \<and>
     (\<forall>d < input_rank a_to_b. Contains_index (effective_interval (a_dims ! d)) (x ! d))"

lemma invariant_validD:
  assumes "DebugCheckInvariants t" "d < input_rank t"
  shows "valid_interval (interval (optionally_implicit_domain t d))"
  using assms by (auto simp: DebugCheckInvariants_def Let_def optionally_implicit_domain_def
      input_rank_def valid_interval_def)

lemma invariant_mapD:
  assumes "DebugCheckInvariants t" "k < output_rank t"
  shows "map_invariant t (output_index_maps t ! k)"
  using assms by (auto simp: DebugCheckInvariants_def output_rank_def)

lemma setting_y:
  assumes "compose_setting b_to_c a_to_b a_dims x y" "k < output_rank a_to_b"
  shows "y ! k = map_value (output_index_maps a_to_b ! k) x"
    and "map_in_range (output_index_maps a_to_b ! k) x"
    and "Contains_index (effective_interval (optionally_implicit_domain b_to_c k)) (y ! k)"
proof -
  have "TransformIndices a_to_b x = Inr y" "length x = input_rank a_to_b" "exact_at a_to_b x"
    using assms(1) by (auto simp: compose_setting_def)
  then have y: "y = map (\<lambda>m. map_value m x) (output_index_maps a_to_b)"
    and r: "\<forall>m \<in> set (output_index_maps a_to_b). map_in_range m x"
    using TransformIndices_exact by blast+
  show "y ! k = map_value (output_index_maps a_to_b ! k) x" "map_in_range (output_index_maps a_to_b ! k) x"
    using y r assms(2) by (auto simp: output_rank_def)
  show "Contains_index (effective_interval (optionally_implicit_domain b_to_c k)) (y ! k)"
    using assms by (auto simp: compose_setting_def in_domain_def)
qed

lemma b_maps_mem:
  assumes "k < output_rank a_to_b" "output_rank a_to_b = input_rank b_to_c"
  shows "(optionally_implicit_domain b_to_c k, output_index_maps a_to_b ! k)
           \<in> set (b_maps (ois_of b_to_c) a_to_b)"
  using assms unfolding set_zip
  by (auto simp: ois_of_def optionally_implicit_domain_def input_rank_def output_rank_def intro!: exI [of _ k])

lemma b_maps_memE:
  assumes "(b, m) \<in> set (b_maps (ois_of b_to_c) a_to_b)" "output_rank a_to_b = input_rank b_to_c"
  obtains k where "k < output_rank a_to_b" "b = optionally_implicit_domain b_to_c k" "m = output_index_maps a_to_b ! k"
  using assms by (auto simp: set_zip ois_of_def optionally_implicit_domain_def input_rank_def output_rank_def)

lemma setting_flags:
  assumes "compose_setting b_to_c a_to_b a_dims x y" "d < input_rank a_to_b"
  shows "length a_dims = input_rank a_to_b"
    and "implicit_lower (a_dims ! d) \<Longrightarrow> implicit_lower (optionally_implicit_domain a_to_b d)"
    and "implicit_upper (a_dims ! d) \<Longrightarrow> implicit_upper (optionally_implicit_domain a_to_b d)"
    and "\<lbrakk>k < output_rank a_to_b; map_uses (output_index_maps a_to_b ! k) d;
          \<not> implicit_dimension (optionally_implicit_domain b_to_c k)\<rbrakk> \<Longrightarrow> \<not> implicit_dimension (a_dims ! d)"
proof -
  have P: "PropagateBounds_implicit (ois_of b_to_c) (Some a_to_b) = Inr a_dims"
    and rk: "output_rank a_to_b = input_rank b_to_c"
    using assms(1) by (auto simp: compose_setting_def)
  obtain st where len: "length a_dims = input_rank a_to_b"
    and lo: "implicit_lower (a_dims ! d) \<longleftrightarrow> implicit_lower (optionally_implicit_domain a_to_b d) \<and>
        lower_implicit (b_maps (ois_of b_to_c) a_to_b) d"
    and up: "implicit_upper (a_dims ! d) \<longleftrightarrow> implicit_upper (optionally_implicit_domain a_to_b d) \<and>
        upper_implicit (b_maps (ois_of b_to_c) a_to_b) d"
    using PropagateBounds_implicit_nth [OF P assms(2)] by metis
  show "length a_dims = input_rank a_to_b"
    "implicit_lower (a_dims ! d) \<Longrightarrow> implicit_lower (optionally_implicit_domain a_to_b d)"
    "implicit_upper (a_dims ! d) \<Longrightarrow> implicit_upper (optionally_implicit_domain a_to_b d)"
    using len lo up by auto
  show "\<not> implicit_dimension (a_dims ! d)"
    if k: "k < output_rank a_to_b" "map_uses (output_index_maps a_to_b ! k) d"
      "\<not> implicit_dimension (optionally_implicit_domain b_to_c k)"
  proof -
    have "(optionally_implicit_domain b_to_c k, output_index_maps a_to_b ! k) \<in> set (b_maps (ois_of b_to_c) a_to_b)"
      by (rule b_maps_mem [OF k(1) rk])
    then have "\<not> lower_implicit (b_maps (ois_of b_to_c) a_to_b) d" "\<not> upper_implicit (b_maps (ois_of b_to_c) a_to_b) d"
      using k(2,3) by (fastforce simp: lower_implicit_def upper_implicit_def implicit_dimension_def split: if_splits)+
    then show ?thesis using lo up by (simp add: implicit_dimension_def)
  qed
qed

lemma combined_bounds_explicit:
  assumes "valid_interval (interval a)" "\<not> implicit_dimension a"
  shows "combined_bounds a q = interval a"
  using assms
  by (auto simp: combined_bounds_def implicit_dimension_def Let_def valid_interval_iff_closed
      ValidClosed_def intro!: interval_eqI)

lemma propagated_explicit:
  assumes P: "PropagateBounds_implicit b (Some t) = Inr ds" and inv: "DebugCheckInvariants t"
    and d: "d < input_rank t" and e: "\<not> implicit_dimension (optionally_implicit_domain t d)"
  shows "interval (ds ! d) = interval (optionally_implicit_domain t d)" and "\<not> implicit_dimension (ds ! d)"
proof -
  obtain st where "validate_dimension (IsDomainExplicitlyEmpty t)
      (optionally_implicit_domain t d, st ! d) = Inr (interval (ds ! d))"
    and fl: "implicit_lower (ds ! d) \<longrightarrow> implicit_lower (optionally_implicit_domain t d)"
      "implicit_upper (ds ! d) \<longrightarrow> implicit_upper (optionally_implicit_domain t d)"
    using PropagateBounds_implicit_nth [OF P d] by metis
  then show "interval (ds ! d) = interval (optionally_implicit_domain t d)"
    using combined_bounds_explicit [OF invariant_validD [OF inv d] e]
    by (auto simp: validate_dimension_def Let_def split: prod.splits if_splits)
  show "\<not> implicit_dimension (ds ! d)"
    using fl e by (auto simp: implicit_dimension_def)
qed

lemma setting_explicit:
  assumes s: "compose_setting b_to_c a_to_b a_dims x y" and d: "d < input_rank a_to_b"
    and e: "\<not> implicit_dimension (optionally_implicit_domain a_to_b d)"
  shows "interval (a_dims ! d) = interval (optionally_implicit_domain a_to_b d)"
    and "\<not> implicit_dimension (a_dims ! d)"
  using s propagated_explicit [OF _ _ d e] by (auto simp: compose_setting_def)

lemma effective_explicit: "\<not> implicit_dimension oi \<Longrightarrow> effective_interval oi = interval oi"
  by (auto simp: effective_interval_def implicit_dimension_def intro!: interval_eqI)

lemma input_dims_set_domains:
  assumes "length ds = input_rank t"
  shows "map optionally_implicit_interval (input_dims (set_domains t ds)) = ds"
    and "input_rank (set_domains t ds) = input_rank t"
  using assms by (auto simp: set_domains_def input_rank_def intro!: nth_equalityI)

lemma optionally_implicit_domain_set_domains:
  assumes "length ds = input_rank t" "d < input_rank t"
  shows "optionally_implicit_domain (set_domains t ds) d = ds ! d"
  using assms by (simp add: set_domains_def input_rank_def optionally_implicit_domain_def)

lemma in_domain_not_empty:
  assumes "in_domain t x"
  shows "\<not> IsDomainExplicitlyEmpty t"
proof
  assume "IsDomainExplicitlyEmpty t"
  then obtain d where d: "d < input_rank t" "\<not> implicit_dimension (optionally_implicit_domain t d)"
    "interval_size (interval (optionally_implicit_domain t d)) = 0"
    by (auto simp: IsDomainExplicitlyEmpty_def in_set_conv_nth input_rank_def optionally_implicit_domain_def)
  then have "Contains_index (interval (optionally_implicit_domain t d)) (x ! d)"
    using assms effective_explicit [of "optionally_implicit_domain t d"]
    unfolding in_domain_def by metis
  then show False using d(3) by (auto simp: Contains_index_def inclusive_max_def)
qed

lemma setting_nonempty:
  assumes "compose_setting b_to_c a_to_b a_dims x y" "length a_dims = input_rank a_to_b"
  shows "\<not> IsDomainExplicitlyEmpty ((set_domains a_to_b a_dims)\<lparr>output_index_maps := ms\<rparr>)"
    and "in_domain ((set_domains a_to_b a_dims)\<lparr>output_index_maps := ms\<rparr>) x"
proof -
  show dom: "in_domain ((set_domains a_to_b a_dims)\<lparr>output_index_maps := ms\<rparr>) x"
    using assms optionally_implicit_domain_set_domains [OF assms(2)] input_dims_set_domains(2) [OF assms(2)]
    by (simp add: in_domain_def compose_setting_def optionally_implicit_domain_def input_rank_def)
  show "\<not> IsDomainExplicitlyEmpty ((set_domains a_to_b a_dims)\<lparr>output_index_maps := ms\<rparr>)"
    by (rule in_domain_not_empty [OF dom])
qed

lemma Contains_in_bounds: "Contains_index i v \<Longrightarrow> in_bounds i v"
  using interval_indices_in_bounds by (auto simp: interval_indices_def)

lemma propagated_index_range:
  assumes v: "valid_interval i" and c: "Contains_index i (off + s * v')" and r: "Contains_index r v'"
    and d: "GetAffineTransformDomain i off s = Inr d"
  shows "Contains_index (Intersect r d) v'"
proof -
  have ne: "\<not> empty_interval i" using c by (auto simp: Contains_index_def empty_interval_iff)
  have "in_bounds d v'"
    using GetAffineTransformDomain_nonempty [OF v ne d] Contains_in_bounds [OF c] by simp
  moreover have fin: "IsFiniteIndex v'" using r by (simp add: Contains_index_def IsFiniteIndex_def)
  ultimately have "Contains_index d v'" using in_bounds_finite_iff [OF fin, of d] by (simp add: interval_indices_def)
  then show ?thesis using r by (auto simp: Contains_index_def Intersect_def Let_def)
qed

text \<open>
  In a dimension of size one with explicit bounds, the index is the origin; so an index array
  that varies only along such dimensions has one value.
\<close>

lemma Contains_size_one:
  "Contains_index i v \<Longrightarrow> interval_size i = 1 \<Longrightarrow> v = inclusive_min i"
  by (simp add: Contains_index_def inclusive_max_def)

lemma InnerProduct_cong_strides:
  assumes "length x = n" "length z = n" "length s = n" "\<And>d. d < n \<Longrightarrow> s ! d \<noteq> 0 \<Longrightarrow> x ! d = z ! d"
  shows "InnerProduct x s = InnerProduct z s"
proof -
  have "map2 (*) x s = map2 (*) z s" using assms by (intro nth_equalityI) auto
  then show ?thesis by (simp add: InnerProduct_eq)
qed

lemma compose_single_array_correct:
  assumes s: "compose_setting b_to_c a_to_b a_dims x y" and k: "k < output_rank a_to_b"
    and m: "map_method (output_index_maps a_to_b ! k) = Method_array a"
    and r: "compose_single_array (optionally_implicit_domain b_to_c k) a_to_b a_dims False
              (output_index_maps a_to_b ! k) a new_offset new_stride = Inr m'"
    and w: "weq (base_value (output_index_maps a_to_b ! k) x * new_stride + new_offset) v"
  shows "apply_map m' x = Inr (wrap_index v)"
proof -
  let ?ab = "output_index_maps a_to_b ! k" and ?b = "optionally_implicit_domain b_to_c k"
  let ?v = "base_value ?ab x"
  have val: "?v = element_pointer a (InnerProduct x (byte_strides a))" by (simp add: base_value_def m)
  have inv: "DebugCheckInvariants a_to_b" "DebugCheckInvariants b_to_c" "k < input_rank b_to_c"
    and lenx: "length x = input_rank a_to_b"
    and inx: "\<And>d. d < input_rank a_to_b \<Longrightarrow> Contains_index (effective_interval (a_dims ! d)) (x ! d)"
    using s k by (auto simp: compose_setting_def)
  obtain pb where pb: "GetAffineTransformDomain (effective_interval ?b) (map_offset ?ab) (map_stride ?ab) = Inr pb"
    using r by (auto simp: compose_single_array_def bind_result_Inr_iff)
  have "Contains_index (effective_interval ?b) (map_offset ?ab + map_stride ?ab * ?v)"
    using setting_y(1,3) [OF s k] by (simp add: map_value_def algebra_simps)
  moreover have "Contains_index (index_range a) ?v"
    using setting_y(2) [OF s k] by (simp add: map_in_range_def m)
  ultimately have range: "Contains_index (Intersect (index_range a) pb) ?v"
    using propagated_index_range [OF valid_effective_interval [OF invariant_validD [OF inv(2,3)]] _ _ pb] by blast
  show ?thesis
  proof (cases "IsSingletonIndexArrayMap (domain_shape a_dims) (byte_strides a)")
    case True
    have minv: "map_invariant a_to_b ?ab" by (rule invariant_mapD [OF inv(1) k])
    have len: "length (byte_strides a) = input_rank a_to_b" using minv by (simp add: map_invariant_def m)
    have org: "domain_origin (ois_of a_to_b) ! d = x ! d" if d: "d < input_rank a_to_b" "byte_strides a ! d \<noteq> 0" for d
    proof -
      have e: "\<not> implicit_dimension (optionally_implicit_domain a_to_b d)"
        using minv d by (auto simp: map_invariant_def m)
      note E = setting_explicit [OF s d(1) e]
      have "Contains_index (interval (a_dims ! d)) (x ! d)"
        using inx [OF d(1)] effective_explicit [OF E(2)] by simp
      moreover have "interval_size (interval (a_dims ! d)) = 1"
        using True d setting_flags(1) [OF s d(1)] by (auto simp: IsSingletonIndexArrayMap_def domain_shape_def)
      ultimately show ?thesis
        using Contains_size_one E(1) d(1)
        by (simp add: domain_origin_def ois_of_def optionally_implicit_domain_def input_rank_def)
    qed
    have "InnerProduct (domain_origin (ois_of a_to_b)) (byte_strides a) = InnerProduct x (byte_strides a)"
      by (rule InnerProduct_cong_strides [OF _ lenx len org])
        (simp_all add: domain_origin_def ois_of_def input_rank_def)
    then obtain off str where z: "ReplaceZeroRankIndexArrayIndexMap ?v (Intersect (index_range a) pb)
        new_offset new_stride = Inr (off, str)"
      and m': "m' = \<lparr>map_method = Method_constant, map_offset = off, map_stride = str\<rparr>"
      using r True by (auto simp: compose_single_array_def pb val bind_result_Inr_iff Let_def)
    have "off = ?v * new_stride + new_offset" "str = 0"
      using z by (auto simp: ReplaceZeroRankIndexArrayIndexMap_Inr)
    then show ?thesis
      using w by (simp add: m' apply_map_eq map_in_range_def map_value_def base_value_def wrap_index_eq_weq)
  next
    case False
    then have m': "m' = \<lparr>map_method = Method_array (a\<lparr>index_range := Intersect (index_range a) pb\<rparr>),
        map_offset = new_offset, map_stride = new_stride\<rparr>"
      using r by (auto simp: compose_single_array_def pb)
    show ?thesis
      using w range
      by (simp add: m' apply_map_eq map_in_range_def map_value_def base_value_def m wrap_index_eq_weq)
  qed
qed

lemma compose_single_correct:
  assumes s: "compose_setting b_to_c a_to_b a_dims x y" and k: "k < output_rank a_to_b"
    and r: "compose_single b_to_c a_to_b a_dims False bc k = Inr m'"
  shows "apply_map m' x = Inr (wrap_index (y ! k * map_stride bc + map_offset bc))"
proof -
  let ?ab = "output_index_maps a_to_b ! k"
  define no where "no = map_offset ?ab * map_stride bc + map_offset bc"
  define ns where "ns = map_stride ?ab * map_stride bc"
  have y: "y ! k = base_value ?ab x * map_stride ?ab + map_offset ?ab"
    using setting_y(1) [OF s k] by (simp add: map_value_def)
  have w: "weq (base_value ?ab x * ns + no) (y ! k * map_stride bc + map_offset bc)"
    using y by (simp add: ns_def no_def algebra_simps)
  obtain o1 where mo: "MulOverflow (map_offset ?ab) (map_stride bc) = (False, o1)"
    and ao: "AddOverflow (map_offset bc) o1 = (False, snd (AddOverflow (map_offset bc) o1))"
    using r by (auto simp: compose_single_def Let_def split: prod.splits if_splits)
  have "snd (AddOverflow (map_offset bc) o1) = no"
    using mo ao by (simp add: MulOverflow_eq_False AddOverflow_eq_False no_def)
  then have ao': "AddOverflow (map_offset bc) o1 = (False, no)" using ao by simp
  have r': "(let new_constant = Inr \<lparr>map_method = Method_constant, map_offset = no, map_stride = 0\<rparr>;
               (stride_overflow, new_stride) = MulOverflow (map_stride ?ab) (map_stride bc)
           in if map_stride ?ab = 0 then new_constant
              else case map_method ?ab of
                Method_constant \<Rightarrow> new_constant
              | Method_single_input_dimension a_dim \<Rightarrow>
                  (if stride_overflow then Inl InvalidArgument
                   else Inr \<lparr>map_method = Method_single_input_dimension a_dim,
                             map_offset = no, map_stride = new_stride\<rparr>)
              | Method_array a \<Rightarrow>
                  (if stride_overflow then Inl InvalidArgument
                   else compose_single_array (optionally_implicit_domain b_to_c k)
                          a_to_b a_dims False ?ab a no new_stride)) = Inr m'"
    using r by (simp add: compose_single_def mo ao' Let_def)
  show ?thesis
  proof (cases "map_stride ?ab = 0 \<or> map_method ?ab = Method_constant")
    case True
    then have "m' = \<lparr>map_method = Method_constant, map_offset = no, map_stride = 0\<rparr>"
      using r' by (auto simp: Let_def split: prod.splits if_splits)
    moreover have "base_value ?ab x * ns = 0" using True by (auto simp: ns_def base_value_def)
    then have "weq no (y ! k * map_stride bc + map_offset bc)" using w by auto
    ultimately show ?thesis
      by (simp add: apply_map_eq map_in_range_def map_value_def base_value_def wrap_index_eq_weq)
  next
    case nc: False
    show ?thesis
    proof (cases "map_method ?ab")
      case (Method_single_input_dimension d)
      then have "m' = \<lparr>map_method = Method_single_input_dimension d, map_offset = no, map_stride = ns\<rparr>"
        using r' nc by (auto simp: Let_def MulOverflow_def wrap_Multiply_def ns_def split: if_splits)
      then show ?thesis
        using w Method_single_input_dimension
        by (simp add: apply_map_eq map_in_range_def map_value_def base_value_def wrap_index_eq_weq)
    next
      case (Method_array a)
      then have "compose_single_array (optionally_implicit_domain b_to_c k) a_to_b a_dims False ?ab a no ns = Inr m'"
        using r' nc by (auto simp: Let_def MulOverflow_def wrap_Multiply_def ns_def split: if_splits)
      then show ?thesis by (rule compose_single_array_correct [OF s k Method_array _ w])
    qed (use nc in simp)
  qed
qed

lemma map_invariant_fits: "map_invariant t m \<Longrightarrow> map_fits (input_rank t) m"
  by (auto simp: map_invariant_def map_fits_def split: output_index_method.splits)

lemma setting_region:
  assumes s: "compose_setting b_to_c a_to_b a_dims x y" and d: "d < input_rank a_to_b"
    and a: "map_invariant b_to_c bc" "map_method bc = Method_array a"
    and R: "region_dim \<lparr>av_pointer = f, av_domain = ds, av_byte_strides = byte_strides a\<rparr> a_to_b d"
  shows "\<not> implicit_dimension (a_dims ! d)"
proof -
  obtain k where k: "k < output_rank a_to_b" "byte_strides a ! k \<noteq> 0" "dim_used (output_index_maps a_to_b ! k) d"
    using R by (auto simp: region_dim_def)
  have rk: "output_rank a_to_b = input_rank b_to_c" and inv: "DebugCheckInvariants a_to_b"
    using s by (auto simp: compose_setting_def)
  have kx: "\<not> implicit_dimension (optionally_implicit_domain b_to_c k)"
    using a k rk by (auto simp: map_invariant_def)
  show ?thesis
  proof (cases "map_method (output_index_maps a_to_b ! k)")
    case (Method_single_input_dimension e)
    then have "map_uses (output_index_maps a_to_b ! k) d" using k(3) by (auto simp: dim_used_def map_uses_def)
    then show ?thesis using setting_flags(4) [OF s d k(1) _ kx] by blast
  next
    case (Method_array a')
    then have "\<not> implicit_dimension (optionally_implicit_domain a_to_b d)"
      using invariant_mapD [OF inv k(1)] k(3) d by (auto simp: map_invariant_def dim_used_def)
    then show ?thesis by (rule setting_explicit(2) [OF s d])
  qed (use k(3) in \<open>simp add: dim_used_def\<close>)
qed

lemma InnerProduct_commute: "InnerProduct a b = InnerProduct b a"
proof -
  have "map2 (*) a b = map2 (*) b a" by (rule nth_equalityI) (simp_all add: mult.commute)
  then show ?thesis by (simp add: InnerProduct_eq)
qed

lemma combined_bounds_size: "0 \<le> interval_size (combined_bounds a q)"
  by (simp add: combined_bounds_def Let_def UncheckedClosed_def mk_interval_def)

lemma validate_dimension_cases:
  "validate_dimension e (a, i) = Inr r \<Longrightarrow> r = interval a \<or> (\<exists>q. r = combined_bounds a q)"
  by (auto simp: validate_dimension_def Let_def split: prod.splits if_splits)

lemma setting_sizes:
  assumes s: "compose_setting b_to_c a_to_b a_dims x y"
  shows "\<forall>d \<in> set a_dims. 0 \<le> interval_size (interval d)"
proof -
  have P: "PropagateBounds_implicit (ois_of b_to_c) (Some a_to_b) = Inr a_dims"
    and inv: "DebugCheckInvariants a_to_b"
    using s by (auto simp: compose_setting_def)
  have "0 \<le> interval_size (interval (a_dims ! d))" if d: "d < input_rank a_to_b" for d
  proof -
    obtain st where "validate_dimension (IsDomainExplicitlyEmpty a_to_b)
        (optionally_implicit_domain a_to_b d, st ! d) = Inr (interval (a_dims ! d))"
      using PropagateBounds_implicit_nth [OF P d] by metis
    then show ?thesis
      using invariant_validD [OF inv d] combined_bounds_size
      by (auto simp: valid_interval_def ValidSized_def dest!: validate_dimension_cases)
  qed
  then show ?thesis
    using PropagateBounds_implicit_length [OF P] by (auto simp: in_set_conv_nth)
qed

lemma compose_array_correct:
  assumes s: "compose_setting b_to_c a_to_b a_dims x y"
    and a: "map_invariant b_to_c bc" "map_method bc = Method_array a"
    and r: "compose_array b_to_c a_to_b a_dims False bc a = Inr m'"
  shows "apply_map m' x = apply_map bc y"
proof -
  define n where "n = input_rank a_to_b"
  define arr where "arr = \<lparr>av_pointer = element_pointer a, av_domain = map interval (ois_of b_to_c),
      av_byte_strides = byte_strides a\<rparr>"
  define org sh where "org = domain_origin a_dims" and "sh = domain_shape a_dims"
  have rk: "output_rank a_to_b = input_rank b_to_c" and inv: "DebugCheckInvariants a_to_b"
    and lenx: "length x = n" and dims: "length a_dims = n"
    and inx: "\<And>d. d < n \<Longrightarrow> Contains_index (effective_interval (a_dims ! d)) (x ! d)"
    using s PropagateBounds_implicit_length [of "ois_of b_to_c" a_to_b a_dims]
    by (auto simp: compose_setting_def n_def)
  obtain ptr str where tas: "TransformArraySubRegion arr (Some a_to_b) org sh = Inr (Some ptr, str)"
    and m': "(if IsSingletonIndexArrayMap sh str then
                bind_result (ReplaceZeroRankIndexArrayIndexMap (ptr 0) (index_range a) (map_offset bc) (map_stride bc))
                    (\<lambda>(off, str). Inr \<lparr>map_method = Method_constant, map_offset = off, map_stride = str\<rparr>)
                else Inr \<lparr>map_method = Method_array
                       \<lparr>element_pointer = AddByteOffset ptr (- InnerProduct str org),
                        index_range = index_range a, byte_strides = str\<rparr>,
                     map_offset = map_offset bc, map_stride = map_stride bc\<rparr>) = Inr m'"
    using r unfolding compose_array_def arr_def [symmetric] org_def [symmetric] sh_def [symmetric]
    by (auto simp: bind_result_Inr_iff split: option.splits)
  have fits: "view_fits arr a_to_b"
    using a rk inv map_invariant_fits [of a_to_b]
    by (auto simp: view_fits_def arr_def ois_of_def input_rank_def map_invariant_def DebugCheckInvariants_def)
  have lens: "length org = n" "length sh = n" using dims by (simp_all add: org_def sh_def domain_origin_def domain_shape_def)
  have shn: "\<forall>s \<in> set sh. 0 \<le> s"
    using setting_sizes [OF s] by (auto simp: sh_def domain_shape_def)
  define p where "p = map2 (-) x org"
  have lenp: "length p = n" using lenx lens by (simp add: p_def)
  have xp: "map2 (+) org p = x" using lenx lens by (auto simp: p_def intro!: nth_equalityI)
  have reg: "0 \<le> p ! d \<and> p ! d < sh ! d" if "d < n" "region_dim arr a_to_b d" for d
  proof -
    have "\<not> implicit_dimension (a_dims ! d)"
      using setting_region [OF s _ a] that by (simp add: n_def arr_def)
    then have "Contains_index (interval (a_dims ! d)) (x ! d)"
      using inx [OF that(1)] effective_explicit by metis
    then show ?thesis
      using that(1) dims lenx lens
      by (simp add: p_def org_def sh_def domain_origin_def domain_shape_def Contains_index_def inclusive_max_def)
  qed
  note T = TransformArraySubRegion_correct [OF tas fits n_def [symmetric] lens shn lenp reg]
  have ov: "output_values a_to_b x = y"
  proof -
    have "TransformIndices a_to_b x = Inr y" "exact_at a_to_b x" using s by (auto simp: compose_setting_def)
    then have "y = map (\<lambda>m. map_value m x) (output_index_maps a_to_b)"
      using TransformIndices_exact [of x a_to_b y] lenx n_def by blast
    then show ?thesis using \<open>exact_at a_to_b x\<close> by (simp add: output_values_def exact_at_def)
  qed
  have val: "ptr (InnerProduct p str) = base_value bc y"
    using T(1) by (simp add: xp ov base_value_def a(2) arr_def)
  show ?thesis
  proof (cases "IsSingletonIndexArrayMap sh str")
    case True
    have "p ! d = 0 \<or> str ! d = 0" if d: "d < length str" for d
    proof (cases "str ! d = 0")
      case False
      then have "sh ! d = 1" "region_dim arr a_to_b d"
        using True T(2,3) d lens by (auto simp: IsSingletonIndexArrayMap_def)
      then show ?thesis using reg [of d] d T(2) by simp
    qed simp
    then have "InnerProduct p str = 0"
      using dot_zero [of p str] lenp T(2) by (simp add: InnerProduct_eq)
    then have ptr0: "ptr 0 = base_value bc y" using val by simp
    have "ReplaceZeroRankIndexArrayIndexMap (ptr 0) (index_range a) (map_offset bc) (map_stride bc) =
        Inr (map_offset m', map_stride m') \<and> map_method m' = Method_constant"
      using m' True by (auto simp: bind_result_Inr_iff)
    then show ?thesis
      by (auto simp: ReplaceZeroRankIndexArrayIndexMap_Inr apply_map_eq map_in_range_def map_value_def a(2) ptr0
          base_value_def [of m'])
  next
    case False
    have m'_eq: "m' = \<lparr>map_method = Method_array \<lparr>element_pointer = AddByteOffset ptr (- InnerProduct str org),
        index_range = index_range a, byte_strides = str\<rparr>, map_offset = map_offset bc, map_stride = map_stride bc\<rparr>"
      using m' False by simp
    have "InnerProduct x str = wrap_index (InnerProduct org str + InnerProduct p str)"
      using InnerProduct_add [of org str p] lens lenp T(2) xp by simp
    then have "wrap_Add (- InnerProduct str org) (InnerProduct x str) = wrap_index (InnerProduct p str)"
      unfolding wrap_Add_def InnerProduct_commute [of str org] by (simp only: wrap_index_mod) simp
    also have "\<dots> = InnerProduct p str" by (simp add: InnerProduct_eq)
    finally have "wrap_Add (- InnerProduct str org) (InnerProduct x str) = InnerProduct p str" .
    then have "base_value m' x = base_value bc y"
      using val by (simp add: m'_eq base_value_def AddByteOffset_def)
    then show ?thesis
      by (simp add: apply_map_eq map_in_range_def map_value_def a(2) m'_eq)
  qed
qed

lemma apply_map_constant [simp]:
  "apply_map \<lparr>map_method = Method_constant, map_offset = off, map_stride = s\<rparr> x = Inr (wrap_index off)"
  "apply_map (constant_map off) x = Inr (wrap_index off)"
  by (simp_all add: apply_map_eq map_in_range_def map_value_def base_value_def constant_map_def)

lemma compose_map_correct:
  assumes s: "compose_setting b_to_c a_to_b a_dims x y" and bc: "bc \<in> set (output_index_maps b_to_c)"
    and r: "compose_map b_to_c a_to_b a_dims False bc = Inr m'"
  shows "apply_map m' x = apply_map bc y"
proof -
  have rk: "output_rank a_to_b = input_rank b_to_c" and inv: "map_invariant b_to_c bc"
    using s bc by (auto simp: compose_setting_def DebugCheckInvariants_def)
  show ?thesis
  proof (cases "map_method bc")
    case Method_constant
    then have "m' = constant_map (map_offset bc)" "map_stride bc = 0"
      using r inv by (auto simp: compose_map_def map_invariant_def)
    then show ?thesis
      using Method_constant by (simp add: apply_map_eq [of bc] map_in_range_def map_value_def base_value_def)
  next
    case (Method_single_input_dimension k)
    then have "compose_single b_to_c a_to_b a_dims False bc k = Inr m'" "k < output_rank a_to_b"
      using r inv rk by (auto simp: compose_map_def map_invariant_def)
    then show ?thesis
      using compose_single_correct [OF s] Method_single_input_dimension
      by (simp add: apply_map_eq [of bc] map_in_range_def map_value_def base_value_def)
  next
    case (Method_array a)
    then have "compose_array b_to_c a_to_b a_dims False bc a = Inr m'"
      using r inv by (auto simp: compose_map_def map_invariant_def)
    then show ?thesis by (rule compose_array_correct [OF s inv Method_array])
  qed
qed

section \<open>The composition\<close>

definition plain_dims :: "transform_rep \<Rightarrow> bool" where
  "plain_dims t \<longleftrightarrow> (\<forall>d \<in> set (input_dims t). plain_bounds (optionally_implicit_interval d))"

lemma invariant_valid_dims: "DebugCheckInvariants t \<Longrightarrow> valid_dims t"
  by (auto simp: DebugCheckInvariants_def valid_dims_def valid_interval_def Let_def)

lemma plain_b_maps:
  assumes "DebugCheckInvariants b_to_c" "plain_dims b_to_c"
  shows "b_plain (b_maps (ois_of b_to_c) t)"
  using assms invariant_valid_dims [OF assms(1)]
  by (auto simp: b_plain_def ois_of_def plain_dims_def valid_dims_def set_zip)

lemma propagated_domain_contains:
  assumes P: "PropagateBounds_implicit (ois_of b_to_c) (Some a_to_b) = Inr a_dims"
    and inv: "DebugCheckInvariants b_to_c" "DebugCheckInvariants a_to_b" and pl: "plain_dims b_to_c"
    and rk: "output_rank a_to_b = input_rank b_to_c" and x: "length x = input_rank a_to_b" "exact_at a_to_b x"
    and y: "TransformIndices a_to_b x = Inr y" "in_domain b_to_c y" and d: "d < input_rank a_to_b"
  shows "Contains_index (effective_interval (a_dims ! d)) (x ! d)"
proof -
  have dx: "in_domain a_to_b x" and ye: "y = map (\<lambda>m. map_value m x) (output_index_maps a_to_b)"
    using TransformIndices_exact [OF x, of y] y(1) by blast+
  have cx: "Contains_index (effective_interval (optionally_implicit_domain a_to_b d)) (x ! d)"
    using dx d by (simp add: in_domain_def)
  have "preimage_of (b_maps (ois_of b_to_c) a_to_b) d (x ! d)"
    unfolding preimage_of_def
  proof (clarify)
    fix b m
    assume "(b, m) \<in> set (b_maps (ois_of b_to_c) a_to_b)" and u: "map_uses m d"
    then obtain k where k: "k < output_rank a_to_b" "b = optionally_implicit_domain b_to_c k"
      "m = output_index_maps a_to_b ! k"
      using b_maps_memE [OF _ rk] by blast
    have "Contains_index (effective_interval b) (y ! k)"
      using y(2) k rk by (simp add: in_domain_def)
    moreover have "y ! k = map_offset m + map_stride m * x ! d"
      using k u by (simp add: ye output_rank_def map_value_def base_value_def map_uses_def)
    ultimately show "in_bounds (effective_interval b) (map_offset m + map_stride m * x ! d)"
      using Contains_in_bounds by simp
  qed
  then have "in_bounds (effective_interval (a_dims ! d)) (x ! d)"
    using PropagateBounds_exact(1) [OF P d invariant_valid_dims [OF inv(2)] plain_b_maps [OF inv(1) pl]
        in_domain_not_empty [OF dx]] Contains_in_bounds [OF cx] by blast
  moreover have "IsFiniteIndex (x ! d)" using cx by (simp add: Contains_index_def IsFiniteIndex_def)
  ultimately show ?thesis using in_bounds_finite_iff by (simp add: interval_indices_def)
qed

lemma ComposeTransforms_Inr:
  assumes "ComposeTransforms b_to_c a_to_b False = Inr a_to_c"
  obtains a_dims maps where "output_rank a_to_b = input_rank b_to_c"
    "PropagateBounds_implicit (ois_of b_to_c) (Some a_to_b) = Inr a_dims"
    "map_result (compose_map b_to_c a_to_b a_dims
       (IsDomainExplicitlyEmpty ((set_domains a_to_b a_dims)\<lparr>output_index_maps := []\<rparr>)))
       (output_index_maps b_to_c) = Inr maps"
    "a_to_c = (set_domains a_to_b a_dims)\<lparr>output_index_maps := maps\<rparr>"
    "length a_dims = input_rank a_to_b"
  using assms PropagateBounds_implicit_length
  by (fastforce simp: ComposeTransforms_def ComposeTransformsImpl_def Let_def bind_result_Inr_iff split: if_splits)

lemma TransformIndices_cong:
  assumes "in_domain t x" "in_domain u y" "length (output_index_maps t) = length (output_index_maps u)"
    and "\<And>i. i < length (output_index_maps t) \<Longrightarrow>
           apply_map (output_index_maps t ! i) x = apply_map (output_index_maps u ! i) y"
  shows "TransformIndices t x = TransformIndices u y"
proof -
  have check: "\<exists>us. map_result check_input_index (zip (input_dims t) x) = Inr us" if "in_domain t x" for t x
    unfolding map_result_unit_Inr_iff using that
    by (auto simp: in_domain_def set_zip input_rank_def optionally_implicit_domain_def check_input_index_Inr)
  have eq: "map_result f xs = map_result g ys"
    if "length xs = length ys" "\<And>i. i < length xs \<Longrightarrow> f (xs ! i) = g (ys ! i)" for f :: "'a \<Rightarrow> 'c result" and g :: "'b \<Rightarrow> 'c result" and xs ys
    using that
  proof (induction xs arbitrary: ys)
    case (Cons x xs)
    obtain z zs where ys: "ys = z # zs" using Cons.prems(1) by (cases ys) auto
    show ?case
      using Cons.IH [of zs] Cons.prems(1) Cons.prems(2) [of 0] Cons.prems(2) [of "Suc _"] by (simp add: ys)
  qed simp
  show ?thesis
    using check [OF assms(1)] check [OF assms(2)]
      eq [OF assms(3), of "\<lambda>m. apply_map m x" "\<lambda>m. apply_map m y", OF assms(4)]
    by (auto simp: TransformIndices_def)
qed

lemma ComposeTransforms_apply:
  assumes r: "ComposeTransforms b_to_c a_to_b False = Inr a_to_c"
    and inv: "DebugCheckInvariants b_to_c" "DebugCheckInvariants a_to_b" and pl: "plain_dims b_to_c"
    and x: "length x = input_rank a_to_b" "exact_at a_to_b x"
    and y: "TransformIndices a_to_b x = Inr y" "in_domain b_to_c y"
  shows "TransformIndices a_to_c x = TransformIndices b_to_c y"
proof -
  obtain a_dims maps where rk: "output_rank a_to_b = input_rank b_to_c"
    and P: "PropagateBounds_implicit (ois_of b_to_c) (Some a_to_b) = Inr a_dims"
    and maps: "map_result (compose_map b_to_c a_to_b a_dims
       (IsDomainExplicitlyEmpty ((set_domains a_to_b a_dims)\<lparr>output_index_maps := []\<rparr>)))
       (output_index_maps b_to_c) = Inr maps"
    and ac: "a_to_c = (set_domains a_to_b a_dims)\<lparr>output_index_maps := maps\<rparr>"
    and len: "length a_dims = input_rank a_to_b"
    by (rule ComposeTransforms_Inr [OF r])
  have s: "compose_setting b_to_c a_to_b a_dims x y"
    unfolding compose_setting_def using P inv rk x y propagated_domain_contains [OF P inv pl rk x y] by blast
  note ne = setting_nonempty [OF s len]
  show ?thesis
  proof (rule TransformIndices_cong)
    show "in_domain a_to_c x" unfolding ac by (rule ne(2))
    show "in_domain b_to_c y" by (rule y(2))
    show "length (output_index_maps a_to_c) = length (output_index_maps b_to_c)"
      using maps by (simp add: ac map_result_Inr_iff)
    show "apply_map (output_index_maps a_to_c ! i) x = apply_map (output_index_maps b_to_c ! i) y"
      if "i < length (output_index_maps a_to_c)" for i
      using that maps compose_map_correct [OF s, of "output_index_maps b_to_c ! i" "maps ! i"] ne(1)
      by (simp add: ac map_result_Inr_iff)
  qed
qed

section \<open>The domain of the composition\<close>

definition array_free :: "transform_rep \<Rightarrow> bool" where
  "array_free t \<longleftrightarrow>
     (\<forall>m \<in> set (output_index_maps t). case map_method m of Method_array _ \<Rightarrow> False | _ \<Rightarrow> True)"

lemma in_domain_set_domains:
  assumes "length ds = input_rank t"
  shows "in_domain ((set_domains t ds)\<lparr>output_index_maps := ms\<rparr>) x \<longleftrightarrow>
    length x = input_rank t \<and> (\<forall>d < input_rank t. Contains_index (effective_interval (ds ! d)) (x ! d))"
  using optionally_implicit_domain_set_domains [OF assms] input_dims_set_domains(2) [OF assms]
  by (simp add: in_domain_def optionally_implicit_domain_def input_rank_def)

lemma propagated_domain_nonempty:
  assumes P: "PropagateBounds_implicit b (Some t) = Inr ds" and inv: "DebugCheckInvariants t"
    and x: "\<forall>d < input_rank t. Contains_index (effective_interval (ds ! d)) (x ! d)"
  shows "\<not> IsDomainExplicitlyEmpty t"
proof
  assume "IsDomainExplicitlyEmpty t"
  then obtain d where d: "d < input_rank t" "\<not> implicit_dimension (optionally_implicit_domain t d)"
    "interval_size (interval (optionally_implicit_domain t d)) = 0"
    by (auto simp: IsDomainExplicitlyEmpty_def in_set_conv_nth input_rank_def optionally_implicit_domain_def)
  note E = propagated_explicit [OF P inv d(1,2)]
  have "Contains_index (interval (ds ! d)) (x ! d)" using x d(1) effective_explicit [OF E(2)] by auto
  then show False using d(3) E(1) by (auto simp: Contains_index_def inclusive_max_def)
qed

lemma ComposeTransforms_domain:
  assumes r: "ComposeTransforms b_to_c a_to_b False = Inr a_to_c"
    and inv: "DebugCheckInvariants b_to_c" "DebugCheckInvariants a_to_b"
    and pl: "plain_dims b_to_c" "array_free a_to_b"
    and x: "length x = input_rank a_to_b"
    and fin: "\<forall>m \<in> set (output_index_maps a_to_b). IsFiniteIndex (map_value m x)"
  shows "in_domain a_to_c x \<longleftrightarrow>
    in_domain a_to_b x \<and> in_domain b_to_c (map (\<lambda>m. map_value m x) (output_index_maps a_to_b))"
proof -
  obtain a_dims maps where rk: "output_rank a_to_b = input_rank b_to_c"
    and P: "PropagateBounds_implicit (ois_of b_to_c) (Some a_to_b) = Inr a_dims"
    and ac: "a_to_c = (set_domains a_to_b a_dims)\<lparr>output_index_maps := maps\<rparr>"
    and len: "length a_dims = input_rank a_to_b"
    by (rule ComposeTransforms_Inr [OF r])
  let ?y = "map (\<lambda>m. map_value m x) (output_index_maps a_to_b)"
  let ?ps = "b_maps (ois_of b_to_c) a_to_b"
  have ex: "exact_at a_to_b x"
    using fin by (auto simp: exact_at_def IsFiniteIndex_def index_consts)
  have ranges: "\<forall>m \<in> set (output_index_maps a_to_b). map_in_range m x"
    using pl(2) by (auto simp: array_free_def map_in_range_def split: output_index_method.splits)
  note dom = in_domain_set_domains [OF len, of maps x]
  show ?thesis
  proof
    assume "in_domain a_to_c x"
    then have c: "\<forall>d < input_rank a_to_b. Contains_index (effective_interval (a_dims ! d)) (x ! d)"
      unfolding ac dom by simp
    note ex' = PropagateBounds_exact [OF P _ invariant_valid_dims [OF inv(2)] plain_b_maps [OF inv(1) pl(1)]
        propagated_domain_nonempty [OF P inv(2) c]]
    have ab: "Contains_index (effective_interval (optionally_implicit_domain a_to_b d)) (x ! d)"
      and pre: "preimage_of ?ps d (x ! d)" if "d < input_rank a_to_b" for d
      using ex'(1) [OF that, of "x ! d"] c that Contains_in_bounds in_bounds_finite_iff
      by (auto simp: interval_indices_def Contains_index_def IsFiniteIndex_def)
    have "Contains_index (effective_interval (optionally_implicit_domain b_to_c k)) (?y ! k)"
      if k: "k < output_rank a_to_b" for k
    proof -
      let ?m = "output_index_maps a_to_b ! k"
      have mem: "(optionally_implicit_domain b_to_c k, ?m) \<in> set ?ps" by (rule b_maps_mem [OF k rk])
      have mi: "map_invariant a_to_b ?m" by (rule invariant_mapD [OF inv(2) k])
      have m: "?m \<in> set (output_index_maps a_to_b)" using k by (simp add: output_rank_def)
      show ?thesis
      proof (cases "map_method ?m")
        case Method_constant
        then have "?y ! k = map_offset ?m" "constant_like ?m"
          using mi k by (auto simp: map_invariant_def map_value_def base_value_def constant_like_def output_rank_def)
        moreover have "constants_inside ?ps"
          by (rule PropagateBounds_constants [OF P propagated_domain_nonempty [OF P inv(2) c]])
        ultimately show ?thesis using mem by (auto simp: constants_inside_def)
      next
        case (Method_single_input_dimension d)
        then have d: "map_uses ?m d" "d < input_rank a_to_b" "?y ! k = map_offset ?m + map_stride ?m * x ! d"
          using mi k by (auto simp: map_invariant_def map_uses_def map_value_def base_value_def output_rank_def)
        then have "in_bounds (effective_interval (optionally_implicit_domain b_to_c k)) (?y ! k)"
          using pre [OF d(2)] mem by (auto simp: preimage_of_def)
        moreover have "IsFiniteIndex (?y ! k)" using fin m k by (simp add: output_rank_def)
        ultimately show ?thesis using in_bounds_finite_iff by (simp add: interval_indices_def)
      next
        case (Method_array a)
        then show ?thesis using pl(2) m by (auto simp: array_free_def)
      qed
    qed
    then show "in_domain a_to_b x \<and> in_domain b_to_c ?y"
      using ab x rk by (auto simp: in_domain_def output_rank_def)
  next
    assume a: "in_domain a_to_b x \<and> in_domain b_to_c ?y"
    then have "TransformIndices a_to_b x = Inr ?y"
      using TransformIndices_exact [OF x ex] ranges by blast
    then show "in_domain a_to_c x"
      unfolding ac dom using x propagated_domain_contains [OF P inv pl(1) rk x ex] a by blast
  qed
qed

end
