(* ===== verification/Inverse_Transform.thy ===== *)
theory Inverse_Transform
  imports Compose_Transforms
begin

text \<open>
  Inversion of an index transform (\<^verbatim>\<open>index_space/internal/inverse_transform.cc\<close>), and the
  proof that the result is the inverse on finite index vectors.
\<close>

section \<open>Model\<close>

text \<open>
  The dimensions of the new transform are filled in the order of the output dimensions of the
  old one; the maps start as the default-constructed constant maps, whose offset and stride
  the second loop sets.
\<close>

definition inverse_output_dim ::
  "transform_rep \<Rightarrow> nat \<Rightarrow> output_index_map list \<Rightarrow>
     (index_domain_dimension \<times> output_index_map list) result" where
  "inverse_output_dim t output_dim new_maps =
     (let m = output_index_maps t ! output_dim
      in case map_method m of
           Method_array _ \<Rightarrow> Inl InvalidArgument
         | Method_constant \<Rightarrow>
             (if \<not> IsFiniteIndex (map_offset m) then Inl InvalidArgument
              else Inr (explicit_dim (UncheckedSized (map_offset m) 1), new_maps))
         | Method_single_input_dimension input_dim \<Rightarrow>
             (if map_stride m \<noteq> 1 \<and> map_stride m \<noteq> - 1 then Inl InvalidArgument
              else case map_method (new_maps ! input_dim) of
                Method_single_input_dimension _ \<Rightarrow> Inl InvalidArgument
              | _ \<Rightarrow>
                bind_result
                  (GetAffineTransformRange_oi (optionally_implicit_domain t input_dim)
                     (map_offset m) (map_stride m))
                  (\<lambda>new_domain.
                     if map_offset m = index_min then Inl InvalidArgument
                     else Inr (\<lparr>optionally_implicit_interval = new_domain,
                                label = label (input_dims t ! input_dim)\<rparr>,
                               new_maps[input_dim :=
                                 \<lparr>map_method = Method_single_input_dimension output_dim,
                                  map_offset = wrap_Multiply (- map_offset m) (map_stride m),
                                  map_stride = map_stride m\<rparr>]))))"

fun inverse_loop ::
  "transform_rep \<Rightarrow> nat list \<Rightarrow> output_index_map list \<Rightarrow>
     (index_domain_dimension list \<times> output_index_map list) result" where
  "inverse_loop t [] new_maps = Inr ([], new_maps)"
| "inverse_loop t (output_dim # os) new_maps =
     bind_result (inverse_output_dim t output_dim new_maps) (\<lambda>(d, new_maps').
     bind_result (inverse_loop t os new_maps') (\<lambda>(ds, new_maps'').
     Inr (d # ds, new_maps'')))"

definition inverse_input_dim ::
  "transform_rep \<Rightarrow> nat \<times> output_index_map \<Rightarrow> output_index_map result" where
  "inverse_input_dim t = (\<lambda>(input_dim, new_map).
     case map_method new_map of
       Method_single_input_dimension _ \<Rightarrow> Inr new_map
     | _ \<Rightarrow>
       let input_domain = optionally_implicit_domain t input_dim
       in if implicit_lower input_domain \<or> implicit_upper input_domain \<or>
             interval_size (interval input_domain) \<noteq> 1
          then Inl InvalidArgument
          else Inr (new_map\<lparr>map_offset := inclusive_min (interval input_domain), map_stride := 0\<rparr>))"

definition InverseTransform :: "transform_rep \<Rightarrow> transform_rep result" where
  "InverseTransform t =
     bind_result (inverse_loop t [0..<output_rank t] (replicate (input_rank t) (constant_map 0)))
       (\<lambda>(new_dims, new_maps).
     bind_result (map_result (inverse_input_dim t) (zip [0..<input_rank t] new_maps))
       (\<lambda>maps. Inr \<lparr>input_dims = new_dims, output_index_maps = maps\<rparr>))"

section \<open>The new dimensions\<close>

lemma Range_oi_unit:
  assumes v: "valid_interval (interval oi)" "\<not> empty_interval (interval oi)" and s: "s = 1 \<or> s = - 1"
    and r: "GetAffineTransformRange_oi oi off s = Inr q"
  shows "in_bounds (effective_interval q) (off + s * z) \<longleftrightarrow> in_bounds (effective_interval oi) z"
proof -
  obtain d where d: "GetAffineTransformRange (interval oi) off s = Inr d"
    and q: "q = (if s < 0 then \<lparr>interval = d, implicit_lower = implicit_upper oi,
                   implicit_upper = implicit_lower oi\<rparr> else oi\<lparr>interval := d\<rparr>)"
    using r by (auto simp: GetAffineTransformRange_oi_def bind_result_Inr_iff)
  have "s \<noteq> 0" using s by auto
  then obtain lo hi where b: "transform_bound off s (inclusive_min (interval oi)) = Inr lo"
    "transform_bound off s (inclusive_max (interval oi)) = Inr hi"
    "inclusive_min d = (if s < 0 then hi else lo)" "inclusive_max d = (if s < 0 then lo else hi)"
    using GetAffineTransformRange_cases [OF v _ d] by blast
  let ?i = "interval oi"
  have i: "inclusive_min ?i \<noteq> kInfIndex" "inclusive_max ?i \<noteq> - kInfIndex"
    using v(1) by (auto simp: valid_interval_iff_closed ValidClosed_def)
  have lo: "if inclusive_min ?i = - kInfIndex then lo = - s * kInfIndex
            else lo = off + s * inclusive_min ?i \<and> lo \<noteq> - kInfIndex \<and> lo \<noteq> kInfIndex"
    and hi: "if inclusive_max ?i = kInfIndex then hi = s * kInfIndex
            else hi = off + s * inclusive_max ?i \<and> hi \<noteq> - kInfIndex \<and> hi \<noteq> kInfIndex"
    using b(1,2) s i by (auto simp: transform_bound_Inr IsFiniteIndex_def index_consts)
  from s show ?thesis
  proof
    assume "s = 1"
    then show ?thesis
      using lo hi b(3,4) by (auto simp: q effective_interval_def in_bounds_def split: if_splits)
  next
    assume "s = - 1"
    then show ?thesis
      using lo hi b(3,4) by (auto simp: q effective_interval_def in_bounds_def split: if_splits)
  qed
qed

definition inverse_map :: "output_index_map \<Rightarrow> nat \<Rightarrow> output_index_map" where
  "inverse_map m output_dim =
     \<lparr>map_method = Method_single_input_dimension output_dim,
      map_offset = wrap_Multiply (- map_offset m) (map_stride m), map_stride = map_stride m\<rparr>"

text \<open>What the first loop has established for an output dimension.\<close>

definition inverted ::
  "transform_rep \<Rightarrow> index_domain_dimension \<Rightarrow> output_index_map list \<Rightarrow> nat \<Rightarrow> bool" where
  "inverted t dim maps output_dim \<longleftrightarrow>
     (let m = output_index_maps t ! output_dim
      in case map_method m of
           Method_constant \<Rightarrow>
             IsFiniteIndex (map_offset m) \<and> dim = explicit_dim (UncheckedSized (map_offset m) 1)
         | Method_single_input_dimension d \<Rightarrow>
             (map_stride m = 1 \<or> map_stride m = - 1) \<and> maps ! d = inverse_map m output_dim \<and>
             GetAffineTransformRange_oi (optionally_implicit_domain t d) (map_offset m) (map_stride m) =
               Inr (optionally_implicit_interval dim)
         | Method_array _ \<Rightarrow> False)"

definition is_single :: "output_index_map \<Rightarrow> bool" where
  "is_single m \<longleftrightarrow> (case map_method m of Method_single_input_dimension _ \<Rightarrow> True | _ \<Rightarrow> False)"

lemma inverse_output_dim_Inr:
  assumes r: "inverse_output_dim t k maps = Inr (dim, maps')" and len: "length maps = input_rank t"
    and m: "map_invariant t (output_index_maps t ! k)"
  shows "length maps' = input_rank t" and "inverted t dim maps' k"
    and "d < input_rank t \<Longrightarrow> is_single (maps ! d) \<Longrightarrow> maps' ! d = maps ! d"
    and "d < input_rank t \<Longrightarrow> \<not> is_single (maps ! d) \<Longrightarrow>
         maps' ! d = (if map_method (output_index_maps t ! k) = Method_single_input_dimension d
                      then inverse_map (output_index_maps t ! k) k else maps ! d)"
  using assms
  by (auto simp: inverse_output_dim_def inverted_def inverse_map_def is_single_def Let_def bind_result_Inr_iff
      map_invariant_def nth_list_update split: output_index_method.splits if_splits)

lemma is_single_inverse_map [simp]: "is_single (inverse_map m k)"
  by (simp add: is_single_def inverse_map_def)

lemma inverted_cong:
  assumes "inverted t dim maps k" "map_invariant t (output_index_maps t ! k)"
    "\<And>d. d < input_rank t \<Longrightarrow> is_single (maps ! d) \<Longrightarrow> maps' ! d = maps ! d"
  shows "inverted t dim maps' k"
  using assms
  by (auto simp: inverted_def Let_def map_invariant_def split: output_index_method.splits)

lemma inverse_loop_Inr:
  assumes "inverse_loop t os maps = Inr (dims, maps')" "length maps = input_rank t"
    and "\<forall>k \<in> set os. map_invariant t (output_index_maps t ! k)"
  shows "length maps' = input_rank t \<and> length dims = length os \<and>
    (\<forall>j < length os. inverted t (dims ! j) maps' (os ! j)) \<and>
    (\<forall>d < input_rank t. is_single (maps ! d) \<longrightarrow> maps' ! d = maps ! d) \<and>
    (\<forall>d < input_rank t. \<not> is_single (maps ! d) \<longrightarrow>
       (if \<exists>k \<in> set os. map_method (output_index_maps t ! k) = Method_single_input_dimension d
        then \<exists>k \<in> set os. map_method (output_index_maps t ! k) = Method_single_input_dimension d \<and>
               maps' ! d = inverse_map (output_index_maps t ! k) k
        else maps' ! d = maps ! d))"
  using assms
proof (induction os arbitrary: maps dims)
  case Nil
  then show ?case by simp
next
  case (Cons k os)
  obtain dim maps1 ds where s1: "inverse_output_dim t k maps = Inr (dim, maps1)"
    and rest: "inverse_loop t os maps1 = Inr (ds, maps')" and dims: "dims = dim # ds"
    using Cons.prems(1) by (auto simp: bind_result_Inr_iff)
  have mk: "map_invariant t (output_index_maps t ! k)" using Cons.prems(3) by simp
  note S = inverse_output_dim_Inr [OF s1 Cons.prems(2) mk]
  have IH: "length maps' = input_rank t \<and> length ds = length os \<and>
    (\<forall>j < length os. inverted t (ds ! j) maps' (os ! j)) \<and>
    (\<forall>d < input_rank t. is_single (maps1 ! d) \<longrightarrow> maps' ! d = maps1 ! d) \<and>
    (\<forall>d < input_rank t. \<not> is_single (maps1 ! d) \<longrightarrow>
       (if \<exists>k \<in> set os. map_method (output_index_maps t ! k) = Method_single_input_dimension d
        then \<exists>k \<in> set os. map_method (output_index_maps t ! k) = Method_single_input_dimension d \<and>
               maps' ! d = inverse_map (output_index_maps t ! k) k
        else maps' ! d = maps1 ! d))"
    using Cons.IH [OF rest S(1)] Cons.prems(3) by simp
  have "inverted t dim maps' k"
    by (rule inverted_cong [OF S(2) mk]) (use IH in blast)
  then have inv: "\<forall>j < length (k # os). inverted t (dims ! j) maps' ((k # os) ! j)"
    using IH by (auto simp: dims nth_Cons split: nat.splits)
  have single: "\<forall>d < input_rank t. is_single (maps ! d) \<longrightarrow> maps' ! d = maps ! d"
    using IH S(3) by (metis (mono_tags))
  have "if \<exists>k' \<in> set (k # os). map_method (output_index_maps t ! k') = Method_single_input_dimension d
        then \<exists>k' \<in> set (k # os). map_method (output_index_maps t ! k') = Method_single_input_dimension d \<and>
               maps' ! d = inverse_map (output_index_maps t ! k') k'
        else maps' ! d = maps ! d" if d: "d < input_rank t" "\<not> is_single (maps ! d)" for d
  proof (cases "map_method (output_index_maps t ! k) = Method_single_input_dimension d")
    case True
    then have "maps1 ! d = inverse_map (output_index_maps t ! k) k" using S(4) [OF d] by simp
    then have "maps' ! d = inverse_map (output_index_maps t ! k) k" using IH d(1) by simp
    then show ?thesis using True by auto
  next
    case False
    then have "maps1 ! d = maps ! d" using S(4) [OF d] by simp
    then show ?thesis using IH d False by (auto split: if_splits)
  qed
  then have all: "\<forall>d < input_rank t. \<not> is_single (maps ! d) \<longrightarrow>
       (if \<exists>k' \<in> set (k # os). map_method (output_index_maps t ! k') = Method_single_input_dimension d
        then \<exists>k' \<in> set (k # os). map_method (output_index_maps t ! k') = Method_single_input_dimension d \<and>
               maps' ! d = inverse_map (output_index_maps t ! k') k'
        else maps' ! d = maps ! d)"
    by blast
  have len: "length maps' = input_rank t" "length dims = length (k # os)" using IH by (simp_all add: dims)
  show ?case by (intro conjI len inv single all)
qed

section \<open>The inverse transform is the inverse\<close>

lemma InverseTransform_Inr:
  assumes r: "InverseTransform t = Inr u" and inv: "DebugCheckInvariants t"
  shows "input_rank u = output_rank t" and "output_rank u = input_rank t"
    and "k < output_rank t \<Longrightarrow> inverted t (input_dims u ! k) (output_index_maps u) k"
    and "\<lbrakk>d < input_rank t; \<forall>k < output_rank t. map_method (output_index_maps t ! k) \<noteq> Method_single_input_dimension d\<rbrakk>
         \<Longrightarrow> output_index_maps u ! d = constant_map (inclusive_min (interval (optionally_implicit_domain t d))) \<and>
             \<not> implicit_dimension (optionally_implicit_domain t d) \<and>
             interval_size (interval (optionally_implicit_domain t d)) = 1"
proof -
  obtain maps1 where loop: "inverse_loop t [0..<output_rank t] (replicate (input_rank t) (constant_map 0)) =
      Inr (input_dims u, maps1)"
    and fin: "map_result (inverse_input_dim t) (zip [0..<input_rank t] maps1) = Inr (output_index_maps u)"
    using r by (auto simp: InverseTransform_def bind_result_Inr_iff)
  have mi: "\<forall>k \<in> set [0..<output_rank t]. map_invariant t (output_index_maps t ! k)"
    using invariant_mapD [OF inv] by simp
  note L = inverse_loop_Inr [OF loop _ mi, simplified]
  have len: "length maps1 = input_rank t" using L by blast
  have step: "inverse_input_dim t (d, maps1 ! d) = Inr (output_index_maps u ! d)" if "d < input_rank t" for d
    using fin that len by (simp add: map_result_Inr_iff)
  have ns: "\<not> is_single (constant_map 0)" by (simp add: is_single_def constant_map_def)
  show "input_rank u = output_rank t" using L by (simp add: input_rank_def)
  show "output_rank u = input_rank t" using fin len by (simp add: output_rank_def map_result_Inr_iff)
  have same: "output_index_maps u ! d = maps1 ! d" if "d < input_rank t" "is_single (maps1 ! d)" for d
    using step [OF that(1)] that(2)
    by (auto simp: inverse_input_dim_def is_single_def split: output_index_method.splits)
  show "inverted t (input_dims u ! k) (output_index_maps u) k" if k: "k < output_rank t"
  proof (rule inverted_cong)
    show "inverted t (input_dims u ! k) maps1 k" using L k by simp
    show "map_invariant t (output_index_maps t ! k)" using mi k by simp
  qed (rule same)
  show "output_index_maps u ! d = constant_map (inclusive_min (interval (optionally_implicit_domain t d))) \<and>
      \<not> implicit_dimension (optionally_implicit_domain t d) \<and>
      interval_size (interval (optionally_implicit_domain t d)) = 1"
    if d: "d < input_rank t" and no: "\<forall>k < output_rank t. map_method (output_index_maps t ! k) \<noteq> Method_single_input_dimension d"
  proof -
    have "maps1 ! d = constant_map 0"
      using L d no ns by (auto split: if_splits)
    then show ?thesis
      using step [OF d]
      by (auto simp: inverse_input_dim_def constant_map_def implicit_dimension_def Let_def split: if_splits)
  qed
qed

definition finite_vec :: "int list \<Rightarrow> bool" where
  "finite_vec x \<longleftrightarrow> (\<forall>v \<in> set x. IsFiniteIndex v)"

definition int64_offsets :: "transform_rep \<Rightarrow> bool" where
  "int64_offsets t \<longleftrightarrow> (\<forall>m \<in> set (output_index_maps t). in_int64 (map_offset m))"

definition nonempty_dims :: "transform_rep \<Rightarrow> bool" where
  "nonempty_dims t \<longleftrightarrow> (\<forall>d \<in> set (input_dims t). \<not> empty_interval (interval (optionally_implicit_interval d)))"

text \<open>A wrapped sum of an offset and a finite index that is finite did not wrap.\<close>

lemma wrap_finite_exact:
  assumes "- (2 ^ 63) \<le> off" "off \<le> 2 ^ 63" "IsFiniteIndex a" "IsFiniteIndex b" "wrap_index (a + off) = b"
  shows "b = a + off"
proof -
  obtain k where k: "wrap_index (a + off) = a + off - k * 2 ^ 64" using wrap_index_diff by blast
  then have "k = 0" using assms by (auto simp: IsFiniteIndex_def index_consts)
  then show ?thesis using k assms(5) by simp
qed

lemma unit_inverse:
  fixes a b off s :: int
  assumes "s = 1 \<or> s = - 1"
  shows "b = a * s + off \<longleftrightarrow> a = b * s + (- off * s)"
  using assms by auto

lemma finite_in_int64: "IsFiniteIndex v \<Longrightarrow> in_int64 v"
  by (simp add: IsFiniteIndex_def index_consts)

lemma apply_single_iff:
  assumes m: "map_method m = Method_single_input_dimension d" "map_stride m = 1 \<or> map_stride m = - 1"
    and off: "in_int64 (map_offset m)" and fin: "IsFiniteIndex (x ! d)" "IsFiniteIndex (y ! k)"
  shows "apply_map m x = Inr (y ! k) \<longleftrightarrow> y ! k = x ! d * map_stride m + map_offset m"
    and "apply_map (inverse_map m k) y = Inr (x ! d) \<longleftrightarrow> y ! k = x ! d * map_stride m + map_offset m"
proof -
  let ?s = "map_stride m" and ?o = "map_offset m"
  have fs: "IsFiniteIndex (x ! d * ?s)" "IsFiniteIndex (y ! k * ?s)"
    using fin m(2) by (auto simp: IsFiniteIndex_def index_consts)
  have a1: "apply_map m x = Inr (wrap_index (x ! d * ?s + ?o))"
    using m by (simp add: apply_map_eq map_in_range_def map_value_def base_value_def)
  show "apply_map m x = Inr (y ! k) \<longleftrightarrow> y ! k = x ! d * ?s + ?o"
    unfolding a1 using wrap_finite_exact [of ?o "x ! d * ?s" "y ! k"] fs fin off finite_in_int64 [OF fin(2)]
    by (auto simp: in_int64_def)
  have a2: "apply_map (inverse_map m k) y = Inr (wrap_index (y ! k * ?s + (- ?o * ?s)))"
    by (simp add: apply_map_eq map_in_range_def map_value_def base_value_def inverse_map_def wrap_Multiply_def)
  have "- (2 ^ 63) \<le> - ?o * ?s" "- ?o * ?s \<le> 2 ^ 63" using off m(2) by (auto simp: in_int64_def)
  then have "wrap_index (y ! k * ?s + (- ?o * ?s)) = x ! d \<longleftrightarrow> x ! d = y ! k * ?s + (- ?o * ?s)"
    using wrap_finite_exact [of "- ?o * ?s" "y ! k * ?s" "x ! d"] fs fin finite_in_int64 [OF fin(1)] by auto
  then show "apply_map (inverse_map m k) y = Inr (x ! d) \<longleftrightarrow> y ! k = x ! d * ?s + ?o"
    unfolding a2 using unit_inverse [OF m(2), of "y ! k" "x ! d" ?o] by auto
qed

text \<open>
  One output dimension and, where it has one, the input dimension it maps: the two transforms
  agree on both the domain and the value.
\<close>

lemma inverted_correct:
  assumes inv: "DebugCheckInvariants t" "nonempty_dims t" "int64_offsets t" and k: "k < output_rank t"
    and iv: "inverted t (input_dims u ! k) (output_index_maps u) k"
    and y: "IsFiniteIndex (y ! k)" and x: "length x = input_rank t" "finite_vec x"
  shows "map_method (output_index_maps t ! k) = Method_single_input_dimension d \<Longrightarrow>
           (apply_map (output_index_maps t ! k) x = Inr (y ! k) \<longleftrightarrow>
              apply_map (output_index_maps u ! d) y = Inr (x ! d)) \<and>
           (apply_map (output_index_maps t ! k) x = Inr (y ! k) \<longrightarrow>
              (Contains_index (effective_interval (optionally_implicit_domain t d)) (x ! d) \<longleftrightarrow>
               Contains_index (effective_interval (optionally_implicit_domain u k)) (y ! k)))"
    and "map_method (output_index_maps t ! k) = Method_constant \<Longrightarrow>
           (apply_map (output_index_maps t ! k) x = Inr (y ! k) \<longleftrightarrow>
            Contains_index (effective_interval (optionally_implicit_domain u k)) (y ! k))"
proof -
  let ?m = "output_index_maps t ! k"
  have mi: "map_invariant t ?m" by (rule invariant_mapD [OF inv(1) k])
  have off: "in_int64 (map_offset ?m)" using inv(3) k by (simp add: int64_offsets_def output_rank_def)
  show "(apply_map ?m x = Inr (y ! k) \<longleftrightarrow> apply_map (output_index_maps u ! d) y = Inr (x ! d)) \<and>
       (apply_map ?m x = Inr (y ! k) \<longrightarrow>
          (Contains_index (effective_interval (optionally_implicit_domain t d)) (x ! d) \<longleftrightarrow>
           Contains_index (effective_interval (optionally_implicit_domain u k)) (y ! k)))"
    if single: "map_method ?m = Method_single_input_dimension d"
  proof -
    have d: "d < input_rank t" using mi single by (simp add: map_invariant_def)
    have S: "map_stride ?m = 1 \<or> map_stride ?m = - 1" "output_index_maps u ! d = inverse_map ?m k"
      "GetAffineTransformRange_oi (optionally_implicit_domain t d) (map_offset ?m) (map_stride ?m) =
         Inr (optionally_implicit_domain u k)"
      using iv single by (simp_all add: inverted_def Let_def optionally_implicit_domain_def)
    have fx: "IsFiniteIndex (x ! d)" using x d by (simp add: finite_vec_def)
    note A = apply_single_iff [OF single S(1) off fx y]
    have ne: "\<not> empty_interval (interval (optionally_implicit_domain t d))"
      using inv(2) d by (simp add: nonempty_dims_def optionally_implicit_domain_def input_rank_def)
    have "in_bounds (effective_interval (optionally_implicit_domain u k)) (map_offset ?m + map_stride ?m * x ! d)
        \<longleftrightarrow> in_bounds (effective_interval (optionally_implicit_domain t d)) (x ! d)"
      by (rule Range_oi_unit [OF invariant_validD [OF inv(1) d] ne S(1,3)])
    then have "Contains_index (effective_interval (optionally_implicit_domain t d)) (x ! d) \<longleftrightarrow>
        Contains_index (effective_interval (optionally_implicit_domain u k)) (y ! k)"
      if "y ! k = x ! d * map_stride ?m + map_offset ?m"
      using that in_bounds_finite_iff [OF fx] in_bounds_finite_iff [OF y]
      by (simp add: interval_indices_def algebra_simps)
    then show ?thesis using A S(2) by auto
  qed
  show "apply_map ?m x = Inr (y ! k) \<longleftrightarrow>
      Contains_index (effective_interval (optionally_implicit_domain u k)) (y ! k)"
    if const: "map_method ?m = Method_constant"
  proof -
    have "apply_map ?m x = Inr (map_offset ?m)"
      using const off by (simp add: apply_map_eq map_in_range_def map_value_def base_value_def)
    moreover have "effective_interval (optionally_implicit_domain u k) = UncheckedSized (map_offset ?m) 1"
      and "IsFiniteIndex (map_offset ?m)"
      using iv const
      by (auto simp: inverted_def Let_def optionally_implicit_domain_def effective_interval_def explicit_dim_def
          intro!: interval_eqI)
    ultimately show ?thesis by (auto simp: Contains_index_def IsFiniteIndex_def)
  qed
qed

lemma inverted_no_array:
  assumes "inverted t dim maps k"
  shows "map_method (output_index_maps t ! k) = Method_constant \<or>
    (\<exists>d. map_method (output_index_maps t ! k) = Method_single_input_dimension d)"
  using assms by (auto simp: inverted_def Let_def split: output_index_method.splits)

lemma InverseTransform_inverse:
  assumes r: "InverseTransform t = Inr u" and inv: "DebugCheckInvariants t" "nonempty_dims t" "int64_offsets t"
    and x: "length x = input_rank t" "finite_vec x" and y: "length y = output_rank t" "finite_vec y"
  shows "TransformIndices t x = Inr y \<longleftrightarrow> TransformIndices u y = Inr x"
proof -
  note U = InverseTransform_Inr [OF r inv(1)]
  have fy: "IsFiniteIndex (y ! k)" if "k < output_rank t" for k using y that by (simp add: finite_vec_def)
  have fx: "IsFiniteIndex (x ! d)" if "d < input_rank t" for d using x that by (simp add: finite_vec_def)
  have single: "d < input_rank t" if "k < output_rank t" "map_method (output_index_maps t ! k) = Method_single_input_dimension d" for k d
    using invariant_mapD [OF inv(1) that(1)] that(2) by (simp add: map_invariant_def)
  note I = inverted_correct [OF inv _ U(3) fy x]
  define used where "used d \<longleftrightarrow> (\<exists>k < output_rank t. map_method (output_index_maps t ! k) = Method_single_input_dimension d)" for d
  have unused: "apply_map (output_index_maps u ! d) y = Inr (x ! d) \<longleftrightarrow>
      Contains_index (effective_interval (optionally_implicit_domain t d)) (x ! d)"
    if d: "d < input_rank t" "\<not> used d" for d
  proof -
    let ?i = "interval (optionally_implicit_domain t d)"
    have c: "output_index_maps u ! d = constant_map (inclusive_min ?i)"
      "effective_interval (optionally_implicit_domain t d) = ?i" "interval_size ?i = 1"
      using U(4) [OF d(1)] d(2) effective_explicit by (auto simp: used_def)
    have "in_int64 (inclusive_min ?i)"
      using invariant_validD [OF inv(1) d(1)]
      by (simp add: valid_interval_iff_closed ValidClosed_def index_consts)
    then show ?thesis
      using fx [OF d(1)] c
      by (auto simp: Contains_index_def inclusive_max_def IsFiniteIndex_def)
  qed
  have eq: "(in_domain t x \<and> (\<forall>k < output_rank t. apply_map (output_index_maps t ! k) x = Inr (y ! k))) \<longleftrightarrow>
        (in_domain u y \<and> (\<forall>d < input_rank t. apply_map (output_index_maps u ! d) y = Inr (x ! d)))"
    (is "?l \<longleftrightarrow> ?r")
  proof
    assume l: ?l
    have "Contains_index (effective_interval (optionally_implicit_domain u k)) (y ! k)" if k: "k < output_rank t" for k
      using inverted_no_array [OF U(3) [OF k]] I [OF k k k] l k single [OF k]
      by (auto simp: in_domain_def)
    moreover have "apply_map (output_index_maps u ! d) y = Inr (x ! d)" if d: "d < input_rank t" for d
    proof (cases "used d")
      case True
      then show ?thesis using I(1) l unfolding used_def by blast
    next
      case False
      then show ?thesis using unused [OF d] l d by (simp add: in_domain_def)
    qed
    ultimately show ?r using y(1) U(1) by (simp add: in_domain_def)
  next
    assume r': ?r
    have maps: "apply_map (output_index_maps t ! k) x = Inr (y ! k)" if k: "k < output_rank t" for k
      using inverted_no_array [OF U(3) [OF k]] I [OF k k k] r' k U(1) single [OF k]
      by (auto simp: in_domain_def)
    have "Contains_index (effective_interval (optionally_implicit_domain t d)) (x ! d)" if d: "d < input_rank t" for d
    proof (cases "used d")
      case True
      then obtain k where k: "k < output_rank t" "map_method (output_index_maps t ! k) = Method_single_input_dimension d"
        by (auto simp: used_def)
      then show ?thesis using I(1) [OF k(1) k(1) k(1) k(2)] maps [OF k(1)] r' U(1) by (simp add: in_domain_def)
    next
      case False
      then show ?thesis using unused [OF d] r' d by simp
    qed
    then show ?l using maps x(1) by (simp add: in_domain_def)
  qed
  show ?thesis
    using TransformIndices_Inr_iff [OF x(1), of y] TransformIndices_Inr_iff [of y u x] eq x(1) y(1) U(1,2) by auto
qed

end
