(* ===== verification/Index_Operation.thy ===== *)
theory Index_Operation
  imports Inverse_Transform "HOL-Library.Sublist"
begin

text \<open>
  The contract of the operations on the input dimensions of a transform
  (\<^verbatim>\<open>dim_expression.h\<close>): the documentation of each operation gives the new transform as
  \<^verbatim>\<open>existing(old position)\<close>, where the old position is computed from the new one. The locale
  states this contract per output index map, and derives that the new transform evaluates to
  what the existing one evaluates to at the old position. The theories of the operations
  interpret it.

  The arguments shared by the operations are here too: index vectors that may be scalars
  (\<^verbatim>\<open>index_vector_or_scalar.h\<close>) and selections of dimensions.
\<close>

section \<open>Arguments of the operations\<close>

text \<open>\<^verbatim>\<open>IndexVectorOrScalarView\<close>: a pointer with a size, or a scalar.\<close>

datatype index_vector_or_scalar = IndexVector "int list" | IndexScalar int

fun vector_at :: "index_vector_or_scalar \<Rightarrow> nat \<Rightarrow> int" where
  "vector_at (IndexVector v) i = v ! i"
| "vector_at (IndexScalar s) i = s"

fun CheckIndexVectorSize :: "index_vector_or_scalar \<Rightarrow> nat \<Rightarrow> unit result" where
  "CheckIndexVectorSize (IndexVector v) n = (if length v \<noteq> n then Inl InvalidArgument else Inr ())"
| "CheckIndexVectorSize (IndexScalar s) n = Inr ()"

text \<open>The selections that \<^verbatim>\<open>CheckAndNormalizeDimensions\<close> accepts.\<close>

definition valid_selection :: "nat \<Rightarrow> nat list \<Rightarrow> bool" where
  "valid_selection rank dims \<longleftrightarrow> distinct dims \<and> (\<forall>d \<in> set dims. d < rank)"

definition set_interval :: "index_interval \<Rightarrow> index_domain_dimension \<Rightarrow> index_domain_dimension" where
  "set_interval i d =
     d\<lparr>optionally_implicit_interval := (optionally_implicit_interval d)\<lparr>interval := i\<rparr>\<rparr>"

definition set_oi_interval :: "oi_interval \<Rightarrow> index_domain_dimension \<Rightarrow> index_domain_dimension" where
  "set_oi_interval oi d = d\<lparr>optionally_implicit_interval := oi\<rparr>"

lemma oi_set_interval [simp]:
  "optionally_implicit_interval (set_interval i d) = (optionally_implicit_interval d)\<lparr>interval := i\<rparr>"
  "label (set_interval i d) = label d"
  by (simp_all add: set_interval_def)

lemma oi_set_oi_interval [simp]:
  "optionally_implicit_interval (set_oi_interval oi d) = oi" "label (set_oi_interval oi d) = label d"
  by (simp_all add: set_oi_interval_def)

lemma invariants_iff:
  "DebugCheckInvariants t \<longleftrightarrow>
     labels_unique (map label (input_dims t)) \<and>
     (\<forall>d \<in> set (input_dims t). valid_interval (interval (optionally_implicit_interval d))) \<and>
     (\<forall>m \<in> set (output_index_maps t). map_invariant t m)"
  by (simp add: DebugCheckInvariants_def Let_def valid_interval_def)

lemma Contains_index_iff: "Contains_index i v \<longleftrightarrow> IsFiniteIndex v \<and> in_bounds i v"
proof (cases "IsFiniteIndex v")
  case True
  then show ?thesis using in_bounds_finite_iff [OF True, of i] by (simp add: interval_indices_def)
qed (auto simp: Contains_index_def IsFiniteIndex_def)

lemma finite_vec_nth: "finite_vec x \<longleftrightarrow> (\<forall>i < length x. IsFiniteIndex (x ! i))"
  by (simp add: finite_vec_def all_set_conv_all_nth)

lemma in_domain_iff:
  "in_domain t x \<longleftrightarrow>
     length x = input_rank t \<and> finite_vec x \<and>
     (\<forall>i < input_rank t. in_bounds (effective_interval (optionally_implicit_domain t i)) (x ! i))"
  by (auto simp: in_domain_def finite_vec_nth Contains_index_iff)

lemma explicitly_empty_iff:
  "IsDomainExplicitlyEmpty t \<longleftrightarrow>
     (\<exists>d < input_rank t. \<not> implicit_dimension (optionally_implicit_domain t d) \<and>
        interval_size (interval (optionally_implicit_domain t d)) = 0)"
  unfolding IsDomainExplicitlyEmpty_def optionally_implicit_domain_def input_rank_def Bex_def in_set_conv_nth
  by blast

lemma valid_empty_finite: "valid_interval i \<Longrightarrow> interval_size i = 0 \<Longrightarrow> IsFinite_interval i"
  by (auto simp: valid_interval_def ValidSized_def IsFinite_interval_def inclusive_max_def index_consts)

lemma invariant_interval:
  "DebugCheckInvariants t \<Longrightarrow> d < input_rank t \<Longrightarrow> valid_interval (interval (optionally_implicit_domain t d))"
  by (simp add: invariants_iff input_rank_def optionally_implicit_domain_def)

lemma invariant_map: "DebugCheckInvariants t \<Longrightarrow> k < output_rank t \<Longrightarrow> map_invariant t (output_index_maps t ! k)"
  by (simp add: invariants_iff output_rank_def)

lemma invariantsI:
  assumes "labels_unique (map label (input_dims t))"
    and "\<And>d. d < input_rank t \<Longrightarrow> valid_interval (interval (optionally_implicit_domain t d))"
    and "\<And>k. k < output_rank t \<Longrightarrow> map_invariant t (output_index_maps t ! k)"
  shows "DebugCheckInvariants t"
  using assms
  by (auto simp: invariants_iff in_set_conv_nth input_rank_def output_rank_def optionally_implicit_domain_def)

definition array_dims_ok :: "index_domain_dimension list \<Rightarrow> int list \<Rightarrow> bool" where
  "array_dims_ok dims strides \<longleftrightarrow>
     list_all2 (\<lambda>d s. s \<noteq> 0 \<longrightarrow>
        IsFinite_interval (interval (optionally_implicit_interval d)) \<and>
        \<not> implicit_dimension (optionally_implicit_interval d)) dims strides"

lemma map_invariant_array:
  "map_method m = Method_array a \<Longrightarrow>
     map_invariant t m \<longleftrightarrow> map_stride m \<noteq> 0 \<and> \<not> IsDomainExplicitlyEmpty t \<and>
       array_dims_ok (input_dims t) (byte_strides a)"
  by (auto simp: map_invariant_def array_dims_ok_def list_all2_conv_all_nth input_rank_def optionally_implicit_domain_def)

lemma in_domain_list_all2:
  "in_domain t x \<longleftrightarrow>
     list_all2 (\<lambda>d v. Contains_index (effective_interval (optionally_implicit_interval d)) v) (input_dims t) x"
  by (auto simp: in_domain_def list_all2_conv_all_nth input_rank_def optionally_implicit_domain_def)

lemma subseq_distinct: "subseq xs ys \<Longrightarrow> distinct ys \<Longrightarrow> distinct xs"
  by (auto simp: subseq_conv_nths)

lemma labels_unique_sublist: "labels_unique ls \<Longrightarrow> subseq ls' ls \<Longrightarrow> labels_unique ls'"
  unfolding labels_unique_def using subseq_filter [of ls' ls "\<lambda>s. s \<noteq> []"] subseq_distinct by blast

text \<open>A checked product followed by a checked sum or difference, as the operations write it.\<close>

lemma checked_mul_add:
  "(case MulOverflow a b of (o1, v) \<Rightarrow> case AddOverflow v c of (o2, w) \<Rightarrow> if o1 \<or> o2 then Inl e else Inr (f w)) = Inr r \<longleftrightarrow>
     in_int64 (a * b) \<and> in_int64 (a * b + c) \<and> r = f (a * b + c)"
  by (auto simp: MulOverflow_def AddOverflow_def wrap_Multiply_def wrap_Add_def Let_def split: if_splits)

lemma checked_mul_sub:
  "(case MulOverflow a b of (o1, v) \<Rightarrow> case SubOverflow c v of (o2, w) \<Rightarrow> if o1 \<or> o2 then Inl e else Inr (f w)) = Inr r \<longleftrightarrow>
     in_int64 (a * b) \<and> in_int64 (c - a * b) \<and> r = f (c - a * b)"
  by (auto simp: MulOverflow_def SubOverflow_def wrap_Multiply_def wrap_Subtract_def Let_def split: if_splits)

lemma ReplaceZeroRank_apply:
  assumes "ReplaceZeroRankIndexArrayIndexMap index bounds off st = Inr (off', st')"
  shows "Contains_index bounds index \<and> st' = 0 \<and> off' = index * st + off \<and> in_int64 off'"
  using assms
  by (auto simp: ReplaceZeroRankIndexArrayIndexMap_def bind_result_Inr_iff CheckContains_def checked_mul_add
      Let_def split: if_splits)

section \<open>The contract\<close>

text \<open>\<open>u\<close> is \<open>t\<close> read through the function \<open>pos\<close> from new to old positions.\<close>

definition reads_through :: "transform_rep \<Rightarrow> transform_rep \<Rightarrow> (int list \<Rightarrow> int list) \<Rightarrow> bool" where
  "reads_through u t pos \<longleftrightarrow>
     output_rank u = output_rank t \<and> DebugCheckInvariants u \<and>
     (\<forall>x. in_domain u x \<longrightarrow> finite_vec (pos x) \<longrightarrow> in_domain t (pos x)) \<and>
     (\<forall>x k. in_domain u x \<longrightarrow> k < output_rank t \<longrightarrow>
        apply_map (output_index_maps u ! k) x = apply_map (output_index_maps t ! k) (pos x))"

lemma reads_through_evaluates:
  assumes "reads_through u t pos" "in_domain u x" "finite_vec (pos x)"
  shows "TransformIndices u x = TransformIndices t (pos x)"
  using assms by (intro TransformIndices_cong) (auto simp: reads_through_def output_rank_def)

locale index_operation =
  fixes operation :: "'p \<Rightarrow> transform_rep \<Rightarrow> transform_rep result"
    and admissible :: "'p \<Rightarrow> transform_rep \<Rightarrow> bool"
    and old_position :: "'p \<Rightarrow> transform_rep \<Rightarrow> int list \<Rightarrow> int list"
  assumes operation_output_rank:
      "\<lbrakk>operation p t = Inr u; admissible p t\<rbrakk> \<Longrightarrow> output_rank u = output_rank t"
    and operation_domain:
      "\<lbrakk>operation p t = Inr u; admissible p t; in_domain u x; finite_vec (old_position p t x)\<rbrakk> \<Longrightarrow>
         in_domain t (old_position p t x)"
    and operation_map:
      "\<lbrakk>operation p t = Inr u; admissible p t; in_domain u x; k < output_rank t\<rbrakk> \<Longrightarrow>
         apply_map (output_index_maps u ! k) x = apply_map (output_index_maps t ! k) (old_position p t x)"
    and operation_invariants:
      "\<lbrakk>operation p t = Inr u; admissible p t\<rbrakk> \<Longrightarrow> DebugCheckInvariants u"
begin

lemma operation_reads_through:
  assumes "operation p t = Inr u" "admissible p t"
  shows "reads_through u t (old_position p t)"
  using assms operation_output_rank operation_domain operation_map operation_invariants
  unfolding reads_through_def by blast

lemma operation_evaluates:
  assumes "operation p t = Inr u" "admissible p t" "in_domain u x" "finite_vec (old_position p t x)"
  shows "TransformIndices u x = TransformIndices t (old_position p t x)"
  by (rule reads_through_evaluates [OF operation_reads_through [OF assms(1,2)] assms(3,4)])

end

end
