(* ===== verification/Translate_Op.thy ===== *)
theory Translate_Op
  imports Index_Operation
begin

text \<open>
  \<^verbatim>\<open>translate_op.cc\<close>: the operations \<^verbatim>\<open>TranslateTo\<close>, \<^verbatim>\<open>TranslateBy\<close> and
  \<^verbatim>\<open>TranslateBackwardBy\<close>, which shift the domains of the selected dimensions and adjust the
  output index maps, so that the new transform at a position is the existing one at the position
  less the offsets.
\<close>

section \<open>translate\_op.cc\<close>

datatype translate_op_kind = kTranslateTo | kTranslateBy | kTranslateBackwardBy

definition translate_output_map :: "int list \<Rightarrow> output_index_map \<Rightarrow> output_index_map result" where
  "translate_output_map input_offsets m =
     (case map_method m of
        Method_constant \<Rightarrow> Inr m
      | Method_single_input_dimension d \<Rightarrow>
          (let (mul_overflow, new_offset) = MulOverflow (input_offsets ! d) (map_stride m);
               (sub_overflow, off) = SubOverflow (map_offset m) new_offset
           in if mul_overflow \<or> sub_overflow then Inl InvalidArgument else Inr (m\<lparr>map_offset := off\<rparr>))
      | Method_array a \<Rightarrow>
          Inr (m\<lparr>map_method := Method_array
                   (a\<lparr>element_pointer := AddByteOffset (element_pointer a)
                        (- InnerProduct (byte_strides a) input_offsets)\<rparr>)\<rparr>))"

definition TranslateOutputOffsetsUsingInputOffsets ::
  "transform_rep \<Rightarrow> int list \<Rightarrow> transform_rep result" where
  "TranslateOutputOffsetsUsingInputOffsets t input_offsets =
     bind_result (map_result (translate_output_map input_offsets) (output_index_maps t))
       (\<lambda>maps. Inr (t\<lparr>output_index_maps := maps\<rparr>))"

definition translate_interval ::
  "translate_op_kind \<Rightarrow> index_interval \<Rightarrow> int \<Rightarrow> (index_interval \<times> int) result" where
  "translate_interval kind old_interval offset =
     (case kind of
        kTranslateTo \<Rightarrow>
          bind_result (ShiftIntervalTo old_interval offset)
            (\<lambda>new_interval. Inr (new_interval, inclusive_min new_interval - inclusive_min old_interval))
      | kTranslateBy \<Rightarrow>
          bind_result (ShiftInterval old_interval offset) (\<lambda>new_interval. Inr (new_interval, offset))
      | kTranslateBackwardBy \<Rightarrow>
          bind_result (ShiftInterval old_interval (- offset)) (\<lambda>new_interval. Inr (new_interval, - offset)))"

fun translate_loop ::
  "translate_op_kind \<Rightarrow> (nat \<times> int) list \<Rightarrow> index_domain_dimension list \<times> int list \<Rightarrow>
     (index_domain_dimension list \<times> int list) result" where
  "translate_loop kind [] s = Inr s"
| "translate_loop kind ((input_dim, offset) # ps) (dims, input_offsets) =
     (if offset = kImplicit then translate_loop kind ps (dims, input_offsets)
      else
        bind_result
          (translate_interval kind (interval (optionally_implicit_interval (dims ! input_dim))) offset)
          (\<lambda>(new_interval, off).
             translate_loop kind ps
               (dims[input_dim := set_interval new_interval (dims ! input_dim)],
                input_offsets[input_dim := off])))"

definition selected_offsets :: "nat list \<Rightarrow> index_vector_or_scalar \<Rightarrow> (nat \<times> int) list" where
  "selected_offsets dimensions offsets =
     zip dimensions (map (vector_at offsets) [0..<length dimensions])"

definition ApplyTranslate ::
  "transform_rep \<Rightarrow> nat list \<Rightarrow> index_vector_or_scalar \<Rightarrow> translate_op_kind \<Rightarrow> bool \<Rightarrow> transform_rep result" where
  "ApplyTranslate t dimensions offsets kind domain_only =
     bind_result (CheckIndexVectorSize offsets (length dimensions)) (\<lambda>_.
       let rep = MutableRep t domain_only
       in bind_result
            (translate_loop kind (selected_offsets dimensions offsets)
               (input_dims rep, replicate (input_rank rep) 0))
            (\<lambda>(dims, input_offsets).
               TranslateOutputOffsetsUsingInputOffsets (rep\<lparr>input_dims := dims\<rparr>) input_offsets))"

section \<open>What the shifts do to the bounds\<close>

definition shifted_by :: "int \<Rightarrow> index_interval \<Rightarrow> index_interval \<Rightarrow> bool" where
  "shifted_by off i j \<longleftrightarrow>
     valid_interval j \<and>
     inclusive_min j = (if inclusive_min i = - kInfIndex then - kInfIndex else inclusive_min i + off) \<and>
     (inclusive_min i \<noteq> - kInfIndex \<longrightarrow> inclusive_min j \<noteq> - kInfIndex) \<and>
     inclusive_max j = (if inclusive_max i = kInfIndex then kInfIndex else inclusive_max i + off) \<and>
     (inclusive_max i \<noteq> kInfIndex \<longrightarrow> inclusive_max j \<noteq> kInfIndex)"

lemma shifted_by_zero: "valid_interval i \<Longrightarrow> shifted_by 0 i i"
  by (simp add: shifted_by_def)

lemma ShiftInterval_shifted:
  assumes "valid_interval i" "ShiftInterval i off = Inr j"
  shows "shifted_by off i j"
proof -
  have "valid_interval j" by (rule valid_ShiftInterval [OF assms])
  then show ?thesis
    using assms(2) unfolding ShiftInterval_Inr shifted_by_def
    by (auto simp: IsFiniteIndex_def index_consts)
qed

lemma translate_interval_shifted:
  assumes v: "valid_interval i" and r: "translate_interval kind i offset = Inr (j, off)"
  shows "shifted_by off i j"
proof (cases kind)
  case kTranslateTo
  then have to: "ShiftIntervalTo i offset = Inr j" and off: "off = inclusive_min j - inclusive_min i"
    using r by (auto simp: translate_interval_def bind_result_Inr_iff)
  then have s: "ShiftInterval i (snd (SubOverflow offset (inclusive_min i))) = Inr j"
    and m: "inclusive_min i \<noteq> - kInfIndex"
    by (auto simp: ShiftIntervalTo_def split: if_splits)
  have "shifted_by (snd (SubOverflow offset (inclusive_min i))) i j"
    by (rule ShiftInterval_shifted [OF v s])
  then show ?thesis using m off by (auto simp: shifted_by_def split: if_splits)
qed (use assms in \<open>auto simp: translate_interval_def bind_result_Inr_iff intro: ShiftInterval_shifted\<close>)

lemma shifted_by_effective:
  assumes "shifted_by off (interval oi) j"
  shows "in_bounds (effective_interval (oi\<lparr>interval := j\<rparr>)) x \<longleftrightarrow>
         in_bounds (effective_interval oi) (x - off)"
  using assms by (auto simp: in_bounds_def effective_interval_def shifted_by_def)

lemma shifted_by_finite: "shifted_by off i j \<Longrightarrow> IsFinite_interval j \<longleftrightarrow> IsFinite_interval i"
  by (auto simp: IsFinite_interval_def shifted_by_def)

lemma shifted_by_size: "shifted_by off i j \<Longrightarrow> IsFinite_interval i \<Longrightarrow> interval_size j = interval_size i"
  by (auto simp: IsFinite_interval_def shifted_by_def interval_size_eq)


section \<open>The documented offsets\<close>

text \<open>The offset of a dimension with old interval \<open>i\<close>, and the \<^verbatim>\<open>full_offsets\<close> vector of the
  documentation of the three operations in \<^verbatim>\<open>dim_expression.h\<close>.\<close>

definition dimension_offset :: "translate_op_kind \<Rightarrow> index_interval \<Rightarrow> int option \<Rightarrow> int" where
  "dimension_offset kind i off =
     (case off of
        None \<Rightarrow> 0
      | Some v \<Rightarrow>
          if v = kImplicit then 0
          else case kind of
            kTranslateTo \<Rightarrow> v - inclusive_min i
          | kTranslateBy \<Rightarrow> v
          | kTranslateBackwardBy \<Rightarrow> - v)"

definition full_offsets ::
  "translate_op_kind \<Rightarrow> nat list \<Rightarrow> index_vector_or_scalar \<Rightarrow> transform_rep \<Rightarrow> int list" where
  "full_offsets kind dimensions offsets t =
     map (\<lambda>d. dimension_offset kind (interval (optionally_implicit_domain t d))
                 (map_of (selected_offsets dimensions offsets) d)) [0..<input_rank t]"

lemma translate_interval_offset:
  assumes "valid_interval i" "offset \<noteq> kImplicit" "translate_interval kind i offset = Inr (j, off)"
  shows "off = dimension_offset kind i (Some offset)"
  using assms ShiftIntervalTo_Inr(1) [of i offset]
  by (cases kind) (auto simp: translate_interval_def dimension_offset_def bind_result_Inr_iff)

lemma set_interval_same [simp]: "set_interval (interval (optionally_implicit_interval d)) d = d"
  by (simp add: set_interval_def)

lemma translate_loop_Inr:
  assumes "translate_loop kind ps (dims, offs) = Inr (dims', offs')"
    and "distinct (map fst ps)" "length offs = length dims" "d < length dims"
    and "valid_interval (interval (optionally_implicit_interval (dims ! d)))"
    and "d \<in> fst ` set ps \<Longrightarrow> offs ! d = 0"
  shows "length dims' = length dims \<and> length offs' = length dims \<and>
    offs' ! d = offs ! d + dimension_offset kind (interval (optionally_implicit_interval (dims ! d))) (map_of ps d) \<and>
    (\<exists>j. dims' ! d = set_interval j (dims ! d) \<and>
         shifted_by (offs' ! d - offs ! d) (interval (optionally_implicit_interval (dims ! d))) j)"
  using assms
proof (induction kind ps "(dims, offs)" arbitrary: dims offs rule: translate_loop.induct)
  case (1 kind dims offs)
  then show ?case
    by (auto simp: dimension_offset_def intro!: exI [of _ "interval (optionally_implicit_interval (dims ! d))"]
        shifted_by_zero)
next
  case (2 kind e off ps dims offs)
  let ?i = "interval (optionally_implicit_interval (dims ! d))"
  show ?case
  proof (cases "off = kImplicit")
    case True
    have "e \<noteq> d \<or> map_of ps d = None"
      using "2.prems"(2) by (auto simp: map_of_eq_None_iff)
    then show ?thesis
      using "2.hyps"(1) [OF True] "2.prems" True by (auto simp: dimension_offset_def)
  next
    case False
    then obtain j off' where r: "translate_interval kind (interval (optionally_implicit_interval (dims ! e))) off = Inr (j, off')"
      and rest: "translate_loop kind ps (dims[e := set_interval j (dims ! e)], offs[e := off']) = Inr (dims', offs')"
      using "2.prems"(1) by (auto simp: bind_result_Inr_iff)
    show ?thesis
    proof (cases "e = d")
      case True
      have n: "d \<notin> fst ` set ps" "map_of ps d = None"
        using "2.prems"(2) True by (auto simp: map_of_eq_None_iff)
      have s: "shifted_by off' ?i j" and o': "off' = dimension_offset kind ?i (Some off)"
        using translate_interval_shifted translate_interval_offset False r "2.prems"(5) True by auto
      have "valid_interval j" using s by (simp add: shifted_by_def)
      then have IH: "length dims' = length dims \<and> length offs' = length dims \<and> offs' ! d = off' \<and>
          (\<exists>k. dims' ! d = set_interval k (set_interval j (dims ! d)) \<and> shifted_by 0 j k)"
        using "2.hyps"(2) [OF False rest] "2.prems" True n by (auto simp: dimension_offset_def)
      then obtain k where k: "dims' ! d = set_interval k (set_interval j (dims ! d))" "shifted_by 0 j k" by auto
      then have "k = j" by (auto simp: shifted_by_def intro!: interval_eqI split: if_splits)
      then show ?thesis using IH k s o' True "2.prems"(6)
        by (auto simp: set_interval_def)
    next
      case ne: False
      then show ?thesis
        using "2.hyps"(2) [OF False rest] "2.prems" by auto
    qed
  qed
qed


section \<open>The contract of the operation\<close>

lemma dot_diff:
  fixes a b c :: "int list"
  assumes "length a = length c" "length b = length c"
  shows "sum_list (map2 (*) (map2 (-) a b) c) = sum_list (map2 (*) a c) - sum_list (map2 (*) b c)"
  using assms
proof (induction c arbitrary: a b)
  case (Cons c cs)
  then show ?case by (cases a; cases b) (auto simp: algebra_simps)
qed simp

lemma shifted_pointer:
  assumes "length x = length s" "length offs = length s"
  shows "AddByteOffset ptr (- InnerProduct s offs) (InnerProduct x s) = ptr (InnerProduct (map2 (-) x offs) s)"
proof -
  have "weq (- InnerProduct offs s + InnerProduct x s)
      (- sum_list (map2 (*) offs s) + sum_list (map2 (*) x s))"
    unfolding InnerProduct_eq by (intro weq_add weq_minus weq_wrap)
  then have "wrap_index (InnerProduct x s - InnerProduct offs s) =
      wrap_index (sum_list (map2 (*) x s) - sum_list (map2 (*) offs s))"
    by (simp add: wrap_index_eq_weq)
  then show ?thesis
    using assms by (simp add: AddByteOffset_def InnerProduct_commute [of s] wrap_Add_def dot_diff
        InnerProduct_eq [of "map2 (-) x offs"])
qed

lemma translate_output_map_Inr:
  assumes r: "translate_output_map offs m = Inr m'" and m: "map_fits n m" and l: "length x = n" "length offs = n"
  shows "apply_map m' x = apply_map m (map2 (-) x offs)"
proof (cases "map_method m")
  case Method_constant
  then show ?thesis using r by (simp add: translate_output_map_def apply_map_def)
next
  case (Method_single_input_dimension d)
  then have d: "d < n" using m by (simp add: map_fits_def)
  have m': "m' = m\<lparr>map_offset := map_offset m - offs ! d * map_stride m\<rparr>"
    using r Method_single_input_dimension by (simp add: translate_output_map_def checked_mul_sub)
  show ?thesis
    using d l Method_single_input_dimension
    by (simp add: m' apply_map_eq map_in_range_def map_value_def base_value_def algebra_simps)
next
  case (Method_array a)
  have "element_pointer a (InnerProduct (map2 (-) x offs) (byte_strides a)) =
      AddByteOffset (element_pointer a) (- InnerProduct (byte_strides a) offs) (InnerProduct x (byte_strides a))"
    using m l Method_array by (simp add: shifted_pointer map_fits_def)
  moreover have "m' = m\<lparr>map_method := Method_array
      (a\<lparr>element_pointer := AddByteOffset (element_pointer a) (- InnerProduct (byte_strides a) offs)\<rparr>)\<rparr>"
    using r Method_array by (simp add: translate_output_map_def)
  ultimately show ?thesis
    using Method_array by (simp add: apply_map_def)
qed

lemma ApplyTranslate_Inr:
  assumes r: "ApplyTranslate t dims offsets kind False = Inr u"
    and sel: "valid_selection (input_rank t) dims" and inv: "DebugCheckInvariants t"
  obtains "input_rank u = input_rank t" "output_rank u = output_rank t"
    "\<And>k. k < output_rank t \<Longrightarrow>
       translate_output_map (full_offsets kind dims offsets t) (output_index_maps t ! k) =
       Inr (output_index_maps u ! k)"
    "\<And>d. d < input_rank t \<Longrightarrow> \<exists>j. input_dims u ! d = set_interval j (input_dims t ! d) \<and>
       shifted_by (full_offsets kind dims offsets t ! d) (interval (optionally_implicit_domain t d)) j"
proof -
  obtain ds offs where l: "translate_loop kind (selected_offsets dims offsets)
      (input_dims t, replicate (input_rank t) 0) = Inr (ds, offs)"
    and u: "TranslateOutputOffsetsUsingInputOffsets (t\<lparr>input_dims := ds\<rparr>) offs = Inr u"
    using r by (auto simp: ApplyTranslate_def MutableRep_def Let_def bind_result_Inr_iff)
  have sel': "distinct (map fst (selected_offsets dims offsets))"
    using sel by (simp add: selected_offsets_def valid_selection_def)
  have loop: "length ds = input_rank t \<and> length offs = input_rank t \<and>
      offs ! d = full_offsets kind dims offsets t ! d \<and>
      (\<exists>j. ds ! d = set_interval j (input_dims t ! d) \<and>
         shifted_by (full_offsets kind dims offsets t ! d) (interval (optionally_implicit_domain t d)) j)"
    if d: "d < input_rank t" for d
  proof -
    have "valid_interval (interval (optionally_implicit_interval (input_dims t ! d)))"
      using inv d by (simp add: invariants_iff input_rank_def)
    then show ?thesis
      using translate_loop_Inr [OF l sel', of d] d
      by (fastforce simp: full_offsets_def input_rank_def optionally_implicit_domain_def)
  qed
  have len: "length ds = input_rank t \<and> length offs = input_rank t"
  proof (cases "input_rank t = 0")
    case True
    have "length ds = length (input_dims t) \<and> length offs = length (input_dims t)"
      using l True sel by (auto simp: selected_offsets_def valid_selection_def input_rank_def)
    then show ?thesis by (simp add: input_rank_def)
  qed (use loop in blast)
  have offs: "offs = full_offsets kind dims offsets t"
    using len loop by (intro nth_equalityI) (auto simp: full_offsets_def)
  show ?thesis
  proof (rule that)
    show "input_rank u = input_rank t" "output_rank u = output_rank t"
      using u len by (auto simp: TranslateOutputOffsetsUsingInputOffsets_def bind_result_Inr_iff
          map_result_Inr_iff input_rank_def output_rank_def)
    show "translate_output_map (full_offsets kind dims offsets t) (output_index_maps t ! k) =
       Inr (output_index_maps u ! k)" if "k < output_rank t" for k
      using u that offs by (auto simp: TranslateOutputOffsetsUsingInputOffsets_def bind_result_Inr_iff
          map_result_Inr_iff output_rank_def)
    show "\<exists>j. input_dims u ! d = set_interval j (input_dims t ! d) \<and>
       shifted_by (full_offsets kind dims offsets t ! d) (interval (optionally_implicit_domain t d)) j"
      if "d < input_rank t" for d
      using u loop [OF that] by (auto simp: TranslateOutputOffsetsUsingInputOffsets_def bind_result_Inr_iff)
  qed
qed


lemma ApplyTranslate_domain:
  assumes r: "ApplyTranslate t dims offsets kind False = Inr u"
    and a: "valid_selection (input_rank t) dims" "DebugCheckInvariants t"
    and x: "finite_vec x" "finite_vec (map2 (-) x (full_offsets kind dims offsets t))" "length x = input_rank t"
  shows "in_domain u x \<longleftrightarrow> in_domain t (map2 (-) x (full_offsets kind dims offsets t))"
proof (rule ApplyTranslate_Inr [OF r a])
  assume u: "input_rank u = input_rank t"
    and dims: "\<And>d. d < input_rank t \<Longrightarrow> \<exists>j. input_dims u ! d = set_interval j (input_dims t ! d) \<and>
       shifted_by (full_offsets kind dims offsets t ! d) (interval (optionally_implicit_domain t d)) j"
  have "in_bounds (effective_interval (optionally_implicit_domain u d)) (x ! d) \<longleftrightarrow>
      in_bounds (effective_interval (optionally_implicit_domain t d)) (x ! d - full_offsets kind dims offsets t ! d)"
    if "d < input_rank t" for d
    using dims [OF that] by (auto simp: optionally_implicit_domain_def shifted_by_effective)
  then show ?thesis using x u by (auto simp: in_domain_iff full_offsets_def)
qed

lemma shifted_by_empty:
  assumes "shifted_by off i j" "valid_interval i"
  shows "interval_size j = 0 \<longleftrightarrow> interval_size i = 0"
proof -
  have "valid_interval j" using assms(1) by (simp add: shifted_by_def)
  then show ?thesis
    using assms(2) valid_empty_finite shifted_by_size [OF assms(1)] shifted_by_finite [OF assms(1)] by metis
qed

lemma ApplyTranslate_invariants:
  assumes r: "ApplyTranslate t dims offsets kind False = Inr u"
    and sel: "valid_selection (input_rank t) dims" and inv: "DebugCheckInvariants t"
  shows "DebugCheckInvariants u"
proof (rule ApplyTranslate_Inr [OF r sel inv])
  let ?off = "full_offsets kind dims offsets t"
  assume u: "input_rank u = input_rank t" "output_rank u = output_rank t"
    and maps: "\<And>k. k < output_rank t \<Longrightarrow>
       translate_output_map ?off (output_index_maps t ! k) = Inr (output_index_maps u ! k)"
    and dims: "\<And>d. d < input_rank t \<Longrightarrow> \<exists>j. input_dims u ! d = set_interval j (input_dims t ! d) \<and>
       shifted_by (?off ! d) (interval (optionally_implicit_domain t d)) j"
  have dim: "implicit_dimension (optionally_implicit_domain u d) = implicit_dimension (optionally_implicit_domain t d)"
    "IsFinite_interval (interval (optionally_implicit_domain u d)) =
       IsFinite_interval (interval (optionally_implicit_domain t d))"
    "interval_size (interval (optionally_implicit_domain u d)) = 0 \<longleftrightarrow>
       interval_size (interval (optionally_implicit_domain t d)) = 0"
    "valid_interval (interval (optionally_implicit_domain u d))"
    "label (input_dims u ! d) = label (input_dims t ! d)" if d: "d < input_rank t" for d
    using dims [OF d] invariant_interval [OF inv d]
    by (auto simp: optionally_implicit_domain_def implicit_dimension_def shifted_by_finite shifted_by_empty)
       (simp add: shifted_by_def)
  have empty: "IsDomainExplicitlyEmpty u \<longleftrightarrow> IsDomainExplicitlyEmpty t"
    using dim u by (auto simp: explicitly_empty_iff)
  show ?thesis
  proof (rule invariantsI)
    have "map label (input_dims u) = map label (input_dims t)"
      using u dim(5) by (intro nth_equalityI) (auto simp: input_rank_def)
    then show "labels_unique (map label (input_dims u))" using inv by (simp add: invariants_iff)
    show "valid_interval (interval (optionally_implicit_domain u d))" if "d < input_rank u" for d
      using dim(4) that u by simp
    show "map_invariant u (output_index_maps u ! k)" if k: "k < output_rank u" for k
    proof (cases "map_method (output_index_maps t ! k)")
      case (Method_array a)
      then have "output_index_maps u ! k = (output_index_maps t ! k)\<lparr>map_method := Method_array
          (a\<lparr>element_pointer := AddByteOffset (element_pointer a) (- InnerProduct (byte_strides a) ?off)\<rparr>)\<rparr>"
        using maps [of k] k u by (simp add: translate_output_map_def)
      then show ?thesis
        using invariant_map [OF inv, of k] Method_array k u dim(1,2) empty by (simp add: map_invariant_def)
    qed (use maps [of k] invariant_map [OF inv, of k] k u in
          \<open>auto simp: map_invariant_def translate_output_map_def checked_mul_sub\<close>)
  qed
qed

type_synonym translate_args = "nat list \<times> index_vector_or_scalar \<times> translate_op_kind"

interpretation translate: index_operation
  "\<lambda>(dims, offsets, kind) t. ApplyTranslate t dims offsets kind False"
  "\<lambda>(dims, offsets, kind) t. valid_selection (input_rank t) dims \<and> DebugCheckInvariants t"
  "\<lambda>(dims, offsets, kind) t x. map2 (-) x (full_offsets kind dims offsets t)"
proof (unfold_locales, goal_cases)
  case (1 p t u)
  then show ?case by (cases p) (auto elim: ApplyTranslate_Inr)
next
  case (2 p t u x)
  obtain dims offsets kind where p: "p = (dims, offsets, kind)" by (cases p)
  have r: "ApplyTranslate t dims offsets kind False = Inr u"
    and a: "valid_selection (input_rank t) dims" "DebugCheckInvariants t" using 2 by (simp_all add: p)
  have "input_rank u = input_rank t" by (rule ApplyTranslate_Inr [OF r a])
  then show ?case
    using 2 ApplyTranslate_domain [OF r a, of x] in_domain_iff [of u x] by (simp add: p)
next
  case (3 p t u x k)
  obtain dims offsets kind where p: "p = (dims, offsets, kind)" by (cases p)
  have r: "ApplyTranslate t dims offsets kind False = Inr u"
    and a: "valid_selection (input_rank t) dims" "DebugCheckInvariants t" using 3 by (simp_all add: p)
  show ?case
    unfolding p prod.case
    by (rule ApplyTranslate_Inr [OF r a])
       (use 3 invariant_map [OF a(2)] in
         \<open>auto intro!: translate_output_map_Inr [of _ _ _ "input_rank t"] map_invariant_fits
            simp: in_domain_def full_offsets_def\<close>)
next
  case (4 p t u)
  then show ?case by (cases p) (auto intro: ApplyTranslate_invariants)
qed

end
