(* ===== verification/Slice_Ops.thy ===== *)
theory Slice_Ops
  imports Translate_Op
begin

text \<open>
  \<^verbatim>\<open>single_index_slice_op.cc\<close>: \<^verbatim>\<open>IndexSlice\<close> fixes the selected dimensions at given indices and
  removes them.
\<close>

section \<open>single\_index\_slice\_op.cc\<close>

text \<open>An \<^verbatim>\<open>InputDimensionSingletonSliceInfo\<close> is the new dimension (\<open>None\<close> for \<open>-1\<close>, a dimension
  that is sliced) and the index.\<close>

type_synonym singleton_slice_info = "nat option \<times> int"

fun mark_sliced :: "(nat \<times> int) list \<Rightarrow> int option list \<Rightarrow> int option list" where
  "mark_sliced [] slices = slices"
| "mark_sliced ((original_input_dim, index) # ps) slices =
     mark_sliced ps (slices[original_input_dim := Some index])"

fun number_dims :: "nat \<Rightarrow> int option list \<Rightarrow> singleton_slice_info list" where
  "number_dims new_input_dim [] = []"
| "number_dims new_input_dim (Some index # slices) = (None, index) # number_dims new_input_dim slices"
| "number_dims new_input_dim (None # slices) = (Some new_input_dim, 0) # number_dims (Suc new_input_dim) slices"

definition GetSingletonSlicingInfo ::
  "transform_rep \<Rightarrow> nat list \<Rightarrow> index_vector_or_scalar \<Rightarrow> singleton_slice_info list result" where
  "GetSingletonSlicingInfo original dimensions indices =
     bind_result (CheckIndexVectorSize indices (length dimensions)) (\<lambda>_.
       if \<exists>(d, index) \<in> set (selected_offsets dimensions indices).
            \<not> Contains_index (effective_interval (optionally_implicit_domain original d)) index
       then Inl OutOfRange
       else Inr (number_dims 0 (mark_sliced (selected_offsets dimensions indices)
                                  (replicate (input_rank original) None))))"

fun slice_array_loop ::
  "singleton_slice_info list \<Rightarrow> int list \<Rightarrow> int \<times> int list \<times> bool \<Rightarrow> int \<times> int list \<times> bool" where
  "slice_array_loop ((None, index) # infos) (byte_stride # ss) (array_byte_offset, new_strides, nonzero) =
     slice_array_loop infos ss
       (wrap_Add array_byte_offset (wrap_Multiply byte_stride index), new_strides, nonzero)"
| "slice_array_loop ((Some new_dim, _) # infos) (byte_stride # ss) (array_byte_offset, new_strides, nonzero) =
     slice_array_loop infos ss
       (array_byte_offset, new_strides[new_dim := byte_stride], nonzero \<or> byte_stride \<noteq> 0)"
| "slice_array_loop _ _ s = s"

definition slice_output_map ::
  "singleton_slice_info list \<Rightarrow> nat \<Rightarrow> bool \<Rightarrow> output_index_map \<Rightarrow> output_index_map result" where
  "slice_output_map infos new_rank domain_is_explicitly_empty m =
     (case map_method m of
        Method_constant \<Rightarrow> Inr (constant_map (map_offset m))
      | Method_single_input_dimension d \<Rightarrow>
          (case infos ! d of
             (None, index) \<Rightarrow>
               (let (mul_overflow, v) = MulOverflow index (map_stride m);
                    (add_overflow, new_offset) = AddOverflow v (map_offset m)
                in if mul_overflow \<or> add_overflow then Inl InvalidArgument else Inr (constant_map new_offset))
           | (Some new_dim, _) \<Rightarrow> Inr (m\<lparr>map_method := Method_single_input_dimension new_dim\<rparr>))
      | Method_array a \<Rightarrow>
          if domain_is_explicitly_empty then Inr (constant_map 0)
          else
            (let (array_byte_offset, new_strides, nonzero) =
                   slice_array_loop infos (byte_strides a) (0, replicate new_rank 0, False)
             in if nonzero
                then Inr (m\<lparr>map_method := Method_array
                        \<lparr>element_pointer = AddByteOffset (element_pointer a) array_byte_offset,
                         index_range = index_range a, byte_strides = new_strides\<rparr>\<rparr>)
                else bind_result
                       (ReplaceZeroRankIndexArrayIndexMap (element_pointer a array_byte_offset)
                          (index_range a) (map_offset m) (map_stride m))
                       (\<lambda>(output_offset, output_stride).
                          Inr \<lparr>map_method = Method_constant, map_offset = output_offset,
                               map_stride = output_stride\<rparr>)))"

definition PerformSingleIndexSlice ::
  "transform_rep \<Rightarrow> singleton_slice_info list \<Rightarrow> bool \<Rightarrow> transform_rep result" where
  "PerformSingleIndexSlice original infos domain_only =
     (let dims = map snd (filter (\<lambda>((new_dim, _), _). new_dim \<noteq> None) (zip infos (input_dims original)));
          new = \<lparr>input_dims = dims, output_index_maps = []\<rparr>
      in if domain_only then Inr new
         else bind_result
                (map_result (slice_output_map infos (length dims) (IsDomainExplicitlyEmpty new))
                   (output_index_maps original))
                (\<lambda>maps. Inr (new\<lparr>output_index_maps := maps\<rparr>)))"

definition ApplySingleIndexSlice ::
  "transform_rep \<Rightarrow> nat list \<Rightarrow> index_vector_or_scalar \<Rightarrow> bool \<Rightarrow> (transform_rep \<times> nat list) result" where
  "ApplySingleIndexSlice t dimensions indices domain_only =
     bind_result (GetSingletonSlicingInfo t dimensions indices) (\<lambda>infos.
       bind_result (PerformSingleIndexSlice t infos domain_only) (\<lambda>u. Inr (u, [])))"

section \<open>Positions of the slice\<close>

definition slice_position :: "singleton_slice_info list \<Rightarrow> int list \<Rightarrow> int list" where
  "slice_position infos x = map (\<lambda>(new_dim, index). case new_dim of None \<Rightarrow> index | Some k \<Rightarrow> x ! k) infos"

definition kept :: "'b option list \<Rightarrow> 'a list \<Rightarrow> 'a list" where
  "kept slices xs = map snd (filter (\<lambda>(s, _). s = None) (zip slices xs))"

lemma kept_simps [simp]:
  "kept [] xs = []" "kept (Some v # sl) (a # xs) = kept sl xs" "kept (None # sl) (a # xs) = a # kept sl xs"
  by (simp_all add: kept_def)

lemma kept_infos:
  "map snd (filter (\<lambda>((new_dim, _), _). new_dim \<noteq> None) (zip (number_dims k sl) xs)) = kept sl xs"
proof (induction k sl arbitrary: xs rule: number_dims.induct)
  case (2 k v sl)
  then show ?case by (cases xs) (auto simp: kept_def)
next
  case (3 k sl)
  then show ?case by (cases xs) (auto simp: kept_def)
qed (simp add: kept_def)

lemma length_number_dims [simp]: "length (number_dims k sl) = length sl"
  by (induction k sl rule: number_dims.induct) simp_all

lemma length_kept: "length xs = length sl \<Longrightarrow> length (kept sl xs) = length (filter (\<lambda>s. s = None) sl)"
  by (induction xs sl rule: list_induct2) (auto simp: kept_def)

fun sliced_sum :: "int option list \<Rightarrow> int list \<Rightarrow> int" where
  "sliced_sum (Some v # sl) (s # ss) = v * s + sliced_sum sl ss"
| "sliced_sum (None # sl) (s # ss) = sliced_sum sl ss"
| "sliced_sum _ _ = 0"

lemma slice_position_simps [simp]:
  "slice_position [] x = []" "slice_position ((None, v) # is) x = v # slice_position is x"
  "slice_position ((Some k, v) # is) x = x ! k # slice_position is x"
  by (simp_all add: slice_position_def)

lemma slice_position_dot:
  assumes "length ss = length sl" "length x = k + length (kept sl ss)"
  shows "sum_list (map2 (*) (slice_position (number_dims k sl) x) ss) =
    sliced_sum sl ss + sum_list (map2 (*) (drop k x) (kept sl ss))"
  using assms
proof (induction k sl arbitrary: ss rule: number_dims.induct)
  case (2 k v sl)
  then show ?case by (cases ss) (auto simp: algebra_simps)
next
  case (3 k sl)
  then obtain s ss' where ss: "ss = s # ss'" by (cases ss) auto
  have "drop k x = x ! k # drop (Suc k) x" using 3 by (simp add: ss Cons_nth_drop_Suc)
  then show ?case using 3 by (simp add: ss)
qed simp

lemma slice_position_domain:
  assumes "length ds = length sl" "length x = k + length (kept sl ds)"
  shows "list_all2 P ds (slice_position (number_dims k sl) x) \<longleftrightarrow>
    (\<forall>i < length sl. \<forall>v. sl ! i = Some v \<longrightarrow> P (ds ! i) v) \<and> list_all2 P (kept sl ds) (drop k x)"
  using assms
proof (induction k sl arbitrary: ds rule: number_dims.induct)
  case (2 k v sl)
  then obtain d ds' where ds: "ds = d # ds'" by (cases ds) auto
  show ?case using 2 by (auto simp: ds nth_Cons less_Suc_eq_0_disj split: nat.splits)
next
  case (3 k sl)
  then obtain d ds' where ds: "ds = d # ds'" by (cases ds) auto
  have "drop k x = x ! k # drop (Suc k) x" using 3 by (simp add: ds Cons_nth_drop_Suc)
  then show ?case using 3 by (auto simp: ds nth_Cons less_Suc_eq_0_disj split: nat.splits)
qed simp

lemma slice_array_loop_eq:
  assumes "length ss = length sl" "length ns = k + length (kept sl ss)"
  shows "\<exists>off'. slice_array_loop (number_dims k sl) ss (off, ns, nz) =
      (off', take k ns @ kept sl ss, nz \<or> (\<exists>s \<in> set (kept sl ss). s \<noteq> 0)) \<and> weq off' (off + sliced_sum sl ss) \<and>
      (in_int64 off \<longrightarrow> in_int64 off')"
  using assms
proof (induction k sl arbitrary: ss off ns nz rule: number_dims.induct)
  case (1 k)
  then show ?case by simp
next
  case (2 k v sl)
  then obtain s ss' where ss: "ss = s # ss'" by (cases ss) auto
  let ?off = "wrap_Add off (wrap_Multiply s v)"
  obtain off' where o: "slice_array_loop (number_dims k sl) ss' (?off, ns, nz) =
      (off', take k ns @ kept sl ss', nz \<or> (\<exists>s \<in> set (kept sl ss'). s \<noteq> 0))"
    "weq off' (?off + sliced_sum sl ss')" "in_int64 ?off \<longrightarrow> in_int64 off'"
    using "2.IH" [of ss' ns ?off nz] "2.prems" by (auto simp: ss)
  have "weq ?off (off + v * s)"
    by (rule weq_trans [OF weq_wrap_Add]) (simp add: weq_add weq_wrap_Multiply mult.commute [of v])
  then have "weq off' (off + (v * s + sliced_sum sl ss'))"
    using o(2) weq_trans weq_add [of ?off _ "sliced_sum sl ss'"] by (fastforce simp: algebra_simps)
  then show ?case using o by (simp add: ss wrap_Add_def)
next
  case (3 k sl)
  then obtain s ss' where ss: "ss = s # ss'" by (cases ss) auto
  have k: "k < length ns" using 3 by (simp add: ss)
  then have "take (Suc k) (ns[k := s]) = take k ns @ [s]" by (simp add: take_Suc_conv_app_nth)
  moreover obtain off' where "slice_array_loop (number_dims (Suc k) sl) ss' (off, ns[k := s], nz \<or> s \<noteq> 0) =
      (off', take (Suc k) (ns[k := s]) @ kept sl ss', (nz \<or> s \<noteq> 0) \<or> (\<exists>s \<in> set (kept sl ss'). s \<noteq> 0))"
    "weq off' (off + sliced_sum sl ss')" "in_int64 off \<longrightarrow> in_int64 off'"
    using "3.IH" [of ss' "ns[k := s]" off "nz \<or> s \<noteq> 0"] "3.prems" by (auto simp: ss)
  ultimately show ?case by (intro exI [of _ off']) (auto simp: ss)
qed


section \<open>The contract of single-index slicing\<close>

lemma mark_sliced_nth:
  "d < length sl \<Longrightarrow> distinct (map fst ps) \<Longrightarrow>
     mark_sliced ps sl ! d = (case map_of ps d of None \<Rightarrow> sl ! d | Some v \<Rightarrow> Some v)"
proof (induction ps sl rule: mark_sliced.induct)
  case (2 e v ps sl)
  then show ?case by (auto simp: map_of_eq_None_iff image_iff split: option.splits dest: map_of_SomeD)
qed simp

lemma length_mark_sliced [simp]: "length (mark_sliced ps sl) = length sl"
  by (induction ps sl rule: mark_sliced.induct) simp_all

definition slices_of :: "nat list \<Rightarrow> index_vector_or_scalar \<Rightarrow> nat \<Rightarrow> int option list" where
  "slices_of dimensions indices rnk =
     mark_sliced (selected_offsets dimensions indices) (replicate rnk None)"

lemma length_slices_of [simp]: "length (slices_of dims indices n) = n"
  by (simp add: slices_of_def)

lemma slices_of_nth:
  assumes "valid_selection n dims" "d < n"
  shows "slices_of dims indices n ! d = map_of (selected_offsets dims indices) d"
proof -
  have "distinct (map fst (selected_offsets dims indices))"
    using assms(1) by (simp add: selected_offsets_def valid_selection_def)
  then show ?thesis using assms(2) by (simp add: slices_of_def mark_sliced_nth split: option.split)
qed

lemma number_dims_nth:
  assumes "d < length sl" "number_dims k sl ! d = (Some j, v)" "length xs = length sl"
  shows "k \<le> j \<and> j < k + length (kept sl xs) \<and> sl ! d = None"
  using assms
proof (induction k sl arbitrary: d xs rule: number_dims.induct)
  case (2 k w sl)
  then obtain y ys where "xs = y # ys" by (cases xs) auto
  then show ?case using 2 by (cases d) auto
next
  case (3 k sl)
  then obtain y ys where xs: "xs = y # ys" by (cases xs) auto
  show ?case
  proof (cases d)
    case 0
    then show ?thesis using 3 by (simp add: xs)
  next
    case (Suc e)
    then show ?thesis using 3(1) [of e ys] 3(2-4) by (simp add: xs)
  qed
qed simp

lemma slice_output_map_apply:
  assumes r: "slice_output_map (number_dims 0 sl) n e m = Inr m'" and m: "map_fits (length sl) m"
    and n: "n = length (filter (\<lambda>s. s = None) sl)" and x: "length x = n" and e: "\<not> e"
  shows "apply_map m' x = apply_map m (slice_position (number_dims 0 sl) x)"
proof (cases "map_method m")
  case Method_constant
  then show ?thesis
    using r by (auto simp: slice_output_map_def apply_map_eq map_in_range_def map_value_def base_value_def constant_map_def)
next
  case (Method_single_input_dimension d)
  then have d: "d < length sl" using m by (simp add: map_fits_def)
  obtain nd v where i: "number_dims 0 sl ! d = (nd, v)" by (cases "number_dims 0 sl ! d")
  show ?thesis
  proof (cases nd)
    case None
    then have "m' = constant_map (v * map_stride m + map_offset m)"
      using r Method_single_input_dimension i by (simp add: slice_output_map_def checked_mul_add)
    then show ?thesis
      using d i None Method_single_input_dimension
      by (simp add: apply_map_eq map_in_range_def map_value_def base_value_def slice_position_def constant_map_def)
  next
    case (Some k)
    then show ?thesis
      using r d i Method_single_input_dimension by (auto simp: slice_output_map_def apply_map_def slice_position_def)
  qed
next
  case (Method_array a)
  let ?ss = "byte_strides a"
  have l: "length ?ss = length sl" using m Method_array by (simp add: map_fits_def)
  have k: "length (kept sl ?ss) = n" using length_kept [OF l] n by simp
  obtain off where o: "slice_array_loop (number_dims 0 sl) ?ss (0, replicate n 0, False) =
      (off, kept sl ?ss, \<exists>s \<in> set (kept sl ?ss). s \<noteq> 0)" and w: "weq off (sliced_sum sl ?ss)" "in_int64 off"
    using slice_array_loop_eq [OF l, of "replicate n 0" 0 0 False] k by auto
  have dot: "InnerProduct (slice_position (number_dims 0 sl) x) ?ss =
      wrap_index (sliced_sum sl ?ss + sum_list (map2 (*) x (kept sl ?ss)))"
    using slice_position_dot [OF l, of x 0] x k by (simp add: InnerProduct_eq)
  have off: "wrap_index (off + sum_list (map2 (*) x (kept sl ?ss))) =
      InnerProduct (slice_position (number_dims 0 sl) x) ?ss"
    unfolding dot wrap_index_eq_weq by (intro weq_add w weq_refl)
  show ?thesis
  proof (cases "\<exists>s \<in> set (kept sl ?ss). s \<noteq> 0")
    case True
    then have "m' = m\<lparr>map_method := Method_array
        \<lparr>element_pointer = AddByteOffset (element_pointer a) off, index_range = index_range a,
         byte_strides = kept sl ?ss\<rparr>\<rparr>"
      using r Method_array o e by (simp add: slice_output_map_def)
    then show ?thesis
      using off Method_array by (simp add: apply_map_def AddByteOffset_def wrap_Add_def InnerProduct_eq)
  next
    case False
    obtain off' st where z: "ReplaceZeroRankIndexArrayIndexMap (element_pointer a off) (index_range a)
        (map_offset m) (map_stride m) = Inr (off', st)"
      and m': "m' = \<lparr>map_method = Method_constant, map_offset = off', map_stride = st\<rparr>"
      using r Method_array o e False by (auto simp: slice_output_map_def bind_result_Inr_iff)
    have "sum_list (map2 (*) x (kept sl ?ss)) = 0"
      using False k x by (intro dot_zero) auto
    then have "InnerProduct (slice_position (number_dims 0 sl) x) ?ss = off" using off w(2) by simp
    then show ?thesis
      using ReplaceZeroRank_apply [OF z] Method_array
      by (simp add: m' apply_map_def CheckContains_def wrap_Add_def wrap_Multiply_def)
  qed
qed


definition index_slice_position ::
  "nat list \<Rightarrow> index_vector_or_scalar \<Rightarrow> transform_rep \<Rightarrow> int list \<Rightarrow> int list" where
  "index_slice_position dims indices t =
     slice_position (number_dims 0 (slices_of dims indices (input_rank t)))"

lemma ApplySingleIndexSlice_Inr:
  assumes r: "ApplySingleIndexSlice t dims indices False = Inr (u, dims')"
    and s: "valid_selection (input_rank t) dims"
  defines "sl \<equiv> slices_of dims indices (input_rank t)"
  shows "input_dims u = kept sl (input_dims t)" "output_rank u = output_rank t" "dims' = []"
    and "\<And>k. k < output_rank t \<Longrightarrow>
      slice_output_map (number_dims 0 sl) (input_rank u) (IsDomainExplicitlyEmpty u) (output_index_maps t ! k) =
      Inr (output_index_maps u ! k)"
    and "\<And>d v. d < input_rank t \<Longrightarrow> sl ! d = Some v \<Longrightarrow>
      Contains_index (effective_interval (optionally_implicit_domain t d)) v"
proof -
  have c: "\<forall>(d, v) \<in> set (selected_offsets dims indices).
      Contains_index (effective_interval (optionally_implicit_domain t d)) v"
    and p: "PerformSingleIndexSlice t (number_dims 0 sl) False = Inr u" and d': "dims' = []"
    using r by (auto simp: ApplySingleIndexSlice_def GetSingletonSlicingInfo_def sl_def slices_of_def
        bind_result_Inr_iff split: if_splits)
  let ?new = "\<lparr>input_dims = kept sl (input_dims t), output_index_maps = []\<rparr>"
  obtain maps where maps: "map_result (slice_output_map (number_dims 0 sl) (length (kept sl (input_dims t)))
      (IsDomainExplicitlyEmpty ?new)) (output_index_maps t) = Inr maps"
    and u: "u = ?new\<lparr>output_index_maps := maps\<rparr>"
    using p unfolding PerformSingleIndexSlice_def Let_def kept_infos by (auto simp: bind_result_Inr_iff)
  have e: "IsDomainExplicitlyEmpty u = IsDomainExplicitlyEmpty ?new"
    by (simp add: u IsDomainExplicitlyEmpty_def)
  show "input_dims u = kept sl (input_dims t)" "output_rank u = output_rank t" "dims' = []"
    using maps d' by (simp_all add: u output_rank_def map_result_Inr_iff)
  show "slice_output_map (number_dims 0 sl) (input_rank u) (IsDomainExplicitlyEmpty u) (output_index_maps t ! k) =
      Inr (output_index_maps u ! k)" if "k < output_rank t" for k
    using maps that unfolding e by (simp add: u input_rank_def output_rank_def map_result_Inr_iff)
  show "Contains_index (effective_interval (optionally_implicit_domain t d)) v"
    if "d < input_rank t" "sl ! d = Some v" for d v
    using that c slices_of_nth [OF s that(1), of indices] by (auto simp: sl_def dest: map_of_SomeD)
qed

lemma length_kept_rank:
  "length sl = input_rank t \<Longrightarrow> length (kept sl (input_dims t)) = length (filter (\<lambda>s. s = None) sl)"
  by (simp add: length_kept input_rank_def)

lemma ApplySingleIndexSlice_domain:
  assumes r: "ApplySingleIndexSlice t dims indices False = Inr (u, dims')"
    and s: "valid_selection (input_rank t) dims" and x: "length x = input_rank u"
  shows "in_domain u x \<longleftrightarrow> in_domain t (index_slice_position dims indices t x)"
proof -
  let ?sl = "slices_of dims indices (input_rank t)"
  note i = ApplySingleIndexSlice_Inr [OF r s]
  have "length x = 0 + length (kept ?sl (input_dims t))" using x i(1) by (simp add: input_rank_def)
  then show ?thesis
    using slice_position_domain [of "input_dims t" ?sl x 0] i(1,5)
    by (simp add: in_domain_list_all2 index_slice_position_def input_rank_def optionally_implicit_domain_def)
qed

lemma kept_list_all2: "list_all2 P xs ys \<Longrightarrow> length xs = length sl \<Longrightarrow> list_all2 P (kept sl xs) (kept sl ys)"
proof (induction xs ys arbitrary: sl rule: list_all2_induct)
  case (Cons x xs y ys)
  then show ?case
    by (cases sl rule: list.exhaust) (auto simp: kept_def split: option.splits)
qed (simp add: kept_def)

lemma kept_subseq: "subseq (kept sl xs) xs"
proof (induction sl arbitrary: xs)
  case (Cons s sl)
  then show ?case by (cases xs; cases s) (auto simp: kept_def)
qed (simp add: kept_def)

lemma slice_output_map_invariant:
  assumes sm: "slice_output_map (number_dims 0 sl) (input_rank u) (IsDomainExplicitlyEmpty u) m = Inr m'"
    and mi: "map_invariant t m" and sl: "length sl = input_rank t" and u: "input_dims u = kept sl (input_dims t)"
  shows "map_invariant u m'"
proof (cases "map_method m")
  case Method_constant
  then show ?thesis using sm by (auto simp: slice_output_map_def map_invariant_def constant_map_def)
next
  case (Method_single_input_dimension d)
  then have d: "d < length sl" "map_stride m \<noteq> 0" using mi sl by (simp_all add: map_invariant_def)
  obtain nd v where i: "number_dims 0 sl ! d = (nd, v)" by (cases "number_dims 0 sl ! d")
  show ?thesis
  proof (cases nd)
    case None
    then have "m' = constant_map (v * map_stride m + map_offset m)"
      using sm Method_single_input_dimension i by (simp add: slice_output_map_def checked_mul_add)
    then show ?thesis by (simp add: map_invariant_def constant_map_def)
  next
    case (Some k)
    have "k < input_rank u"
      using number_dims_nth [OF d(1), of 0 k v "input_dims t"] i Some sl u by (simp add: input_rank_def)
    then show ?thesis
      using sm Method_single_input_dimension i Some d(2) by (auto simp: slice_output_map_def map_invariant_def)
  qed
next
  case (Method_array a)
  have ok: "map_stride m \<noteq> 0" "array_dims_ok (input_dims t) (byte_strides a)"
    using mi by (simp_all add: map_invariant_array [OF Method_array])
  then have l: "length (byte_strides a) = length sl"
    using sl by (simp add: array_dims_ok_def list_all2_lengthD input_rank_def)
  then have n: "length (kept sl (byte_strides a)) = input_rank u"
    using u sl by (simp add: length_kept input_rank_def)
  obtain off where o: "slice_array_loop (number_dims 0 sl) (byte_strides a) (0, replicate (input_rank u) 0, False) =
      (off, kept sl (byte_strides a), \<exists>s \<in> set (kept sl (byte_strides a)). s \<noteq> 0)"
    using slice_array_loop_eq [OF l, of "replicate (input_rank u) 0" 0 0 False] n by auto
  have "array_dims_ok (input_dims u) (kept sl (byte_strides a))"
    using ok(2) sl unfolding array_dims_ok_def u by (intro kept_list_all2) (auto simp: input_rank_def)
  then show ?thesis
    using sm Method_array o ok(1) ReplaceZeroRank_apply
    by (auto simp: slice_output_map_def map_invariant_array map_invariant_def [of _ "constant_map _"] constant_map_def
        bind_result_Inr_iff split: if_splits) (auto simp: map_invariant_def)
qed

lemma ApplySingleIndexSlice_invariants:
  assumes r: "ApplySingleIndexSlice t dims indices False = Inr (u, dims')"
    and s: "valid_selection (input_rank t) dims" and inv: "DebugCheckInvariants t"
  shows "DebugCheckInvariants u"
proof -
  let ?sl = "slices_of dims indices (input_rank t)"
  note i = ApplySingleIndexSlice_Inr [OF r s]
  have sub: "set (input_dims u) \<subseteq> set (input_dims t)"
    unfolding i(1) by (auto simp: kept_def dest: set_zip_rightD)
  show ?thesis
  proof (rule invariantsI)
    have "subseq (map label (input_dims u)) (map label (input_dims t))"
      using kept_subseq i(1) by (metis subseq_map)
    then show "labels_unique (map label (input_dims u))"
      using inv labels_unique_sublist invariants_iff by blast
    show "valid_interval (interval (optionally_implicit_domain u d))" if "d < input_rank u" for d
    proof -
      have "input_dims u ! d \<in> set (input_dims t)" using sub that by (auto simp: input_rank_def)
      then show ?thesis using inv by (simp add: invariants_iff optionally_implicit_domain_def)
    qed
    show "map_invariant u (output_index_maps u ! k)" if "k < output_rank u" for k
      using slice_output_map_invariant [OF i(4) invariant_map [OF inv] length_slices_of i(1), of k] that i(2) by simp
  qed
qed

lemma IndexSlice_result:
  "bind_result (ApplySingleIndexSlice t dims indices False) (\<lambda>(u, _). Inr u) = Inr u \<longleftrightarrow>
     ApplySingleIndexSlice t dims indices False = Inr (u, [])"
  by (auto simp: ApplySingleIndexSlice_def bind_result_Inr_iff)

interpretation index_slice: index_operation
  "\<lambda>(dims, indices) t. bind_result (ApplySingleIndexSlice t dims indices False) (\<lambda>(u, _). Inr u)"
  "\<lambda>(dims, indices) t. valid_selection (input_rank t) dims \<and> DebugCheckInvariants t"
  "\<lambda>(dims, indices) t x. index_slice_position dims indices t x"
proof (unfold_locales, goal_cases)
  case (1 p t u)
  then show ?case by (auto simp: IndexSlice_result dest: ApplySingleIndexSlice_Inr)
next
  case (2 p t u x)
  then show ?case
    using ApplySingleIndexSlice_domain [of t _ _ u "[]" x] by (auto simp: IndexSlice_result in_domain_def [of u])
next
  case (3 p t u x k)
  obtain dims indices where p: "p = (dims, indices)" by (cases p)
  have r: "ApplySingleIndexSlice t dims indices False = Inr (u, [])"
    and a: "valid_selection (input_rank t) dims" "DebugCheckInvariants t"
    using 3 by (auto simp: p IndexSlice_result)
  note i = ApplySingleIndexSlice_Inr [OF r a(1)]
  have n: "input_rank u = length (filter (\<lambda>s. s = None) (slices_of dims indices (input_rank t)))"
    using i(1) by (simp add: input_rank_def [of u] length_kept_rank)
  show ?case
    using slice_output_map_apply [OF i(4) _ n, of k x] 3(3,4) in_domain_not_empty [OF 3(3)]
      map_invariant_fits [OF invariant_map [OF a(2)]]
    by (simp add: p index_slice_position_def in_domain_def)
next
  case (4 p t u)
  then show ?case by (auto simp: IndexSlice_result intro: ApplySingleIndexSlice_invariants)
qed

end
