(* ===== verification/Interval_Slice.thy ===== *)
theory Interval_Slice
  imports Slice_Ops
begin

text \<open>
  \<^verbatim>\<open>interval_slice_op.cc\<close>: the operations \<^verbatim>\<open>HalfOpenInterval\<close>, \<^verbatim>\<open>ClosedInterval\<close>,
  \<^verbatim>\<open>SizedInterval\<close> with their translating variants, and \<^verbatim>\<open>Stride\<close>. Both compute an affine map
  \<open>v \<mapsto> offset + stride * v\<close> per dimension together with a new domain, and share the update of
  the output index maps.
\<close>

section \<open>interval\_slice\_op.cc\<close>

text \<open>An \<^verbatim>\<open>InputDimensionIntervalSliceInfo\<close> is an offset and a stride.\<close>

type_synonym interval_slice_info = "int \<times> int"

fun interval_slice_loop ::
  "interval_form \<Rightarrow> bool \<Rightarrow> (nat \<times> int \<times> int \<times> int) list \<Rightarrow>
     index_domain_dimension list \<times> interval_slice_info list \<Rightarrow>
     (index_domain_dimension list \<times> interval_slice_info list) result" where
  "interval_slice_loop form translate [] s = Inr s"
| "interval_slice_loop form translate ((input_dim, start, stop_or_size, stride) # ps) (dims, infos) =
     bind_result
       (ComputeStridedSliceMap (optionally_implicit_interval (dims ! input_dim)) form
          (if translate then 0 else kImplicit) start stop_or_size stride)
       (\<lambda>(new_domain, offset).
          interval_slice_loop form translate ps
            (dims[input_dim := set_oi_interval new_domain (dims ! input_dim)],
             infos[input_dim := (offset, stride)]))"

definition slice_arguments ::
  "nat list \<Rightarrow> index_vector_or_scalar \<Rightarrow> index_vector_or_scalar \<Rightarrow> index_vector_or_scalar \<Rightarrow>
     (nat \<times> int \<times> int \<times> int) list" where
  "slice_arguments dimensions start_vector stop_or_size_vector stride_vector =
     zip dimensions (map (\<lambda>i. (vector_at start_vector i, vector_at stop_or_size_vector i,
                               vector_at stride_vector i)) [0..<length dimensions])"

definition GetIntervalSliceInfo ::
  "transform_rep \<Rightarrow> nat list \<Rightarrow> interval_form \<Rightarrow> bool \<Rightarrow> index_vector_or_scalar \<Rightarrow>
     index_vector_or_scalar \<Rightarrow> index_vector_or_scalar \<Rightarrow>
     (index_domain_dimension list \<times> interval_slice_info list) result" where
  "GetIntervalSliceInfo t dimensions form translate start_vector stop_or_size_vector stride_vector =
     interval_slice_loop form translate
       (slice_arguments dimensions start_vector stop_or_size_vector stride_vector)
       (input_dims t, replicate (input_rank t) (0, 1))"

text \<open>One dimension of the loop over an index array: the byte offset of the element pointer, the
  new byte strides and \<^verbatim>\<open>array_is_singleton\<close>.\<close>

fun affine_array_loop ::
  "interval_slice_info list \<Rightarrow> index_domain_dimension list \<Rightarrow> int list \<Rightarrow> int \<times> int list \<times> bool \<Rightarrow>
     int \<times> int list \<times> bool" where
  "affine_array_loop ((offset, stride) # infos) (d # dims) (byte_stride # ss)
       (element_pointer_byte_offset, strides, array_is_singleton) =
     (let off = wrap_Add element_pointer_byte_offset (wrap_Multiply byte_stride offset);
          new_stride = wrap_Multiply byte_stride stride;
          i = interval (optionally_implicit_interval d)
      in if interval_size i = 1
         then affine_array_loop infos dims ss
                (wrap_Add off (wrap_Multiply new_stride (inclusive_min i)), strides @ [0], array_is_singleton)
         else affine_array_loop infos dims ss
                (off, strides @ [new_stride], array_is_singleton \<and> new_stride = 0))"
| "affine_array_loop _ _ _ s = s"

definition apply_affine_map ::
  "interval_slice_info list \<Rightarrow> index_domain_dimension list \<Rightarrow> bool \<Rightarrow> output_index_map \<Rightarrow>
     output_index_map result" where
  "apply_affine_map infos dims domain_is_explicitly_empty m =
     (case map_method m of
        Method_constant \<Rightarrow> Inr m
      | Method_single_input_dimension d \<Rightarrow>
          (let (mul_overflow, offset) = MulOverflow (fst (infos ! d)) (map_stride m);
               (add_overflow, new_offset) = AddOverflow offset (map_offset m)
           in if mul_overflow \<or> add_overflow then Inl InvalidArgument
              else let (overflow, new_stride) = MulOverflow (snd (infos ! d)) (map_stride m)
                   in if overflow then Inl InvalidArgument
                      else Inr (m\<lparr>map_offset := new_offset, map_stride := new_stride\<rparr>))
      | Method_array a \<Rightarrow>
          if domain_is_explicitly_empty then Inr (constant_map 0)
          else
            (let (byte_offset, new_strides, array_is_singleton) =
                   affine_array_loop infos dims (byte_strides a) (0, [], True);
                 pointer = AddByteOffset (element_pointer a) byte_offset;
                 origin = map (\<lambda>d. inclusive_min (interval (optionally_implicit_interval d))) dims
             in if array_is_singleton
                then bind_result
                       (ReplaceZeroRankIndexArrayIndexMap (pointer (InnerProduct origin new_strides))
                          (index_range a) (map_offset m) (map_stride m))
                       (\<lambda>(offset, stride).
                          Inr \<lparr>map_method = Method_constant, map_offset = offset, map_stride = stride\<rparr>)
                else Inr (m\<lparr>map_method := Method_array
                        \<lparr>element_pointer = pointer, index_range = index_range a,
                         byte_strides = new_strides\<rparr>\<rparr>)))"

definition ApplyOffsetsAndStridesToOutputIndexMaps ::
  "transform_rep \<Rightarrow> interval_slice_info list \<Rightarrow> transform_rep result" where
  "ApplyOffsetsAndStridesToOutputIndexMaps rep input_dimension_info =
     bind_result
       (map_result (apply_affine_map input_dimension_info (input_dims rep) (IsDomainExplicitlyEmpty rep))
          (output_index_maps rep))
       (\<lambda>maps. Inr (rep\<lparr>output_index_maps := maps\<rparr>))"

definition ApplyIntervalSliceOp ::
  "transform_rep \<Rightarrow> nat list \<Rightarrow> interval_form \<Rightarrow> bool \<Rightarrow> index_vector_or_scalar \<Rightarrow>
     index_vector_or_scalar \<Rightarrow> index_vector_or_scalar \<Rightarrow> bool \<Rightarrow> transform_rep result" where
  "ApplyIntervalSliceOp t dimensions form translate start_vector stop_or_size_vector stride_vector domain_only =
     bind_result (CheckIndexVectorSize start_vector (length dimensions)) (\<lambda>_.
     bind_result (CheckIndexVectorSize stop_or_size_vector (length dimensions)) (\<lambda>_.
     bind_result (CheckIndexVectorSize stride_vector (length dimensions)) (\<lambda>_.
       let rep = MutableRep t domain_only
       in bind_result
            (GetIntervalSliceInfo rep dimensions form translate start_vector stop_or_size_vector stride_vector)
            (\<lambda>(dims, infos). ApplyOffsetsAndStridesToOutputIndexMaps (rep\<lparr>input_dims := dims\<rparr>) infos))))"

fun stride_loop ::
  "(nat \<times> int) list \<Rightarrow> index_domain_dimension list \<times> interval_slice_info list \<Rightarrow>
     (index_domain_dimension list \<times> interval_slice_info list) result" where
  "stride_loop [] s = Inr s"
| "stride_loop ((input_dim, stride) # ps) (dims, infos) =
     (if stride = 0 then Inl InvalidArgument
      else bind_result
             (GetAffineTransformDomain_oi (optionally_implicit_interval (dims ! input_dim)) 0 stride)
             (\<lambda>new_domain.
                stride_loop ps
                  (dims[input_dim := set_oi_interval new_domain (dims ! input_dim)],
                   infos[input_dim := (0, stride)])))"

definition ApplyStrideOp ::
  "transform_rep \<Rightarrow> nat list \<Rightarrow> index_vector_or_scalar \<Rightarrow> bool \<Rightarrow> transform_rep result" where
  "ApplyStrideOp t dimensions strides domain_only =
     bind_result (CheckIndexVectorSize strides (length dimensions)) (\<lambda>_.
       let rep = MutableRep t domain_only
       in bind_result
            (stride_loop (selected_offsets dimensions strides)
               (input_dims rep, replicate (input_rank rep) (0, 1)))
            (\<lambda>(dims, infos). ApplyOffsetsAndStridesToOutputIndexMaps (rep\<lparr>input_dims := dims\<rparr>) infos))"

section \<open>The domain of one dimension\<close>

text \<open>What both operations establish per dimension: with the offset and the stride \<open>(b, s)\<close>, every
  index of the new domain addresses one of the old domain, implicit bounds included.\<close>

definition affine_dim :: "interval_slice_info \<Rightarrow> oi_interval \<Rightarrow> oi_interval \<Rightarrow> bool" where
  "affine_dim = (\<lambda>(b, s) old new.
     s \<noteq> 0 \<and> valid_interval (interval new) \<and>
     (\<forall>v. in_bounds (effective_interval new) v \<longrightarrow> in_bounds (effective_interval old) (b + s * v)) \<and>
     (\<not> implicit_dimension old \<longrightarrow> \<not> implicit_dimension new \<and>
        (IsFinite_interval (interval old) \<longrightarrow> IsFinite_interval (interval new))))"

lemma affine_dim_refl: "valid_interval (interval oi) \<Longrightarrow> affine_dim (0, 1) oi oi"
  by (simp add: affine_dim_def)

lemma slice_len_zero_iff:
  assumes "0 < q" "ValidClosed s e" "s = e + 1"
  shows "slice_len s e q = 0"
  using assms by (auto simp: slice_len_def ceil_div_def ValidClosed_def index_consts)

lemma slice_effective:
  assumes q: "0 < q" and v: "ValidClosed s e" and fin: "q = 1 \<or> IsFiniteIndex s"
    and c: "s \<le> e \<Longrightarrow> lo \<le> s \<and> e \<le> hi"
    and l: "lower \<Longrightarrow> lo = - kInfIndex \<and> s \<le> hi + 1"
    and u: "upper \<Longrightarrow> hi = kInfIndex \<and> lo \<le> e + 1"
    and j: "in_bounds (UncheckedClosed (if lower then - kInfIndex else s sdiv q)
             (if upper then kInfIndex else s sdiv q + slice_len s e q - 1)) j"
    and lh: "- kInfIndex \<le> lo" "hi \<le> kInfIndex"
  shows "in_bounds (UncheckedClosed lo hi) (s + q * (j - s sdiv q))"
proof -
  define m where "m = s sdiv q"
  note sv = slice_valid [OF q v fin]
  have se: "s \<le> e \<or> s = e + 1" using v by (auto simp: ValidClosed_def)
  have lower: "lo = - kInfIndex \<or> lo \<le> s + q * (j - m)"
  proof (cases "lower \<or> lo = - kInfIndex")
    case False
    have mj: "m \<le> j"
      using j False sv(2) c se v lh by (auto simp: in_bounds_def m_def ValidClosed_def split: if_splits)
    then have "s \<le> s + q * (j - m)" using q by simp
    moreover have "lo \<le> s"
    proof (cases "s \<le> e")
      case True
      then show ?thesis using c by simp
    next
      case f: False
      then have "slice_len s e q = 0" using se slice_len_zero_iff [OF q v] by simp
      then have upper
        using j mj False sv(3) v f by (auto simp: in_bounds_def m_def ValidClosed_def split: if_splits)
      then show ?thesis using u se f by simp
    qed
    ultimately show ?thesis by linarith
  qed (use l in auto)
  have upper: "hi = kInfIndex \<or> s + q * (j - m) \<le> hi"
  proof (cases "upper \<or> hi = kInfIndex")
    case False
    have e: "e \<noteq> kInfIndex"
      using False c se v lh by (auto simp: ValidClosed_def)
    have jm: "j \<le> m + slice_len s e q - 1"
      using j False e sv(3) by (auto simp: in_bounds_def m_def split: if_splits)
    show ?thesis
    proof (cases "s \<le> e")
      case True
      have "q * (j - m) < e - s + 1"
        using jm e ceil_div_pos_iff [OF q, of "j - m" "e - s + 1"] by (simp add: slice_len_def)
      then show ?thesis using c [OF True] by linarith
    next
      case f: False
      then have z: "slice_len s e q = 0" using se slice_len_zero_iff [OF q v] by simp
      have lower
        using jm z j False sv(2) v f by (auto simp: in_bounds_def m_def ValidClosed_def split: if_splits)
      moreover have "q * (j - m) \<le> q * (- 1)" using jm z q by (intro mult_left_mono) auto
      ultimately show ?thesis using l q by simp
    qed
  qed (use u in auto)
  show ?thesis using lower upper by (simp add: in_bounds_def m_def)
qed


lemma Contains_adjusted:
  "Contains_interval outer (UncheckedClosed a b) \<Longrightarrow> a \<le> b \<Longrightarrow> inclusive_min outer \<le> a \<and> b \<le> inclusive_max outer"
  by (auto simp: Contains_interval_def UncheckedClosed_def mk_interval_def inclusive_max_def)

lemma slice_flags:
  assumes "slice_start orig start0 stride = Inr (start, lower)"
    and "slice_stop orig form start stop_or_size stride = Inr (stop, upper)"
  shows "lower \<Longrightarrow> implicit_lower orig \<and>
           start = (if 0 < stride then inclusive_min (interval orig) else inclusive_max (interval orig))"
    and "upper \<Longrightarrow> implicit_upper orig \<and>
           stop = (if 0 < stride then inclusive_max (interval orig) else inclusive_min (interval orig))"
  using assms by (auto simp: slice_start_def slice_stop_def Let_def split: if_splits prod.splits)

lemma effective_bounds:
  "inclusive_min (effective_interval oi) = (if implicit_lower oi then - kInfIndex else inclusive_min (interval oi))"
  "inclusive_max (effective_interval oi) = (if implicit_upper oi then kInfIndex else inclusive_max (interval oi))"
  by (simp_all add: effective_interval_def)

lemma in_bounds_negate:
  "in_bounds (UncheckedClosed (- hi) (- lo)) (- x) \<longleftrightarrow> in_bounds (UncheckedClosed lo hi) x"
  by (auto simp: in_bounds_def)

lemma effective_closed:
  "effective_interval oi = UncheckedClosed (inclusive_min (effective_interval oi)) (inclusive_max (effective_interval oi))"
  by (simp add: effective_interval_def)

lemma ExtractStridedSlice_effective:
  assumes v: "valid_interval (interval orig)"
    and r: "ExtractStridedSlice orig form start0 stop_or_size stride = Inr (d, start)"
    and j: "in_bounds (effective_interval d) j"
  shows "in_bounds (effective_interval orig) (start + stride * (j - inclusive_min (interval d)))"
  using r
proof (cases rule: ExtractStridedSlice_InrE)
  case (1 stop lower upper)
  let ?lo = "inclusive_min (effective_interval orig)" and ?hi = "inclusive_max (effective_interval orig)"
  note fl = slice_flags [OF 1(3,4)]
  have vo: "ValidClosed (inclusive_min (interval orig)) (inclusive_max (interval orig))"
    using v by (simp add: valid_interval_iff_closed)
  have lh: "- kInfIndex \<le> ?lo" "?hi \<le> kInfIndex" "?lo \<le> inclusive_min (interval orig)"
    "inclusive_max (interval orig) \<le> ?hi" using vo by (auto simp: effective_bounds ValidClosed_def)
  show ?thesis
  proof (cases "0 < stride")
    case True
    have vc: "ValidClosed start stop" using 1 True by (simp add: adjusted_interval_def)
    then have "\<bar>stop\<bar> = kInfIndex \<longleftrightarrow> stop = kInfIndex" by (auto simp: ValidClosed_def index_consts)
    then have d: "interval d = UncheckedSized (start sdiv stride) (slice_len start stop stride)"
      using 1 True by (simp add: slice_len_def adjusted_interval_def CeilOfRatio_eq)
    have "in_bounds (UncheckedClosed ?lo ?hi) (start + stride * (j - start sdiv stride))"
    proof (rule slice_effective [OF True vc, where lower = lower and upper = upper])
      show "in_bounds (UncheckedClosed (if lower then - kInfIndex else start sdiv stride)
          (if upper then kInfIndex else start sdiv stride + slice_len start stop stride - 1)) j"
        using j True 1(9,10) by (simp add: effective_interval_def d split: if_splits)
      show "?lo \<le> start \<and> stop \<le> ?hi" if "start \<le> stop"
        using Contains_adjusted [OF _ that] 1(7) True by (simp add: adjusted_interval_def)
    qed (use 1(5) True fl lh vo vc in \<open>auto simp: effective_bounds ValidClosed_def\<close>)
    then show ?thesis using d effective_closed [of orig] by simp
  next
    case False
    then have q: "0 < - stride" using 1(1) by simp
    have vc: "ValidClosed (- start) (- stop)"
      using 1(6) False by (auto simp: adjusted_interval_def ValidClosed_def)
    then have "\<bar>stop\<bar> = kInfIndex \<longleftrightarrow> - stop = kInfIndex" by (auto simp: ValidClosed_def index_consts)
    then have d: "interval d = UncheckedSized ((- start) sdiv (- stride)) (slice_len (- start) (- stop) (- stride))"
      using 1 False q by (simp add: slice_len_def adjusted_interval_def CeilOfRatio_eq algebra_simps)
    have "in_bounds (UncheckedClosed (- ?hi) (- ?lo)) (- start + - stride * (j - (- start) sdiv (- stride)))"
    proof (rule slice_effective [OF q vc, where lower = upper and upper = lower])
      show "- stride = 1 \<or> IsFiniteIndex (- start)"
        using 1(5) False by (auto simp: IsFiniteIndex_def index_consts)
      show "in_bounds (UncheckedClosed (if upper then - kInfIndex else (- start) sdiv (- stride))
          (if lower then kInfIndex else (- start) sdiv (- stride) + slice_len (- start) (- stop) (- stride) - 1)) j"
        using j False 1(9,10) by (simp add: effective_interval_def d split: if_splits)
      show "- ?hi \<le> - start \<and> - stop \<le> - ?lo" if "- start \<le> - stop"
        using Contains_adjusted [of "effective_interval orig" stop start] that 1(7) False by (simp add: adjusted_interval_def)
    qed (use False fl lh vo vc in \<open>auto simp: effective_bounds ValidClosed_def\<close>)
    then have "in_bounds (UncheckedClosed (- ?hi) (- ?lo)) (- (start + stride * (j - inclusive_min (interval d))))"
      using d by (simp add: algebra_simps)
    then show ?thesis unfolding in_bounds_negate effective_closed [of orig, symmetric] .
  qed
qed

lemma ExtractStridedSlice_explicit:
  assumes r: "ExtractStridedSlice orig form start0 stop_or_size stride = Inr (d, start)"
    and e: "\<not> implicit_dimension orig"
  shows "\<not> implicit_dimension d"
  using r
proof (cases rule: ExtractStridedSlice_InrE)
  case (1 stop lower upper)
  then show ?thesis using slice_flags [OF 1(3,4)] e by (auto simp: implicit_dimension_def)
qed

text \<open>Finite old bounds keep a valid interval finite: its bounds would address indices outside.\<close>

lemma affine_image_finite:
  assumes v: "valid_interval new" and f: "IsFinite_interval old" and s: "s \<noteq> 0"
    and i: "\<And>v. in_bounds new v \<Longrightarrow> in_bounds old (b + s * v)"
  shows "IsFinite_interval new"
proof (rule ccontr)
  assume n: "\<not> IsFinite_interval new"
  define B where "B = \<bar>b\<bar> + \<bar>inclusive_min old\<bar> + \<bar>inclusive_max old\<bar> + \<bar>inclusive_min new\<bar> + \<bar>inclusive_max new\<bar> + 1"
  have out: "\<not> in_bounds old (b + s * v)" if "B \<le> \<bar>v\<bar>" for v
  proof -
    have "\<bar>v\<bar> \<le> \<bar>s * v\<bar>" using s mult_right_mono [of 1 "\<bar>s\<bar>" "\<bar>v\<bar>"] by (simp add: abs_mult)
    then have "B \<le> \<bar>s * v\<bar>" using that by linarith
    then show ?thesis using f by (auto simp: in_bounds_def IsFinite_interval_def B_def)
  qed
  have B: "B \<le> \<bar>B\<bar>" "B \<le> \<bar>- B\<bar>" by simp_all
  have "\<not> in_bounds new B" "\<not> in_bounds new (- B)" using i out [OF B(1)] out [OF B(2)] by blast+
  then show False
    using n by (auto simp: in_bounds_def IsFinite_interval_def B_def)
qed

lemma implicit_dimension_effective: "\<not> implicit_dimension oi \<Longrightarrow> in_bounds (effective_interval oi) v \<longleftrightarrow> in_bounds (interval oi) v"
  by (simp add: implicit_dimension_def effective_interval_def in_bounds_def)

lemma affine_dimI:
  assumes "s \<noteq> 0" "valid_interval (interval new)"
    and i: "\<And>v. in_bounds (effective_interval new) v \<Longrightarrow> in_bounds (effective_interval old) (b + s * v)"
    and e: "\<not> implicit_dimension old \<Longrightarrow> \<not> implicit_dimension new"
  shows "affine_dim (b, s) old new"
proof -
  have "IsFinite_interval (interval new)" if f: "IsFinite_interval (interval old)" and n: "\<not> implicit_dimension old"
    using i [unfolded implicit_dimension_effective [OF n] implicit_dimension_effective [OF e [OF n]]]
    by (rule affine_image_finite [OF assms(2) f assms(1)])
  then show ?thesis using assms by (auto simp: affine_dim_def)
qed

lemma ExtractStridedSlice_affine:
  assumes v: "valid_interval (interval orig)"
    and r: "ExtractStridedSlice orig form start0 stop_or_size stride = Inr (d, start)"
  shows "affine_dim (start - inclusive_min (interval d) * stride, stride) orig d"
proof (rule affine_dimI)
  show "stride \<noteq> 0" by (rule ExtractStridedSlice_InrE [OF r])
  show "valid_interval (interval d)" using ExtractStridedSlice_preimage [OF r] by blast
  show "\<not> implicit_dimension d" if "\<not> implicit_dimension orig"
    by (rule ExtractStridedSlice_explicit [OF r that])
  show "in_bounds (effective_interval orig) (start - inclusive_min (interval d) * stride + stride * j)"
    if "in_bounds (effective_interval d) j" for j
    using ExtractStridedSlice_effective [OF v r that] by (simp add: algebra_simps)
qed

lemma affine_dim_shift:
  assumes a: "affine_dim (b, s) old new" and j: "shifted_by off (interval new) j"
  shows "affine_dim (b - off * s, s) old (new\<lparr>interval := j\<rparr>)"
proof (rule affine_dimI)
  show "in_bounds (effective_interval old) (b - off * s + s * v)"
    if "in_bounds (effective_interval (new\<lparr>interval := j\<rparr>)) v" for v
    using a that shifted_by_effective [OF j, of v] by (auto simp: affine_dim_def algebra_simps)
qed (use assms in \<open>auto simp: affine_dim_def shifted_by_def implicit_dimension_def\<close>)

lemma ComputeStridedSliceMap_affine:
  assumes v: "valid_interval (interval orig)"
    and r: "ComputeStridedSliceMap orig form origin start0 stop_or_size stride = Inr (d, off)"
  shows "affine_dim (off, stride) orig d"
proof -
  obtain e s where e: "ExtractStridedSlice orig form start0 stop_or_size stride = Inr (e, s)"
    and d: "slice_translate origin e = Inr d" and off: "off = s - inclusive_min (interval d) * stride"
    using r unfolding ComputeStridedSliceMap_def
    by (auto simp: bind_result_Inr_iff Let_def MulOverflow_def
        SubOverflow_def wrap_Multiply_def wrap_Subtract_def split: if_splits)
  note a = ExtractStridedSlice_affine [OF v e]
  then have ve: "valid_interval (interval e)" by (simp add: affine_dim_def)
  show ?thesis
  proof (cases "origin = kImplicit")
    case True
    then show ?thesis using d a off by (simp add: slice_translate_def)
  next
    case False
    then obtain i where i: "ShiftIntervalTo (interval e) origin = Inr i" "d = e\<lparr>interval := i\<rparr>"
      using d by (auto simp: slice_translate_def bind_result_Inr_iff)
    have "translate_interval kTranslateTo (interval e) origin = Inr (i, inclusive_min i - inclusive_min (interval e))"
      using i(1) by (simp add: translate_interval_def)
    from affine_dim_shift [OF a translate_interval_shifted [OF ve this]]
    moreover have "off = s - inclusive_min (interval e) * stride - (inclusive_min i - inclusive_min (interval e)) * stride"
      using i(2) off by (simp add: algebra_simps)
    ultimately show ?thesis using i(2) by simp
  qed
qed

lemma affine_domain_effective:
  assumes "0 < dv" "affine_domain_lower lower off dv = Inr rl"
    and "affine_domain_size False rl upper off dv = Inr sz"
  shows "in_bounds (UncheckedClosed (if l then - kInfIndex else rl) (if u then kInfIndex else rl + sz - 1)) x \<longleftrightarrow>
    in_bounds (UncheckedClosed (if l then - kInfIndex else lower) (if u then kInfIndex else upper)) (off + dv * x)"
proof -
  have "lower = - kInfIndex \<or> (rl \<le> x \<longleftrightarrow> lower \<le> off + dv * x)" "lower = - kInfIndex \<longleftrightarrow> rl = - kInfIndex"
    using affine_domain_lower_Inr [OF assms(1,2)] ceil_div_le_iff [OF assms(1), of "lower - off" x] by auto
  moreover have "upper = kInfIndex \<or> (x \<le> rl + sz - 1 \<longleftrightarrow> off + dv * x \<le> upper)"
    "upper = kInfIndex \<longleftrightarrow> rl + sz - 1 = kInfIndex"
    using affine_domain_size_Inr [OF assms(1,3)] le_int_div_iff [OF assms(1), of x "upper - off"]
    by (auto simp: IsFiniteIndex_def index_consts split: if_splits)
  ultimately show ?thesis by (auto simp: in_bounds_def)
qed


lemma affine_domain_effective_empty:
  assumes "0 < dv" "affine_domain_lower lower off dv = Inr rl" "lower \<noteq> - kInfIndex"
    and "in_bounds (UncheckedClosed (if l then - kInfIndex else rl) (if u then kInfIndex else rl - 1)) x"
  shows "in_bounds (UncheckedClosed (if l then - kInfIndex else lower) (if u then kInfIndex else lower - 1)) (off + dv * x)"
proof -
  have "rl \<le> x \<longleftrightarrow> lower \<le> off + dv * x" "IsFiniteIndex rl"
    using affine_domain_lower_Inr [OF assms(1,2)] ceil_div_le_iff [OF assms(1), of "lower - off" x] assms(3) by auto
  then show ?thesis using assms(4) by (auto simp: in_bounds_def IsFiniteIndex_def index_consts split: if_splits)
qed

lemma GetAffineTransformDomain_split:
  assumes r: "GetAffineTransformDomain i off dv = Inr d" and n: "i \<noteq> Infinite"
  obtains (pos) rl sz where "0 < dv" "affine_domain_lower (inclusive_min i) off dv = Inr rl"
      "affine_domain_size (empty_interval i) rl (inclusive_max i) off dv = Inr sz" "d = UncheckedSized rl sz"
    | (neg) rl sz where "dv < 0"
      "affine_domain_lower (- inclusive_max i - of_bool (empty_interval i)) (- off) (- dv) = Inr rl"
      "affine_domain_size (empty_interval i) rl (- inclusive_min i - of_bool (empty_interval i)) (- off) (- dv) = Inr sz"
      "d = UncheckedSized rl sz"
  using r n that by (auto simp: GetAffineTransformDomain_def bind_result_Inr_iff split: if_splits)

lemma stride_effective:
  assumes v: "valid_interval (interval oi)" and s: "0 < s \<or> \<not> empty_interval (interval oi)"
    and r: "GetAffineTransformDomain_oi oi off s = Inr new" and x: "in_bounds (effective_interval new) x"
  shows "in_bounds (effective_interval oi) (off + s * x)"
proof (cases "interval oi = Infinite")
  case True
  then show ?thesis by (auto simp: effective_interval_def in_bounds_def)
next
  case False
  obtain d where d: "GetAffineTransformDomain (interval oi) off s = Inr d"
    and new: "new = (if s < 0 then \<lparr>interval = d, implicit_lower = implicit_upper oi, implicit_upper = implicit_lower oi\<rparr>
          else oi\<lparr>interval := d\<rparr>)"
    using r by (auto simp: GetAffineTransformDomain_oi_def bind_result_Inr_iff)
  show ?thesis
  proof (cases rule: GetAffineTransformDomain_split [OF d False])
    case (1 rl sz)
    show ?thesis
    proof (cases "empty_interval (interval oi)")
      case e: True
      then have z: "sz = 0" "inclusive_max (interval oi) = inclusive_min (interval oi) - 1"
        using 1(3) by (simp_all add: affine_domain_size_def empty_interval_iff)
      moreover have "inclusive_min (interval oi) \<noteq> - kInfIndex"
        using v e by (auto simp: valid_interval_iff_closed ValidClosed_def empty_interval_iff)
      ultimately show ?thesis
        using affine_domain_effective_empty [OF 1(1,2), of "implicit_lower oi" "implicit_upper oi" x] x 1(1,4)
        by (simp add: effective_interval_def new split: if_splits)
    next
      case e: False
      then show ?thesis
        using affine_domain_effective [OF 1(1,2), of "inclusive_max (interval oi)" sz "implicit_lower oi" "implicit_upper oi" x]
          x 1(1,3,4) by (simp add: effective_interval_def new split: if_splits)
    qed
  next
    case (2 rl sz)
    then have e: "\<not> empty_interval (interval oi)" "0 < - s" using s by auto
    have "in_bounds (UncheckedClosed (- inclusive_max (effective_interval oi)) (- inclusive_min (effective_interval oi)))
        (- (off + s * x))"
      using affine_domain_effective [OF e(2), of "- inclusive_max (interval oi)" "- off" rl "- inclusive_min (interval oi)" sz
          "implicit_upper oi" "implicit_lower oi" x] x 2 e
      by (simp add: effective_interval_def new split: if_splits)
    then show ?thesis unfolding in_bounds_negate effective_closed [of oi, symmetric] .
  qed
qed

lemma stride_valid:
  assumes v: "valid_interval i" and s: "0 < s \<or> \<not> empty_interval i"
    and r: "GetAffineTransformDomain i 0 s = Inr d"
  shows "valid_interval d"
proof (cases "empty_interval i")
  case True
  then have i: "i \<noteq> Infinite" "0 < s" using s by (auto simp: empty_interval_def Infinite_def mk_interval_def index_consts)
  show ?thesis
  proof (cases rule: GetAffineTransformDomain_split [OF r i(1)])
    case (1 rl sz)
    have "inclusive_min i \<noteq> - kInfIndex"
      using v True by (auto simp: valid_interval_iff_closed ValidClosed_def empty_interval_iff)
    then have rl: "IsFiniteIndex rl" "rl = ceil_div (inclusive_min i) s"
      using affine_domain_lower_Inr [OF i(2) 1(2)] by (metis diff_zero)+
    have sz: "sz = 0" using 1(3) True by (simp add: affine_domain_size_def)
    have "0 \<le> rl \<or> inclusive_min i \<le> rl"
    proof (rule disjCI)
      assume "\<not> inclusive_min i \<le> rl"
      moreover have "inclusive_min i \<le> s * rl" using ceil_div_bounds(1) [OF i(2)] rl(2) by simp
      ultimately show "0 \<le> rl" using i(2) mult_right_mono_neg [of 1 s rl] by linarith
    qed
    then have "ValidClosed rl (rl - 1)"
      using rl(1) v True by (auto simp: valid_interval_iff_closed ValidClosed_def empty_interval_iff IsFiniteIndex_def index_consts)
    then show ?thesis
      using 1(4) sz by (simp add: valid_interval_iff_closed)
  qed (use i in simp)
qed (use GetAffineTransformDomain_nonempty [OF v _ r] in blast)

lemma stride_affine:
  assumes v: "valid_interval (interval oi)" and s: "0 < s \<or> \<not> empty_interval (interval oi)"
    and r: "GetAffineTransformDomain_oi oi 0 s = Inr new"
  shows "affine_dim (0, s) oi new"
proof (rule affine_dimI)
  obtain d where d: "GetAffineTransformDomain (interval oi) 0 s = Inr d"
    and new: "interval new = d" "implicit_dimension new = implicit_dimension oi"
    using r by (auto simp: GetAffineTransformDomain_oi_def bind_result_Inr_iff implicit_dimension_def disj_commute split: if_splits)
  show "s \<noteq> 0" using d by (auto simp: GetAffineTransformDomain_def)
  show "valid_interval (interval new)" using stride_valid [OF v s d] new(1) by simp
  show "\<not> implicit_dimension new" if "\<not> implicit_dimension oi" using that new(2) by simp
  show "in_bounds (effective_interval oi) (0 + s * x)" if "in_bounds (effective_interval new) x" for x
    using stride_effective [OF v s r that] by simp
qed


section \<open>The loops over the selected dimensions\<close>

text \<open>Both loops have the same shape: a step computes the new domain and the affine map of one
  dimension.\<close>

fun affine_loop ::
  "('a \<Rightarrow> oi_interval \<Rightarrow> (oi_interval \<times> interval_slice_info) result) \<Rightarrow> (nat \<times> 'a) list \<Rightarrow>
     index_domain_dimension list \<times> interval_slice_info list \<Rightarrow>
     (index_domain_dimension list \<times> interval_slice_info list) result" where
  "affine_loop step [] s = Inr s"
| "affine_loop step ((d, a) # ps) (dims, infos) =
     bind_result (step a (optionally_implicit_interval (dims ! d))) (\<lambda>(new, info).
       affine_loop step ps (dims[d := set_oi_interval new (dims ! d)], infos[d := info]))"

definition slice_step :: "interval_form \<Rightarrow> bool \<Rightarrow> int \<times> int \<times> int \<Rightarrow> oi_interval \<Rightarrow> (oi_interval \<times> interval_slice_info) result" where
  "slice_step form translate = (\<lambda>(start, stop_or_size, stride) oi.
     bind_result (ComputeStridedSliceMap oi form (if translate then 0 else kImplicit) start stop_or_size stride)
       (\<lambda>(new, offset). Inr (new, (offset, stride))))"

definition stride_step :: "int \<Rightarrow> oi_interval \<Rightarrow> (oi_interval \<times> interval_slice_info) result" where
  "stride_step stride oi =
     (if stride = 0 then Inl InvalidArgument
      else bind_result (GetAffineTransformDomain_oi oi 0 stride) (\<lambda>new. Inr (new, (0, stride))))"

lemma bind_result_assoc: "bind_result (bind_result r f) g = bind_result r (\<lambda>x. bind_result (f x) g)"
  by (cases r) simp_all

lemma interval_slice_loop_eq: "interval_slice_loop form tr ps s = affine_loop (slice_step form tr) ps s"
  by (induction form tr ps s rule: interval_slice_loop.induct)
     (auto simp: slice_step_def bind_result_assoc split_beta intro!: arg_cong2 [where f = bind_result])

lemma stride_loop_eq: "stride_loop ps s = affine_loop stride_step ps s"
  by (induction ps s rule: stride_loop.induct) (auto simp: stride_step_def bind_result_assoc)

lemma affine_loop_length:
  "affine_loop step ps (dims, infos) = Inr (dims', infos') \<Longrightarrow>
     length dims' = length dims \<and> length infos' = length infos"
  by (induction step ps "(dims, infos)" arbitrary: dims infos rule: affine_loop.induct)
     (auto simp: bind_result_Inr_iff)

lemma affine_loop_Inr:
  assumes "affine_loop step ps (dims, infos) = Inr (dims', infos')"
    and "distinct (map fst ps)" "length infos = length dims" "d < length dims"
  shows "case map_of ps d of
      None \<Rightarrow> dims' ! d = dims ! d \<and> infos' ! d = infos ! d
    | Some a \<Rightarrow> \<exists>new. step a (optionally_implicit_interval (dims ! d)) = Inr (new, infos' ! d) \<and>
        dims' ! d = set_oi_interval new (dims ! d)"
  using assms
proof (induction step ps "(dims, infos)" arbitrary: dims infos rule: affine_loop.induct)
  case (2 step e a ps dims infos)
  obtain new info where s: "step a (optionally_implicit_interval (dims ! e)) = Inr (new, info)"
    and rest: "affine_loop step ps (dims[e := set_oi_interval new (dims ! e)], infos[e := info]) = Inr (dims', infos')"
    using "2.prems"(1) by (auto simp: bind_result_Inr_iff)
  have IH: "case map_of ps d of
      None \<Rightarrow> dims' ! d = dims[e := set_oi_interval new (dims ! e)] ! d \<and> infos' ! d = infos[e := info] ! d
    | Some a \<Rightarrow> \<exists>n. step a (optionally_implicit_interval (dims[e := set_oi_interval new (dims ! e)] ! d)) = Inr (n, infos' ! d) \<and>
        dims' ! d = set_oi_interval n (dims[e := set_oi_interval new (dims ! e)] ! d)"
    using "2.hyps" [OF rest] "2.prems" by simp
  show ?case
  proof (cases "e = d")
    case True
    then have "map_of ps d = None" using "2.prems"(2) by (auto simp: map_of_eq_None_iff)
    then show ?thesis using IH s True "2.prems"(3,4) by simp
  qed (use IH in \<open>simp split: option.splits\<close>)
qed simp

text \<open>What a loop establishes for all dimensions.\<close>

definition affine_dims ::
  "interval_slice_info list \<Rightarrow> index_domain_dimension list \<Rightarrow> index_domain_dimension list \<Rightarrow> bool" where
  "affine_dims infos old new \<longleftrightarrow>
     length infos = length old \<and> length new = length old \<and>
     (\<forall>d < length old. \<exists>oi. new ! d = set_oi_interval oi (old ! d) \<and>
        affine_dim (infos ! d) (optionally_implicit_interval (old ! d)) oi)"

lemma affine_dim_iff:
  "affine_dim info old new \<longleftrightarrow>
     snd info \<noteq> 0 \<and> valid_interval (interval new) \<and>
     (\<forall>v. in_bounds (effective_interval new) v \<longrightarrow> in_bounds (effective_interval old) (fst info + snd info * v)) \<and>
     (\<not> implicit_dimension old \<longrightarrow> \<not> implicit_dimension new \<and>
        (IsFinite_interval (interval old) \<longrightarrow> IsFinite_interval (interval new)))"
  by (simp add: affine_dim_def split_beta)

lemma affine_dims_nth:
  assumes "affine_dims infos old new" "d < length old"
  shows "affine_dim (infos ! d) (optionally_implicit_interval (old ! d)) (optionally_implicit_interval (new ! d))"
    and "label (new ! d) = label (old ! d)"
  using assms by (force simp: affine_dims_def)+

lemma set_oi_interval_same [simp]: "set_oi_interval (optionally_implicit_interval d) d = d"
  by (simp add: set_oi_interval_def)

lemma affine_loop_dims:
  assumes r: "affine_loop step ps (dims, replicate (length dims) (0, 1)) = Inr (dims', infos)"
    and p: "distinct (map fst ps)"
    and v: "\<And>d. d < length dims \<Longrightarrow> valid_interval (interval (optionally_implicit_interval (dims ! d)))"
    and s: "\<And>d a new info. \<lbrakk>(d, a) \<in> set ps; d < length dims;
       step a (optionally_implicit_interval (dims ! d)) = Inr (new, info)\<rbrakk> \<Longrightarrow>
       affine_dim info (optionally_implicit_interval (dims ! d)) new"
  shows "affine_dims infos dims dims'"
  unfolding affine_dims_def
proof (intro conjI allI impI)
  show "length infos = length dims" "length dims' = length dims" using affine_loop_length [OF r] by simp_all
  fix d
  assume d: "d < length dims"
  show "\<exists>oi. dims' ! d = set_oi_interval oi (dims ! d) \<and>
      affine_dim (infos ! d) (optionally_implicit_interval (dims ! d)) oi"
  proof (cases "map_of ps d")
    case None
    then have "dims' ! d = dims ! d" "infos ! d = (0, 1)" using affine_loop_Inr [OF r p _ d] d by simp_all
    then show ?thesis
      using affine_dim_refl [OF v [OF d]]
      by (intro exI [of _ "optionally_implicit_interval (dims ! d)"]) simp
  next
    case (Some a)
    then obtain new where "step a (optionally_implicit_interval (dims ! d)) = Inr (new, infos ! d)"
      "dims' ! d = set_oi_interval new (dims ! d)"
      using affine_loop_Inr [OF r p _ d] by auto
    then show ?thesis using s [OF map_of_SomeD [OF Some] d, of new "infos ! d"] by (intro exI [of _ new]) simp
  qed
qed

section \<open>The output index maps\<close>

definition affine_position :: "interval_slice_info list \<Rightarrow> int list \<Rightarrow> int list" where
  "affine_position infos x = map2 (\<lambda>(b, s) v. b + s * v) infos x"

lemma affine_position_simps [simp]:
  "affine_position [] x = []" "affine_position ((b, s) # is) (v # x) = (b + s * v) # affine_position is x"
  by (simp_all add: affine_position_def)

lemma affine_array_loop_eq:
  assumes "length dims = length infos" "length ss = length infos"
  shows "\<exists>off' ss'. affine_array_loop infos dims ss (off, acc, sing) =
      (off', acc @ ss', sing \<and> (\<forall>s \<in> set ss'. s = 0)) \<and> length ss' = length infos \<and>
      (\<forall>d < length infos. ss' ! d \<noteq> 0 \<longrightarrow> ss ! d \<noteq> 0) \<and>
      (\<forall>x. length x = length infos \<and>
         (\<forall>d < length infos. ss ! d \<noteq> 0 \<and> interval_size (interval (optionally_implicit_interval (dims ! d))) = 1 \<longrightarrow>
            x ! d = inclusive_min (interval (optionally_implicit_interval (dims ! d)))) \<longrightarrow>
         weq (off' + sum_list (map2 (*) x ss')) (off + sum_list (map2 (*) (affine_position infos x) ss)))"
  using assms
proof (induction infos arbitrary: dims ss off acc sing)
  case (Cons bs infos)
  obtain b s where bs: "bs = (b, s)" by (cases bs)
  obtain dd dims' where dims: "dims = dd # dims'" using Cons.prems by (cases dims) auto
  obtain c ss0 where ss: "ss = c # ss0" using Cons.prems by (cases ss) auto
  let ?i = "interval (optionally_implicit_interval dd)"
  let ?n = "wrap_Multiply c s"
  let ?c = "if interval_size ?i = 1 then 0 else ?n"
  define off1 where "off1 = (let o1 = wrap_Add off (wrap_Multiply c b) in
     if interval_size ?i = 1 then wrap_Add o1 (wrap_Multiply ?n (inclusive_min ?i)) else o1)"
  have step: "affine_array_loop (bs # infos) dims ss (off, acc, sing) =
      affine_array_loop infos dims' ss0 (off1, acc @ [?c], sing \<and> ?c = 0)"
    by (simp add: bs dims ss off1_def Let_def)
  obtain off' ss' where IH: "affine_array_loop infos dims' ss0 (off1, acc @ [?c], sing \<and> ?c = 0) =
      (off', (acc @ [?c]) @ ss', (sing \<and> ?c = 0) \<and> (\<forall>s \<in> set ss'. s = 0))" "length ss' = length infos"
    "\<forall>d < length infos. ss' ! d \<noteq> 0 \<longrightarrow> ss0 ! d \<noteq> 0"
    and IHx: "\<And>x. \<lbrakk>length x = length infos;
         \<forall>d < length infos. ss0 ! d \<noteq> 0 \<and> interval_size (interval (optionally_implicit_interval (dims' ! d))) = 1 \<longrightarrow>
            x ! d = inclusive_min (interval (optionally_implicit_interval (dims' ! d)))\<rbrakk> \<Longrightarrow>
         weq (off' + sum_list (map2 (*) x ss')) (off1 + sum_list (map2 (*) (affine_position infos x) ss0))"
    using Cons.IH [of dims' ss0 off1 "acc @ [?c]" "sing \<and> ?c = 0"] Cons.prems by (auto simp: dims ss)
  have o1: "weq (off1 + v * ?c) (off + c * b + c * s * v)"
    if "c \<noteq> 0 \<and> interval_size ?i = 1 \<longrightarrow> v = inclusive_min ?i" for v
  proof (cases "interval_size ?i = 1")
    case True
    have "weq off1 (off + c * b + c * s * inclusive_min ?i)"
      using True unfolding off1_def Let_def if_P [OF True]
      by (intro weq_trans [OF weq_wrap_Add] weq_add weq_trans [OF weq_wrap_Multiply] weq_mult weq_wrap_Multiply weq_refl)
    then show ?thesis using True that by (cases "c = 0") auto
  next
    case False
    have "weq (off1 + v * ?n) (off + c * b + v * (c * s))"
      unfolding off1_def Let_def if_not_P [OF False]
      by (intro weq_add weq_mult weq_refl weq_wrap_Multiply weq_trans [OF weq_wrap_Add])
    then show ?thesis using False by (simp add: algebra_simps)
  qed
  have "weq (off' + sum_list (map2 (*) x (?c # ss'))) (off + sum_list (map2 (*) (affine_position (bs # infos) x) ss))"
    if x: "length x = length (bs # infos)"
      "\<forall>d < length (bs # infos). ss ! d \<noteq> 0 \<and> interval_size (interval (optionally_implicit_interval (dims ! d))) = 1 \<longrightarrow>
            x ! d = inclusive_min (interval (optionally_implicit_interval (dims ! d)))" for x
  proof -
    obtain v y where xv: "x = v # y" using x(1) by (cases x) auto
    have "weq (off' + sum_list (map2 (*) y ss')) (off1 + sum_list (map2 (*) (affine_position infos y) ss0))"
    proof (rule IHx)
      show "length y = length infos" using x(1) by (simp add: xv)
      show "\<forall>d < length infos. ss0 ! d \<noteq> 0 \<and> interval_size (interval (optionally_implicit_interval (dims' ! d))) = 1 \<longrightarrow>
          y ! d = inclusive_min (interval (optionally_implicit_interval (dims' ! d)))"
        using x(2) by (force simp: xv ss dims)
    qed
    then have "weq (v * ?c + (off' + sum_list (map2 (*) y ss')))
        (v * ?c + (off1 + sum_list (map2 (*) (affine_position infos y) ss0)))" by (rule weq_add [OF weq_refl])
    also have "v * ?c + (off1 + sum_list (map2 (*) (affine_position infos y) ss0)) =
        (off1 + v * ?c) + sum_list (map2 (*) (affine_position infos y) ss0)" by simp
    also have "weq \<dots> (off + c * b + c * s * v + sum_list (map2 (*) (affine_position infos y) ss0))"
      using x(2) by (intro weq_add weq_refl o1) (auto simp: xv ss dims)
    finally show ?thesis by (simp add: xv bs ss algebra_simps)
  qed
  moreover have "?c \<noteq> 0 \<longrightarrow> c \<noteq> 0" by (auto simp: wrap_Multiply_def wrap_index_def)
  ultimately show ?case
    using IH step by (intro exI [of _ off'] exI [of _ "?c # ss'"]) (auto simp: ss nth_Cons split: nat.splits)
qed simp


text \<open>The size-one dimensions of an index array that has a stride there are explicit, so a position
  of the new domain has their origin.\<close>

lemma singleton_position:
  assumes "array_dims_ok old ss" "affine_dims infos old new" "d < length old" "ss ! d \<noteq> 0"
    and "interval_size (interval (optionally_implicit_interval (new ! d))) = 1"
    and "Contains_index (effective_interval (optionally_implicit_interval (new ! d))) v"
  shows "v = inclusive_min (interval (optionally_implicit_interval (new ! d)))"
proof -
  have e: "\<not> implicit_dimension (optionally_implicit_interval (old ! d))"
    using assms(1,3,4) by (auto simp: array_dims_ok_def list_all2_conv_all_nth)
  then have "\<not> implicit_dimension (optionally_implicit_interval (new ! d))"
    using affine_dims_nth(1) [OF assms(2,3)] by (simp add: affine_dim_iff)
  then show ?thesis
    using assms(5,6) by (auto simp: implicit_dimension_def effective_interval_def Contains_index_def inclusive_max_def)
qed

lemma apply_affine_map_single:
  assumes "map_method m = Method_single_input_dimension d"
  shows "apply_affine_map infos dims e m = Inr m' \<longleftrightarrow>
    in_int64 (fst (infos ! d) * map_stride m) \<and> in_int64 (fst (infos ! d) * map_stride m + map_offset m) \<and>
    in_int64 (snd (infos ! d) * map_stride m) \<and>
    m' = m\<lparr>map_offset := fst (infos ! d) * map_stride m + map_offset m, map_stride := snd (infos ! d) * map_stride m\<rparr>"
  using assms
  by (auto simp: apply_affine_map_def MulOverflow_def AddOverflow_def wrap_Multiply_def wrap_Add_def Let_def split: if_splits)

lemma apply_affine_map_array:
  assumes m: "map_method m = Method_array a" and l: "length dims = length infos" "length (byte_strides a) = length infos"
    and r: "apply_affine_map infos dims False m = Inr m'"
  obtains off ss where "length ss = length infos" "\<forall>d < length infos. ss ! d \<noteq> 0 \<longrightarrow> byte_strides a ! d \<noteq> 0"
    "\<And>x. \<lbrakk>length x = length infos;
         \<forall>d < length infos. byte_strides a ! d \<noteq> 0 \<and> interval_size (interval (optionally_implicit_interval (dims ! d))) = 1 \<longrightarrow>
            x ! d = inclusive_min (interval (optionally_implicit_interval (dims ! d)))\<rbrakk> \<Longrightarrow>
         element_pointer a (InnerProduct (affine_position infos x) (byte_strides a)) =
           AddByteOffset (element_pointer a) off (InnerProduct x ss)"
    "if \<forall>s \<in> set ss. s = 0
     then \<exists>o' s'. ReplaceZeroRankIndexArrayIndexMap (AddByteOffset (element_pointer a) off 0) (index_range a)
            (map_offset m) (map_stride m) = Inr (o', s') \<and>
          m' = \<lparr>map_method = Method_constant, map_offset = o', map_stride = s'\<rparr>
     else m' = m\<lparr>map_method := Method_array \<lparr>element_pointer = AddByteOffset (element_pointer a) off,
                     index_range = index_range a, byte_strides = ss\<rparr>\<rparr>"
proof -
  obtain off ss where o: "affine_array_loop infos dims (byte_strides a) (0, [], True) = (off, ss, \<forall>s \<in> set ss. s = 0)"
    and l': "length ss = length infos" "\<forall>d < length infos. ss ! d \<noteq> 0 \<longrightarrow> byte_strides a ! d \<noteq> 0"
    and w: "\<And>x. \<lbrakk>length x = length infos;
         \<forall>d < length infos. byte_strides a ! d \<noteq> 0 \<and> interval_size (interval (optionally_implicit_interval (dims ! d))) = 1 \<longrightarrow>
            x ! d = inclusive_min (interval (optionally_implicit_interval (dims ! d)))\<rbrakk> \<Longrightarrow>
         weq (off + sum_list (map2 (*) x ss)) (0 + sum_list (map2 (*) (affine_position infos x) (byte_strides a)))"
    using affine_array_loop_eq [OF l, of 0 "[]" True] by auto
  show ?thesis
  proof (rule that [OF l'])
    show "element_pointer a (InnerProduct (affine_position infos x) (byte_strides a)) =
        AddByteOffset (element_pointer a) off (InnerProduct x ss)"
      if "length x = length infos"
        "\<forall>d < length infos. byte_strides a ! d \<noteq> 0 \<and> interval_size (interval (optionally_implicit_interval (dims ! d))) = 1 \<longrightarrow>
            x ! d = inclusive_min (interval (optionally_implicit_interval (dims ! d)))" for x
    proof -
      have "wrap_index (off + sum_list (map2 (*) x ss)) =
          wrap_index (sum_list (map2 (*) (affine_position infos x) (byte_strides a)))"
        using w [OF that] by (simp add: wrap_index_eq_weq)
      then show ?thesis by (simp add: AddByteOffset_def wrap_Add_def InnerProduct_eq)
    qed
    have z: "InnerProduct (map (\<lambda>d. inclusive_min (interval (optionally_implicit_interval d))) dims) ss = 0"
      if "\<forall>s \<in> set ss. s = 0"
      using that l l'(1) by (simp add: InnerProduct_eq dot_zero)
    show "if \<forall>s \<in> set ss. s = 0
     then \<exists>o' s'. ReplaceZeroRankIndexArrayIndexMap (AddByteOffset (element_pointer a) off 0) (index_range a)
            (map_offset m) (map_stride m) = Inr (o', s') \<and>
          m' = \<lparr>map_method = Method_constant, map_offset = o', map_stride = s'\<rparr>
     else m' = m\<lparr>map_method := Method_array \<lparr>element_pointer = AddByteOffset (element_pointer a) off,
                     index_range = index_range a, byte_strides = ss\<rparr>\<rparr>"
      using r z m o by (auto simp: apply_affine_map_def Let_def bind_result_Inr_iff split: if_splits)
  qed
qed

lemma apply_affine_map_apply:
  assumes r: "apply_affine_map infos dims False m = Inr m'" and f: "map_fits (length infos) m"
    and l: "length dims = length infos" "length x = length infos"
    and s: "\<And>a d. \<lbrakk>map_method m = Method_array a; d < length infos; byte_strides a ! d \<noteq> 0;
      interval_size (interval (optionally_implicit_interval (dims ! d))) = 1\<rbrakk> \<Longrightarrow>
      x ! d = inclusive_min (interval (optionally_implicit_interval (dims ! d)))"
  shows "apply_map m' x = apply_map m (affine_position infos x)"
proof (cases "map_method m")
  case Method_constant
  then show ?thesis using r by (simp add: apply_affine_map_def apply_map_def)
next
  case (Method_single_input_dimension d)
  then have "d < length infos" using f by (simp add: map_fits_def)
  then show ?thesis
    using r l(2) Method_single_input_dimension
    by (simp add: apply_affine_map_single apply_map_eq map_in_range_def map_value_def base_value_def
        affine_position_def split_beta algebra_simps)
next
  case (Method_array a)
  have l': "length (byte_strides a) = length infos" using f Method_array by (simp add: map_fits_def)
  show ?thesis
  proof (rule apply_affine_map_array [OF Method_array l(1) l' r])
    fix off ss
    assume ss: "length ss = length infos"
      and p: "\<And>x. \<lbrakk>length x = length infos;
         \<forall>d < length infos. byte_strides a ! d \<noteq> 0 \<and> interval_size (interval (optionally_implicit_interval (dims ! d))) = 1 \<longrightarrow>
            x ! d = inclusive_min (interval (optionally_implicit_interval (dims ! d)))\<rbrakk> \<Longrightarrow>
         element_pointer a (InnerProduct (affine_position infos x) (byte_strides a)) =
           AddByteOffset (element_pointer a) off (InnerProduct x ss)"
      and m': "if \<forall>s \<in> set ss. s = 0
     then \<exists>o' s'. ReplaceZeroRankIndexArrayIndexMap (AddByteOffset (element_pointer a) off 0) (index_range a)
            (map_offset m) (map_stride m) = Inr (o', s') \<and>
          m' = \<lparr>map_method = Method_constant, map_offset = o', map_stride = s'\<rparr>
     else m' = m\<lparr>map_method := Method_array \<lparr>element_pointer = AddByteOffset (element_pointer a) off,
                     index_range = index_range a, byte_strides = ss\<rparr>\<rparr>"
    have px: "element_pointer a (InnerProduct (affine_position infos x) (byte_strides a)) =
        AddByteOffset (element_pointer a) off (InnerProduct x ss)"
      using s [OF Method_array] l(2) by (intro p) auto
    show ?thesis
    proof (cases "\<forall>s \<in> set ss. s = 0")
      case True
      then have z: "InnerProduct x ss = 0" using l(2) ss by (simp add: InnerProduct_eq dot_zero)
      obtain o' s' where "ReplaceZeroRankIndexArrayIndexMap (AddByteOffset (element_pointer a) off 0) (index_range a)
            (map_offset m) (map_stride m) = Inr (o', s')" "m' = \<lparr>map_method = Method_constant, map_offset = o', map_stride = s'\<rparr>"
        using m' True by auto
      then show ?thesis
        using ReplaceZeroRank_apply [of "AddByteOffset (element_pointer a) off 0" "index_range a" "map_offset m" "map_stride m" o' s'] Method_array px z
        by (simp add: apply_map_def CheckContains_def wrap_Add_def wrap_Multiply_def)
    next
      case False
      then show ?thesis using m' Method_array px by (simp only: if_not_P) (simp add: apply_map_def)
    qed
  qed
qed

lemma apply_affine_map_invariant:
  assumes r: "apply_affine_map infos (input_dims u) (IsDomainExplicitlyEmpty u) m = Inr m'" and mi: "map_invariant t m"
    and a: "affine_dims infos (input_dims t) (input_dims u)"
  shows "map_invariant u m'"
proof (cases "map_method m")
  case Method_constant
  then show ?thesis using r mi by (auto simp: apply_affine_map_def map_invariant_def)
next
  case (Method_single_input_dimension d)
  then have d: "d < input_rank t" "map_stride m \<noteq> 0" using mi by (simp_all add: map_invariant_def)
  then have "snd (infos ! d) \<noteq> 0" "d < input_rank u"
    using affine_dims_nth(1) [OF a, of d] a by (simp_all add: affine_dims_def affine_dim_iff input_rank_def)
  then show ?thesis
    using r d Method_single_input_dimension by (simp add: apply_affine_map_single map_invariant_def)
next
  case (Method_array b)
  show ?thesis
  proof (cases "IsDomainExplicitlyEmpty u")
    case True
    then show ?thesis using r Method_array by (auto simp: apply_affine_map_def map_invariant_def constant_map_def)
  next
    case False
    have ok: "map_stride m \<noteq> 0" "array_dims_ok (input_dims t) (byte_strides b)"
      using mi by (simp_all add: map_invariant_array [OF Method_array])
    have l: "length (input_dims u) = length infos" "length (byte_strides b) = length infos" "length (input_dims t) = length infos"
      using a ok(2) by (simp_all add: affine_dims_def array_dims_ok_def list_all2_lengthD)
    have r': "apply_affine_map infos (input_dims u) False m = Inr m'" using r False by simp
    show ?thesis
    proof (rule apply_affine_map_array [OF Method_array l(1,2) r'])
      fix off ss
      assume ss: "length ss = length infos" "\<forall>d < length infos. ss ! d \<noteq> 0 \<longrightarrow> byte_strides b ! d \<noteq> 0"
        and m': "if \<forall>s \<in> set ss. s = 0
     then \<exists>o' s'. ReplaceZeroRankIndexArrayIndexMap (AddByteOffset (element_pointer b) off 0) (index_range b)
            (map_offset m) (map_stride m) = Inr (o', s') \<and>
          m' = \<lparr>map_method = Method_constant, map_offset = o', map_stride = s'\<rparr>
     else m' = m\<lparr>map_method := Method_array \<lparr>element_pointer = AddByteOffset (element_pointer b) off,
                     index_range = index_range b, byte_strides = ss\<rparr>\<rparr>"
      have "array_dims_ok (input_dims u) ss"
        unfolding array_dims_ok_def list_all2_conv_all_nth
      proof (intro conjI allI impI)
        show "length (input_dims u) = length ss" using l ss by simp
        fix d
        assume d: "d < length (input_dims u)" "ss ! d \<noteq> 0"
        then have "IsFinite_interval (interval (optionally_implicit_interval (input_dims t ! d))) \<and>
            \<not> implicit_dimension (optionally_implicit_interval (input_dims t ! d))"
          using ok(2) ss l by (simp add: array_dims_ok_def list_all2_conv_all_nth)
        then show "IsFinite_interval (interval (optionally_implicit_interval (input_dims u ! d)))"
          "\<not> implicit_dimension (optionally_implicit_interval (input_dims u ! d))"
          using affine_dims_nth(1) [OF a, of d] d l by (simp_all add: affine_dim_iff)
      qed
      then show ?thesis
        using m' ok(1) False ReplaceZeroRank_apply
        by (auto simp: map_invariant_array map_invariant_def [of u "\<lparr>map_method = Method_constant, map_offset = _, map_stride = _\<rparr>"] split: if_splits)
    qed
  qed
qed


section \<open>The contracts of the operations\<close>

text \<open>Everything the two operations share, once their loop has established \<open>affine_dims\<close>.\<close>

lemma ApplyOffsets_Inr:
  assumes r: "ApplyOffsetsAndStridesToOutputIndexMaps (t\<lparr>input_dims := dims\<rparr>) infos = Inr u"
  shows "input_dims u = dims" "output_rank u = output_rank t"
    and "\<And>k. k < output_rank t \<Longrightarrow>
      apply_affine_map infos (input_dims u) (IsDomainExplicitlyEmpty u) (output_index_maps t ! k) = Inr (output_index_maps u ! k)"
proof -
  obtain maps where u: "u = t\<lparr>input_dims := dims, output_index_maps := maps\<rparr>"
    and m: "map_result (apply_affine_map infos dims (IsDomainExplicitlyEmpty (t\<lparr>input_dims := dims\<rparr>))) (output_index_maps t) = Inr maps"
    using r by (auto simp: ApplyOffsetsAndStridesToOutputIndexMaps_def bind_result_Inr_iff)
  have "IsDomainExplicitlyEmpty u = IsDomainExplicitlyEmpty (t\<lparr>input_dims := dims\<rparr>)"
    by (simp add: u IsDomainExplicitlyEmpty_def)
  with m show "input_dims u = dims" "output_rank u = output_rank t"
    "\<And>k. k < output_rank t \<Longrightarrow>
      apply_affine_map infos (input_dims u) (IsDomainExplicitlyEmpty u) (output_index_maps t ! k) = Inr (output_index_maps u ! k)"
    by (auto simp: u output_rank_def map_result_Inr_iff)
qed

lemma affine_domain:
  assumes a: "affine_dims infos (input_dims t) (input_dims u)" and x: "in_domain u x"
    and f: "finite_vec (affine_position infos x)"
  shows "in_domain t (affine_position infos x)"
proof -
  have l: "length infos = input_rank t" "input_rank u = input_rank t"
    using a by (simp_all add: affine_dims_def input_rank_def)
  have lx: "length x = input_rank t" using x l by (simp add: in_domain_def)
  have "in_bounds (effective_interval (optionally_implicit_domain t d)) (affine_position infos x ! d)"
    if d: "d < input_rank t" for d
  proof -
    have "in_bounds (effective_interval (optionally_implicit_domain u d)) (x ! d)"
      using x d l by (simp add: in_domain_iff)
    then show ?thesis
      using affine_dims_nth(1) [OF a, of d] d l lx
      by (simp add: affine_dim_iff optionally_implicit_domain_def input_rank_def affine_position_def split_beta)
  qed
  then show ?thesis using f l lx by (simp add: in_domain_iff affine_position_def)
qed

lemma affine_maps:
  assumes a: "affine_dims infos (input_dims t) (input_dims u)" and x: "in_domain u x" and inv: "DebugCheckInvariants t"
    and k: "k < output_rank t"
    and r: "apply_affine_map infos (input_dims u) (IsDomainExplicitlyEmpty u) (output_index_maps t ! k) = Inr (output_index_maps u ! k)"
  shows "apply_map (output_index_maps u ! k) x = apply_map (output_index_maps t ! k) (affine_position infos x)"
proof (rule apply_affine_map_apply)
  note mi = invariant_map [OF inv k]
  show "apply_affine_map infos (input_dims u) False (output_index_maps t ! k) = Inr (output_index_maps u ! k)"
    using r in_domain_not_empty [OF x] by simp
  have l: "length infos = input_rank t" "input_rank u = input_rank t"
    using a by (simp_all add: affine_dims_def input_rank_def)
  then show "map_fits (length infos) (output_index_maps t ! k)" using map_invariant_fits [OF mi] by simp
  show "length (input_dims u) = length infos" "length x = length infos"
    using x l by (simp_all add: in_domain_def input_rank_def)
  fix b d
  assume b: "map_method (output_index_maps t ! k) = Method_array b" and d: "d < length infos" "byte_strides b ! d \<noteq> 0"
    and s: "interval_size (interval (optionally_implicit_interval (input_dims u ! d))) = 1"
  have "array_dims_ok (input_dims t) (byte_strides b)" using mi by (simp add: map_invariant_array [OF b])
  then show "x ! d = inclusive_min (interval (optionally_implicit_interval (input_dims u ! d)))"
    using singleton_position [OF _ a, of "byte_strides b" d "x ! d"] d s x l
    by (simp add: in_domain_def optionally_implicit_domain_def input_rank_def)
qed

lemma affine_invariants:
  assumes a: "affine_dims infos (input_dims t) (input_dims u)" and inv: "DebugCheckInvariants t"
    and o: "output_rank u = output_rank t"
    and r: "\<And>k. k < output_rank t \<Longrightarrow>
      apply_affine_map infos (input_dims u) (IsDomainExplicitlyEmpty u) (output_index_maps t ! k) = Inr (output_index_maps u ! k)"
  shows "DebugCheckInvariants u"
proof (rule invariantsI)
  have l: "length (input_dims u) = length (input_dims t)" using a by (simp add: affine_dims_def)
  have "map label (input_dims u) = map label (input_dims t)"
    using affine_dims_nth(2) [OF a] l by (intro nth_equalityI) auto
  then show "labels_unique (map label (input_dims u))" using inv by (simp add: invariants_iff)
  show "valid_interval (interval (optionally_implicit_domain u d))" if "d < input_rank u" for d
    using affine_dims_nth(1) [OF a, of d] that l by (simp add: affine_dim_iff optionally_implicit_domain_def input_rank_def)
  show "map_invariant u (output_index_maps u ! k)" if "k < output_rank u" for k
    using apply_affine_map_invariant [OF r invariant_map [OF inv] a] that o by simp
qed

text \<open>The affine maps of all dimensions, from the arguments of the selected ones.\<close>

definition slice_infos ::
  "('a \<Rightarrow> oi_interval \<Rightarrow> (oi_interval \<times> interval_slice_info) result) \<Rightarrow> (nat \<times> 'a) list \<Rightarrow> transform_rep \<Rightarrow>
     interval_slice_info list" where
  "slice_infos step ps t = map (\<lambda>d.
     case map_of ps d of
       None \<Rightarrow> (0, 1)
     | Some a \<Rightarrow> (case step a (optionally_implicit_domain t d) of Inr (_, info) \<Rightarrow> info | Inl _ \<Rightarrow> (0, 1))) [0..<input_rank t]"

lemma affine_loop_infos:
  assumes r: "affine_loop step ps (input_dims t, replicate (input_rank t) (0, 1)) = Inr (dims', infos)"
    and p: "distinct (map fst ps)"
  shows "infos = slice_infos step ps t"
proof (rule nth_equalityI)
  show l: "length infos = length (slice_infos step ps t)"
    using affine_loop_length [OF r] by (simp add: slice_infos_def)
  fix d
  assume "d < length infos"
  then have d: "d < input_rank t" using l by (simp add: slice_infos_def)
  then show "infos ! d = slice_infos step ps t ! d"
    using affine_loop_Inr [OF r p, of d]
    by (auto simp: slice_infos_def input_rank_def optionally_implicit_domain_def split: option.splits)
qed

lemma slice_arguments_fst [simp]: "map fst (slice_arguments dims a b c) = dims"
  by (simp add: slice_arguments_def)

lemma selected_offsets_fst [simp]: "map fst (selected_offsets dims a) = dims"
  by (simp add: selected_offsets_def)

lemma slice_step_affine:
  "\<lbrakk>slice_step form tr a oi = Inr (new, info); valid_interval (interval oi)\<rbrakk> \<Longrightarrow> affine_dim info oi new"
  by (auto simp: slice_step_def bind_result_Inr_iff split: prod.splits intro: ComputeStridedSliceMap_affine)

lemma ApplyIntervalSliceOp_Inr:
  assumes r: "ApplyIntervalSliceOp t dims form tr starts stops strides False = Inr u"
    and a: "valid_selection (input_rank t) dims" "DebugCheckInvariants t"
  defines "infos \<equiv> slice_infos (slice_step form tr) (slice_arguments dims starts stops strides) t"
  shows "affine_dims infos (input_dims t) (input_dims u)" "output_rank u = output_rank t"
    and "\<And>k. k < output_rank t \<Longrightarrow>
      apply_affine_map infos (input_dims u) (IsDomainExplicitlyEmpty u) (output_index_maps t ! k) = Inr (output_index_maps u ! k)"
proof -
  let ?ps = "slice_arguments dims starts stops strides"
  obtain ds ifs where l: "affine_loop (slice_step form tr) ?ps (input_dims t, replicate (input_rank t) (0, 1)) = Inr (ds, ifs)"
    and u: "ApplyOffsetsAndStridesToOutputIndexMaps (t\<lparr>input_dims := ds\<rparr>) ifs = Inr u"
    using r by (auto simp: ApplyIntervalSliceOp_def GetIntervalSliceInfo_def interval_slice_loop_eq MutableRep_def Let_def bind_result_Inr_iff)
  have d: "distinct (map fst ?ps)" using a(1) by (simp add: valid_selection_def)
  have ifs: "ifs = infos" using affine_loop_infos [OF l d] by (simp add: infos_def)
  note u' = ApplyOffsets_Inr [OF u]
  show "affine_dims infos (input_dims t) (input_dims u)"
    using affine_loop_dims [of _ ?ps "input_dims t" ds ifs] l d slice_step_affine invariant_interval [OF a(2)]
    unfolding u'(1) ifs input_rank_def optionally_implicit_domain_def by blast
  show "output_rank u = output_rank t" "\<And>k. k < output_rank t \<Longrightarrow>
      apply_affine_map infos (input_dims u) (IsDomainExplicitlyEmpty u) (output_index_maps t ! k) = Inr (output_index_maps u ! k)"
    using u'(2,3) ifs by simp_all
qed

interpretation interval_slice: index_operation
  "\<lambda>(dims, form, tr, starts, stops, strides) t. ApplyIntervalSliceOp t dims form tr starts stops strides False"
  "\<lambda>(dims, form, tr, starts, stops, strides) t. valid_selection (input_rank t) dims \<and> DebugCheckInvariants t"
  "\<lambda>(dims, form, tr, starts, stops, strides) t.
     affine_position (slice_infos (slice_step form tr) (slice_arguments dims starts stops strides) t)"
proof (unfold_locales, goal_cases)
  case (1 p t u)
  obtain dims form tr starts stops strides where "p = (dims, form, tr, starts, stops, strides)" by (rule prod_cases6)
  then show ?case using 1 ApplyIntervalSliceOp_Inr(2) [of t dims form tr starts stops strides u] by simp
next
  case (2 p t u x)
  obtain dims form tr starts stops strides where "p = (dims, form, tr, starts, stops, strides)" by (rule prod_cases6)
  then show ?case
    using 2 ApplyIntervalSliceOp_Inr(1) [of t dims form tr starts stops strides u] by (simp add: affine_domain)
next
  case (3 p t u x k)
  obtain dims form tr starts stops strides where p: "p = (dims, form, tr, starts, stops, strides)" by (rule prod_cases6)
  have r: "ApplyIntervalSliceOp t dims form tr starts stops strides False = Inr u"
    "valid_selection (input_rank t) dims" "DebugCheckInvariants t" using 3 by (simp_all add: p)
  note i = ApplyIntervalSliceOp_Inr [OF r]
  show ?case using affine_maps [OF i(1) 3(3) r(3) 3(4) i(3) [OF 3(4)]] by (simp add: p)
next
  case (4 p t u)
  obtain dims form tr starts stops strides where p: "p = (dims, form, tr, starts, stops, strides)" by (rule prod_cases6)
  have r: "ApplyIntervalSliceOp t dims form tr starts stops strides False = Inr u"
    "valid_selection (input_rank t) dims" "DebugCheckInvariants t" using 4 by (simp_all add: p)
  note i = ApplyIntervalSliceOp_Inr [OF r]
  show ?case by (rule affine_invariants [OF i(1) r(3) i(2,3)])
qed

text \<open>\<^verbatim>\<open>Stride\<close> with a negative stride mirrors empty intervals off by one, so its contract excludes
  them.\<close>

definition stride_admissible :: "nat list \<Rightarrow> index_vector_or_scalar \<Rightarrow> transform_rep \<Rightarrow> bool" where
  "stride_admissible dims strides t \<longleftrightarrow>
     (\<forall>(d, s) \<in> set (selected_offsets dims strides).
        0 < s \<or> \<not> empty_interval (interval (optionally_implicit_domain t d)))"

lemma ApplyStrideOp_Inr:
  assumes r: "ApplyStrideOp t dims strides False = Inr u"
    and a: "valid_selection (input_rank t) dims" "DebugCheckInvariants t" "stride_admissible dims strides t"
  defines "infos \<equiv> slice_infos stride_step (selected_offsets dims strides) t"
  shows "affine_dims infos (input_dims t) (input_dims u)" "output_rank u = output_rank t"
    and "\<And>k. k < output_rank t \<Longrightarrow>
      apply_affine_map infos (input_dims u) (IsDomainExplicitlyEmpty u) (output_index_maps t ! k) = Inr (output_index_maps u ! k)"
proof -
  let ?ps = "selected_offsets dims strides"
  obtain ds ifs where l: "affine_loop stride_step ?ps (input_dims t, replicate (input_rank t) (0, 1)) = Inr (ds, ifs)"
    and u: "ApplyOffsetsAndStridesToOutputIndexMaps (t\<lparr>input_dims := ds\<rparr>) ifs = Inr u"
    using r by (auto simp: ApplyStrideOp_def stride_loop_eq MutableRep_def Let_def bind_result_Inr_iff)
  have d: "distinct (map fst ?ps)" using a(1) by (simp add: valid_selection_def)
  have ifs: "ifs = infos" using affine_loop_infos [OF l d] by (simp add: infos_def)
  note u' = ApplyOffsets_Inr [OF u]
  have "affine_dim info (optionally_implicit_interval (input_dims t ! d)) new"
    if "(d, s) \<in> set ?ps" "d < length (input_dims t)"
      "stride_step s (optionally_implicit_interval (input_dims t ! d)) = Inr (new, info)" for d s new info
    using that a(3) invariant_interval [OF a(2), of d]
    by (auto simp: stride_step_def bind_result_Inr_iff stride_admissible_def input_rank_def optionally_implicit_domain_def
        split: if_splits intro!: stride_affine)
  then show "affine_dims infos (input_dims t) (input_dims u)"
    using affine_loop_dims [of _ ?ps "input_dims t" ds ifs] l d invariant_interval [OF a(2)]
    unfolding u'(1) ifs input_rank_def optionally_implicit_domain_def by blast
  show "output_rank u = output_rank t" "\<And>k. k < output_rank t \<Longrightarrow>
      apply_affine_map infos (input_dims u) (IsDomainExplicitlyEmpty u) (output_index_maps t ! k) = Inr (output_index_maps u ! k)"
    using u'(2,3) ifs by simp_all
qed

interpretation stride: index_operation
  "\<lambda>(dims, strides) t. ApplyStrideOp t dims strides False"
  "\<lambda>(dims, strides) t. valid_selection (input_rank t) dims \<and> DebugCheckInvariants t \<and> stride_admissible dims strides t"
  "\<lambda>(dims, strides) t. affine_position (slice_infos stride_step (selected_offsets dims strides) t)"
proof (unfold_locales, goal_cases)
  case (1 p t u)
  then show ?case using ApplyStrideOp_Inr(2) [of t "fst p" "snd p" u] by (simp add: split_beta)
next
  case (2 p t u x)
  then show ?case using ApplyStrideOp_Inr(1) [of t "fst p" "snd p" u] by (simp add: affine_domain split_beta)
next
  case (3 p t u x k)
  have r: "ApplyStrideOp t (fst p) (snd p) False = Inr u"
    "valid_selection (input_rank t) (fst p)" "DebugCheckInvariants t" "stride_admissible (fst p) (snd p) t"
    using 3 by (simp_all add: split_beta)
  note i = ApplyStrideOp_Inr [OF r]
  show ?case using affine_maps [OF i(1) 3(3) r(3) 3(4) i(3) [OF 3(4)]] by (simp add: split_beta)
next
  case (4 p t u)
  have r: "ApplyStrideOp t (fst p) (snd p) False = Inr u"
    "valid_selection (input_rank t) (fst p)" "DebugCheckInvariants t" "stride_admissible (fst p) (snd p) t"
    using 4 by (simp_all add: split_beta)
  note i = ApplyStrideOp_Inr [OF r]
  show ?case by (rule affine_invariants [OF i(1) r(3) i(2,3)])
qed

end
