(* ===== verification/Renumber_Ops.thy ===== *)
theory Renumber_Ops
  imports Interval_Slice
begin

text \<open>
  \<^verbatim>\<open>diagonal_op.cc\<close> and \<^verbatim>\<open>add_new_dims_op.cc\<close>: the operations that renumber the input
  dimensions. Both compute \<^verbatim>\<open>orig_to_new_input_dim\<close> and redirect the output index maps; the new
  transform at a position is the existing one at the position read through that array.
\<close>

section \<open>diagonal\_op.cc\<close>

text \<open>A loop of assignments \<^verbatim>\<open>array[i] = v\<close>.\<close>

fun scatter :: "(nat \<times> 'a) list \<Rightarrow> 'a list \<Rightarrow> 'a list" where
  "scatter [] arr = arr"
| "scatter ((i, v) # ps) arr = scatter ps (arr[i := v])"

definition ShiftRangeForwardByOne :: "'a list \<Rightarrow> 'a list" where
  "ShiftRangeForwardByOne rng = (case rng of [] \<Rightarrow> [] | v # _ \<Rightarrow> v # butlast rng)"

fun diagonal_loop ::
  "transform_rep \<Rightarrow> nat list \<Rightarrow> nat option list \<times> index_interval \<times> bool \<times> bool \<Rightarrow>
     nat option list \<times> index_interval \<times> bool \<times> bool" where
  "diagonal_loop original [] s = s"
| "diagonal_loop original (orig_input_dim # ds) (orig_to_new, diagonal_bounds, lower_diag_implicit, upper_diag_implicit) =
     (let d = optionally_implicit_domain original orig_input_dim
      in diagonal_loop original ds
           (orig_to_new[orig_input_dim := Some 0], Intersect diagonal_bounds (interval d),
            lower_diag_implicit \<and> implicit_lower d, upper_diag_implicit \<and> implicit_upper d))"

text \<open>The entries \<open>-1\<close> of \<^verbatim>\<open>orig_to_new_input_dim\<close>, here \<open>None\<close>, are numbered in order.\<close>

fun number_remaining :: "nat \<Rightarrow> nat option list \<Rightarrow> nat list" where
  "number_remaining new_input_dim [] = []"
| "number_remaining new_input_dim (Some d # ps) = d # number_remaining new_input_dim ps"
| "number_remaining new_input_dim (None # ps) = new_input_dim # number_remaining (Suc new_input_dim) ps"

text \<open>The fields of the dimensions outside of the diagonal: stored one position behind, and moved.\<close>

definition shift_in :: "nat list \<Rightarrow> nat \<Rightarrow> 'a \<Rightarrow> 'a list \<Rightarrow> 'a list" where
  "shift_in orig_to_new new_input_rank diagonal orig =
     (ShiftRangeForwardByOne
        (scatter (map (\<lambda>(n, v). (n - 1, v)) (filter (\<lambda>(n, v). n \<noteq> 0) (zip orig_to_new orig)))
           (replicate new_input_rank diagonal)))[0 := diagonal]"

fun sum_wrap :: "int list \<Rightarrow> int \<Rightarrow> int" where
  "sum_wrap [] acc = acc"
| "sum_wrap (s # ss) acc = sum_wrap ss (wrap_Add acc s)"

definition diagonal_map ::
  "nat list \<Rightarrow> nat list \<Rightarrow> nat \<Rightarrow> bool \<Rightarrow> output_index_map \<Rightarrow> output_index_map" where
  "diagonal_map dimensions orig_to_new new_input_rank domain_is_explicitly_empty m =
     (case map_method m of
        Method_constant \<Rightarrow> m
      | Method_single_input_dimension d \<Rightarrow> m\<lparr>map_method := Method_single_input_dimension (orig_to_new ! d)\<rparr>
      | Method_array a \<Rightarrow>
          if domain_is_explicitly_empty then constant_map 0
          else m\<lparr>map_method := Method_array
                  \<lparr>element_pointer = element_pointer a, index_range = index_range a,
                   byte_strides = shift_in orig_to_new new_input_rank
                     (sum_wrap (map (nth (byte_strides a)) dimensions) 0) (byte_strides a)\<rparr>\<rparr>)"

definition ExtractDiagonal :: "transform_rep \<Rightarrow> nat list \<Rightarrow> bool \<Rightarrow> transform_rep \<times> nat list" where
  "ExtractDiagonal original dimensions domain_only =
     (let new_input_rank = input_rank original - length dimensions + 1;
          (marked, diagonal_bounds, lower_diag_implicit, upper_diag_implicit) =
            diagonal_loop original dimensions (replicate (input_rank original) None, Infinite, True, True);
          orig_to_new = number_remaining 1 marked;
          domain_is_explicitly_empty =
            (\<not> lower_diag_implicit \<and> \<not> upper_diag_implicit \<and> empty_interval diagonal_bounds);
          diagonal = \<lparr>optionally_implicit_interval =
              \<lparr>interval = diagonal_bounds, implicit_lower = lower_diag_implicit, implicit_upper = upper_diag_implicit\<rparr>,
              label = []\<rparr>
      in (\<lparr>input_dims = shift_in orig_to_new new_input_rank diagonal (input_dims original),
           output_index_maps =
             (if domain_only then []
              else map (diagonal_map dimensions orig_to_new new_input_rank domain_is_explicitly_empty)
                     (output_index_maps original))\<rparr>,
          [0]))"

definition ApplyDiagonal :: "transform_rep \<Rightarrow> nat list \<Rightarrow> bool \<Rightarrow> (transform_rep \<times> nat list) result" where
  "ApplyDiagonal t dimensions domain_only = Inr (ExtractDiagonal t dimensions domain_only)"

section \<open>add\_new\_dims\_op.cc\<close>

definition existing_dims :: "nat list \<Rightarrow> nat \<Rightarrow> nat list" where
  "existing_dims dimensions new_input_rank = filter (\<lambda>d. d \<notin> set dimensions) [0..<new_input_rank]"

definition inert_dimension :: index_domain_dimension where
  "inert_dimension = \<lparr>optionally_implicit_interval =
     \<lparr>interval = UncheckedSized (- kInfIndex) kInfSize, implicit_lower = True, implicit_upper = True\<rparr>,
     label = []\<rparr>"

definition add_dims_map :: "nat list \<Rightarrow> nat list \<Rightarrow> nat \<Rightarrow> output_index_map \<Rightarrow> output_index_map" where
  "add_dims_map dimensions orig_to_new new_input_rank m =
     (case map_method m of
        Method_constant \<Rightarrow> m
      | Method_single_input_dimension d \<Rightarrow> m\<lparr>map_method := Method_single_input_dimension (orig_to_new ! d)\<rparr>
      | Method_array a \<Rightarrow>
          m\<lparr>map_method := Method_array
             \<lparr>element_pointer = element_pointer a, index_range = index_range a,
              byte_strides = scatter (map (\<lambda>d. (d, 0)) dimensions)
                (scatter (rev (zip orig_to_new (byte_strides a))) (replicate new_input_rank 0))\<rparr>\<rparr>)"

definition AddNewDims :: "transform_rep \<Rightarrow> nat list \<Rightarrow> bool \<Rightarrow> transform_rep" where
  "AddNewDims original dimensions domain_only =
     (let new_input_rank = input_rank original + length dimensions;
          orig_to_new = existing_dims dimensions new_input_rank
      in \<lparr>input_dims = scatter (map (\<lambda>d. (d, inert_dimension)) dimensions)
            (scatter (rev (zip orig_to_new (input_dims original))) (replicate new_input_rank inert_dimension)),
          output_index_maps =
            (if domain_only then []
             else map (add_dims_map dimensions orig_to_new new_input_rank) (output_index_maps original))\<rparr>)"

definition ValidateRank :: "int \<Rightarrow> unit result" where
  "ValidateRank rnk = (if 0 \<le> rnk \<and> rnk \<le> 32 then Inr () else Inl InvalidArgument)"

definition ApplyAddNewDims :: "transform_rep \<Rightarrow> nat list \<Rightarrow> bool \<Rightarrow> transform_rep result" where
  "ApplyAddNewDims t dimensions domain_only =
     bind_result (ValidateRank (int (input_rank t + length dimensions)))
       (\<lambda>_. Inr (AddNewDims t dimensions domain_only))"

section \<open>Renumbered output index maps\<close>

text \<open>\<open>renumbered f n m m'\<close>: \<open>m'\<close> is \<open>m\<close> with input dimension \<open>i\<close> replaced by \<open>f ! i < n\<close>; the
  byte stride of a new dimension is the sum of those of the dimensions mapped to it.\<close>

definition stride_sum :: "nat list \<Rightarrow> int list \<Rightarrow> nat \<Rightarrow> int" where
  "stride_sum f ss j = (\<Sum>i < length f. if f ! i = j then ss ! i else 0)"

definition renumbered :: "nat list \<Rightarrow> nat \<Rightarrow> output_index_map \<Rightarrow> output_index_map \<Rightarrow> bool" where
  "renumbered f n m m' \<longleftrightarrow>
     map_offset m' = map_offset m \<and> map_stride m' = map_stride m \<and>
     (case map_method m of
        Method_constant \<Rightarrow> map_method m' = Method_constant
      | Method_single_input_dimension d \<Rightarrow> map_method m' = Method_single_input_dimension (f ! d)
      | Method_array a \<Rightarrow>
          (\<exists>ss. map_method m' = Method_array \<lparr>element_pointer = element_pointer a, index_range = index_range a,
               byte_strides = ss\<rparr> \<and> length ss = n \<and> (\<forall>j < n. weq (ss ! j) (stride_sum f (byte_strides a) j))))"

lemma sum_list_map2: "length a = length b \<Longrightarrow> sum_list (map2 (*) a b) = (\<Sum>i < length b. a ! i * (b ! i :: int))"
  by (simp add: sum_list_sum_nth atLeast0LessThan)

lemma stride_sum_dot:
  assumes f: "\<forall>j \<in> set f. j < n" and x: "length x = n" and l: "length ss = length f"
  shows "(\<Sum>j < n. x ! j * stride_sum f ss j) = sum_list (map2 (*) (map (nth x) f) ss)"
proof -
  have "(\<Sum>j < n. x ! j * stride_sum f ss j) = (\<Sum>i < length f. \<Sum>j < n. if f ! i = j then x ! j * ss ! i else 0)"
    unfolding stride_sum_def sum_distrib_left
    by (subst sum.swap) (intro sum.cong refl, simp)
  also have "\<dots> = (\<Sum>i < length f. x ! (f ! i) * ss ! i)"
    using f by (intro sum.cong refl) (simp add: sum.delta)
  finally show ?thesis using l by (simp add: sum_list_map2)
qed

lemma renumbered_apply:
  assumes r: "renumbered f n m m'" and m: "map_fits (length f) m" and f: "\<forall>j \<in> set f. j < n" and x: "length x = n"
  shows "apply_map m' x = apply_map m (map (nth x) f)"
proof (cases "map_method m")
  case (Method_array a)
  obtain ss where ss: "map_method m' = Method_array \<lparr>element_pointer = element_pointer a, index_range = index_range a,
      byte_strides = ss\<rparr>" "length ss = n" "\<forall>j < n. weq (ss ! j) (stride_sum f (byte_strides a) j)"
    using r Method_array by (auto simp: renumbered_def)
  have l: "length (byte_strides a) = length f" using m Method_array by (simp add: map_fits_def)
  have "weq (\<Sum>j < n. x ! j * ss ! j) (\<Sum>j < n. x ! j * stride_sum f (byte_strides a) j)"
    unfolding sum.list_conv_set_nth [symmetric] lessThan_atLeast0 interv_sum_list_conv_sum_set_nat [symmetric] set_upt [symmetric]
    using ss(3) by (intro weq_sum_list weq_mult weq_refl) auto
  then have "InnerProduct x ss = InnerProduct (map (nth x) f) (byte_strides a)"
    using ss(2) x stride_sum_dot [OF f x l] by (simp add: InnerProduct_eq wrap_index_eq_weq sum_list_map2)
  then show ?thesis
    using r ss(1) Method_array by (simp add: renumbered_def apply_map_def)
qed (use r m in \<open>auto simp: renumbered_def apply_map_def map_fits_def\<close>)


lemma stride_sum_simps [simp]:
  "stride_sum [] ss j = 0"
  "stride_sum (a # f) (s # ss) j = (if a = j then s else 0) + stride_sum f ss j"
  by (simp_all add: stride_sum_def sum.lessThan_Suc_shift del: sum.lessThan_Suc cong: if_cong)

lemma length_scatter [simp]: "length (scatter ps arr) = length arr"
  by (induction ps arr rule: scatter.induct) simp_all

lemma scatter_nth:
  "distinct (map fst ps) \<Longrightarrow> i < length arr \<Longrightarrow>
     scatter ps arr ! i = (case map_of ps i of None \<Rightarrow> arr ! i | Some v \<Rightarrow> v)"
proof (induction ps arr rule: scatter.induct)
  case (2 j v ps arr)
  then show ?case by (auto simp: map_of_eq_None_iff image_iff split: option.splits dest: map_of_SomeD)
qed simp

section \<open>The contract of the diagonal\<close>

definition diag_marked :: "nat option list \<Rightarrow> bool" where
  "diag_marked marked \<longleftrightarrow> (\<forall>m \<in> set marked. m = None \<or> m = Some 0)"

lemma diag_marked_simps [simp]:
  "diag_marked []" "diag_marked (m # ms) \<longleftrightarrow> (m = None \<or> m = Some 0) \<and> diag_marked ms"
  by (auto simp: diag_marked_def)

lemma length_number_remaining [simp]: "length (number_remaining k ms) = length ms"
  by (induction k ms rule: number_remaining.induct) simp_all

lemma scatter_kept:
  assumes "diag_marked ms" "length orig = length ms" "k + length (kept ms orig) \<le> length arr"
  shows "scatter (map (\<lambda>(n, v). (n - 1, v)) (filter (\<lambda>(n, v). n \<noteq> 0) (zip (number_remaining (Suc k) ms) orig))) arr =
    take k arr @ kept ms orig @ drop (k + length (kept ms orig)) arr"
  using assms
proof (induction "Suc k" ms arbitrary: k orig arr rule: number_remaining.induct)
  case (2 d ms)
  then show ?case by (cases orig) auto
next
  case (3 ms)
  then obtain v os where o: "orig = v # os" by (cases orig) auto
  have k: "k < length arr" using 3 by (simp add: o)
  have "take (Suc k) (arr[k := v]) = take k arr @ [v]" using k by (simp add: take_Suc_conv_app_nth)
  then show ?case using 3 k by (simp add: o)
qed (simp add: kept_def)

lemma shift_in_eq:
  assumes "diag_marked ms" "length orig = length ms" "n = Suc (length (kept ms orig))"
  shows "shift_in (number_remaining 1 ms) n v orig = v # kept ms orig"
proof -
  have "scatter (map (\<lambda>(n, v). (n - 1, v)) (filter (\<lambda>(n, v). n \<noteq> 0) (zip (number_remaining 1 ms) orig))) (replicate n v) =
      kept ms orig @ [v]"
    using scatter_kept [OF assms(1,2), of 0 "replicate n v"] assms(3) by (simp del: replicate_Suc) simp
  then show ?thesis by (cases "kept ms orig") (simp_all add: shift_in_def ShiftRangeForwardByOne_def)
qed

lemma number_remaining_domain:
  assumes "diag_marked ms" "length ds = length ms" "length x = Suc k + length (kept ms ds)"
  shows "list_all2 P ds (map (nth x) (number_remaining (Suc k) ms)) \<longleftrightarrow>
    (\<forall>i < length ms. ms ! i = Some 0 \<longrightarrow> P (ds ! i) (x ! 0)) \<and> list_all2 P (kept ms ds) (drop (Suc k) x)"
  using assms
proof (induction "Suc k" ms arbitrary: k ds rule: number_remaining.induct)
  case (2 d ms)
  then obtain e ds' where ds: "ds = e # ds'" by (cases ds) auto
  show ?case using 2 by (auto simp: ds nth_Cons less_Suc_eq_0_disj split: nat.splits)
next
  case (3 ms)
  then obtain e ds' where ds: "ds = e # ds'" by (cases ds) auto
  have "drop (Suc k) x = x ! Suc k # drop (Suc (Suc k)) x" using 3 by (simp add: ds Cons_nth_drop_Suc)
  then show ?case using 3 by (auto simp: ds nth_Cons less_Suc_eq_0_disj split: nat.splits)
qed simp

lemma number_remaining_ge: "diag_marked ms \<Longrightarrow> 0 < a \<Longrightarrow> a < k \<Longrightarrow> a \<notin> set (number_remaining k ms)"
  by (induction k ms rule: number_remaining.induct) auto

lemma stride_sum_kept:
  assumes "diag_marked ms" "length ss = length ms" "j < length (kept ms ss)"
  shows "stride_sum (number_remaining (Suc k) ms) ss (Suc k + j) = kept ms ss ! j"
  using assms
proof (induction "Suc k" ms arbitrary: k j ss rule: number_remaining.induct)
  case (2 d ms)
  then obtain s ss' where ss: "ss = s # ss'" by (cases ss) auto
  show ?case using 2 by (auto simp: ss)
next
  case (3 ms)
  then obtain s ss' where ss: "ss = s # ss'" by (cases ss) auto
  have z: "stride_sum (number_remaining (Suc (Suc k)) ms) ss' (Suc k) = 0"
    using number_remaining_ge [of ms "Suc k" "Suc (Suc k)"] "3.prems"(1) unfolding stride_sum_def
    by (intro sum.neutral ballI) (auto simp: in_set_conv_nth)
  show ?case
  proof (cases j)
    case 0
    then show ?thesis using z by (simp add: ss)
  next
    case (Suc i)
    then show ?thesis using "3.hyps"(1) [of ss' i] "3.prems" by (auto simp: ss)
  qed
qed simp


lemma Intersect_nonempty:
  assumes "valid_interval a" "valid_interval b" "\<not> empty_interval (Intersect a b)"
  shows "\<not> empty_interval a" "inclusive_max (Intersect a b) = min (inclusive_max a) (inclusive_max b)"
  using assms by (auto simp: empty_interval_iff Intersect_bounds valid_interval_iff_closed ValidClosed_def)

lemma diagonal_loop_eq:
  assumes "diagonal_loop t ds (mk, b, lo, up) = (mk', b', lo', up')" "valid_interval b"
    and "\<And>d. d \<in> set ds \<Longrightarrow> valid_interval (interval (optionally_implicit_domain t d))"
  shows "length mk' = length mk \<and> valid_interval b' \<and> inclusive_min b \<le> inclusive_min b' \<and>
    (lo' \<longleftrightarrow> lo \<and> (\<forall>d \<in> set ds. implicit_lower (optionally_implicit_domain t d))) \<and>
    (up' \<longleftrightarrow> up \<and> (\<forall>d \<in> set ds. implicit_upper (optionally_implicit_domain t d))) \<and>
    (\<forall>i < length mk. mk' ! i = (if i \<in> set ds then Some 0 else mk ! i)) \<and>
    (\<forall>d \<in> set ds. inclusive_min (interval (optionally_implicit_domain t d)) \<le> inclusive_min b') \<and>
    (\<not> empty_interval b' \<longrightarrow> \<not> empty_interval b \<and> inclusive_max b' \<le> inclusive_max b \<and>
       (\<forall>d \<in> set ds. inclusive_max b' \<le> inclusive_max (interval (optionally_implicit_domain t d))))"
  using assms
proof (induction ds arbitrary: mk b lo up)
  case (Cons d ds)
  let ?i = "interval (optionally_implicit_domain t d)"
  have v: "valid_interval ?i" "valid_interval (Intersect b ?i)" using Cons.prems by (simp_all add: valid_Intersect)
  note b = Intersect_bounds(1) [OF Cons.prems(2) v(1)] Intersect_nonempty [OF Cons.prems(2) v(1)]
  note IH = Cons.IH [of "mk[d := Some 0]" "Intersect b ?i" "lo \<and> implicit_lower (optionally_implicit_domain t d)"
      "up \<and> implicit_upper (optionally_implicit_domain t d)", OF _ v(2)]
  have IH': "length mk' = length mk \<and> valid_interval b' \<and> max (inclusive_min b) (inclusive_min ?i) \<le> inclusive_min b' \<and>
    (lo' \<longleftrightarrow> (lo \<and> implicit_lower (optionally_implicit_domain t d)) \<and> (\<forall>d \<in> set ds. implicit_lower (optionally_implicit_domain t d))) \<and>
    (up' \<longleftrightarrow> (up \<and> implicit_upper (optionally_implicit_domain t d)) \<and> (\<forall>d \<in> set ds. implicit_upper (optionally_implicit_domain t d))) \<and>
    (\<forall>i < length mk. mk' ! i = (if i \<in> set ds then Some 0 else mk[d := Some 0] ! i)) \<and>
    (\<forall>d \<in> set ds. inclusive_min (interval (optionally_implicit_domain t d)) \<le> inclusive_min b') \<and>
    (\<not> empty_interval b' \<longrightarrow> \<not> empty_interval (Intersect b ?i) \<and> inclusive_max b' \<le> inclusive_max (Intersect b ?i) \<and>
       (\<forall>d \<in> set ds. inclusive_max b' \<le> inclusive_max (interval (optionally_implicit_domain t d))))"
    using IH Cons.prems by (simp add: Let_def b(1))
  then show ?case using b(2,3) by (auto simp: nth_list_update)
qed simp

text \<open>What the loop over the diagonal dimensions computes.\<close>

definition diagonal_info :: "transform_rep \<Rightarrow> nat list \<Rightarrow> nat option list \<times> oi_interval" where
  "diagonal_info t dims =
     (case diagonal_loop t dims (replicate (input_rank t) None, Infinite, True, True) of
        (marked, b, lo, up) \<Rightarrow> (marked, \<lparr>interval = b, implicit_lower = lo, implicit_upper = up\<rparr>))"

lemma valid_Infinite [simp]: "valid_interval Infinite"
  by (simp add: valid_interval_iff_closed ValidClosed_def index_consts)

lemma diagonal_info_eq:
  assumes i: "diagonal_info t dims = (mk, oi)" and s: "valid_selection (input_rank t) dims" and inv: "DebugCheckInvariants t"
  shows "length mk = input_rank t" "diag_marked mk" "valid_interval (interval oi)"
    and "\<And>i. i < input_rank t \<Longrightarrow> mk ! i = (if i \<in> set dims then Some 0 else None)"
    and "implicit_lower oi \<longleftrightarrow> (\<forall>d \<in> set dims. implicit_lower (optionally_implicit_domain t d))"
    and "implicit_upper oi \<longleftrightarrow> (\<forall>d \<in> set dims. implicit_upper (optionally_implicit_domain t d))"
    and "\<And>d. d \<in> set dims \<Longrightarrow> inclusive_min (interval (optionally_implicit_domain t d)) \<le> inclusive_min (interval oi)"
    and "\<And>d. d \<in> set dims \<Longrightarrow> \<not> empty_interval (interval oi) \<Longrightarrow>
           inclusive_max (interval oi) \<le> inclusive_max (interval (optionally_implicit_domain t d))"
proof -
  have v: "valid_interval (interval (optionally_implicit_domain t d))" if "d \<in> set dims" for d
    using s inv that by (auto simp: valid_selection_def invariant_interval)
  obtain mk' b lo up where l: "diagonal_loop t dims (replicate (input_rank t) None, Infinite, True, True) = (mk', b, lo, up)"
    by (metis prod_cases4)
  have e: "mk = mk'" "oi = \<lparr>interval = b, implicit_lower = lo, implicit_upper = up\<rparr>"
    using i l by (simp_all add: diagonal_info_def)
  note d = diagonal_loop_eq [OF l valid_Infinite v]
  show m: "mk ! i = (if i \<in> set dims then Some 0 else None)" if "i < input_rank t" for i
    using d that e by simp
  show lm: "length mk = input_rank t" using d e by simp
  then show "diag_marked mk" using m by (simp add: diag_marked_def all_set_conv_all_nth)
  show "valid_interval (interval oi)"
    "implicit_lower oi \<longleftrightarrow> (\<forall>d \<in> set dims. implicit_lower (optionally_implicit_domain t d))"
    "implicit_upper oi \<longleftrightarrow> (\<forall>d \<in> set dims. implicit_upper (optionally_implicit_domain t d))"
    using d e by simp_all
  show "inclusive_min (interval (optionally_implicit_domain t d)) \<le> inclusive_min (interval oi)" if "d \<in> set dims" for d
    using d e that by simp
  show "inclusive_max (interval oi) \<le> inclusive_max (interval (optionally_implicit_domain t d))"
    if "d \<in> set dims" "\<not> empty_interval (interval oi)" for d
    using d e that by simp
qed

lemma length_unselected:
  assumes "valid_selection n dims"
  shows "length (filter (\<lambda>d. d \<notin> set dims) [0..<n]) = n - length dims" "length dims \<le> n"
proof -
  have "set dims \<subseteq> {0..<n}" using assms by (auto simp: valid_selection_def)
  moreover have "card (set dims) = length dims" using assms by (simp add: valid_selection_def distinct_card)
  moreover have "length (filter (\<lambda>d. d \<notin> set dims) [0..<n]) = card ({0..<n} - set dims)"
    by (subst distinct_card [symmetric]) (auto intro!: arg_cong [where f = card])
  ultimately show "length (filter (\<lambda>d. d \<notin> set dims) [0..<n]) = n - length dims" "length dims \<le> n"
    using card_mono [of "{0..<n}" "set dims"] by (simp_all add: card_Diff_subset)
qed

lemma filter_none_marked:
  assumes "length mk = n" "\<And>i. i < n \<Longrightarrow> mk ! i = (if i \<in> set dims then Some (0::nat) else None)"
  shows "length (filter (\<lambda>s. s = None) mk) = length (filter (\<lambda>d. d \<notin> set dims) [0..<n])"
proof -
  have "mk = map (\<lambda>i. if i \<in> set dims then Some 0 else None) [0..<n]"
    using assms by (intro nth_equalityI) auto
  then show ?thesis by (auto simp: filter_map o_def intro!: arg_cong [where f = length] filter_cong)
qed

lemma length_kept_marked:
  assumes "diagonal_info t dims = (mk, oi)" "valid_selection (input_rank t) dims" "DebugCheckInvariants t"
    and "length xs = input_rank t"
  shows "input_rank t - length dims + 1 = Suc (length (kept mk xs))"
  using length_kept [of xs mk] assms(4) filter_none_marked diagonal_info_eq(1,4) [OF assms(1-3)]
    length_unselected [OF assms(2)] by (metis Suc_eq_plus1)


definition diagonal_dim :: "oi_interval \<Rightarrow> index_domain_dimension" where
  "diagonal_dim oi = \<lparr>optionally_implicit_interval = oi, label = []\<rparr>"

definition explicitly_empty :: "oi_interval \<Rightarrow> bool" where
  "explicitly_empty oi \<longleftrightarrow> \<not> implicit_lower oi \<and> \<not> implicit_upper oi \<and> empty_interval (interval oi)"

lemma ExtractDiagonal_eq:
  assumes i: "diagonal_info t dims = (mk, oi)" and s: "valid_selection (input_rank t) dims" "DebugCheckInvariants t"
    and u: "ApplyDiagonal t dims False = Inr (u, dims')"
  shows "dims' = [0]" "input_dims u = diagonal_dim oi # kept mk (input_dims t)"
    and "output_index_maps u = map (diagonal_map dims (number_remaining 1 mk) (input_rank u) (explicitly_empty oi)) (output_index_maps t)"
proof -
  obtain b lo up where l: "diagonal_loop t dims (replicate (input_rank t) None, Infinite, True, True) = (mk, b, lo, up)"
    "oi = \<lparr>interval = b, implicit_lower = lo, implicit_upper = up\<rparr>"
    using i by (auto simp: diagonal_info_def split: prod.splits)
  note n = length_kept_marked [OF i s, of "input_dims t"]
  have sh: "shift_in (number_remaining 1 mk) (input_rank t - length dims + 1) v (input_dims t) = v # kept mk (input_dims t)" for v
    using shift_in_eq [OF diagonal_info_eq(2) [OF i s], of "input_dims t"] diagonal_info_eq(1) [OF i s] n
    by (simp add: input_rank_def)
  show d: "dims' = [0]" "input_dims u = diagonal_dim oi # kept mk (input_dims t)"
    using u sh by (auto simp: ApplyDiagonal_def ExtractDiagonal_def l(1) l(2) diagonal_dim_def Let_def)
  have "input_rank u = input_rank t - length dims + 1" using d n by (simp add: input_rank_def)
  then show "output_index_maps u = map (diagonal_map dims (number_remaining 1 mk) (input_rank u) (explicitly_empty oi)) (output_index_maps t)"
    using u by (auto simp: ApplyDiagonal_def ExtractDiagonal_def l(1) l(2) explicitly_empty_def Let_def)
qed

lemma sum_wrap_weq: "weq (sum_wrap ss acc) (acc + sum_list ss)"
proof (induction ss acc rule: sum_wrap.induct)
  case (2 s ss acc)
  have "weq (wrap_Add acc s + sum_list ss) (acc + s + sum_list ss)" by (intro weq_add weq_wrap_Add weq_refl)
  then show ?case using weq_trans [OF 2] by (simp add: algebra_simps)
qed simp

lemma sum_wrap_zero: "\<forall>s \<in> set ss. s = 0 \<Longrightarrow> sum_wrap ss 0 = 0"
  by (induction ss) (simp_all add: wrap_Add_def)

lemma number_remaining_zero:
  "diag_marked ms \<Longrightarrow> i < length ms \<Longrightarrow> number_remaining (Suc k) ms ! i = 0 \<longleftrightarrow> ms ! i = Some 0"
proof (induction "Suc k" ms arbitrary: k i rule: number_remaining.induct)
  case (2 d ms)
  then show ?case by (cases i) auto
next
  case (3 ms)
  then show ?case by (cases i) auto
qed simp

lemma number_remaining_less:
  "diag_marked ms \<Longrightarrow> length xs = length ms \<Longrightarrow> j \<in> set (number_remaining (Suc k) ms) \<Longrightarrow> j < Suc k + length (kept ms xs)"
proof (induction "Suc k" ms arbitrary: k xs rule: number_remaining.induct)
  case (2 d ms)
  then show ?case by (cases xs) auto
next
  case (3 ms)
  then obtain y ys where xs: "xs = y # ys" by (cases xs) auto
  then show ?case using "3.hyps"(1) [of ys] "3.prems" by auto
qed simp

lemma diagonal_strides:
  assumes i: "diagonal_info t dims = (mk, oi)" and s: "valid_selection (input_rank t) dims" "DebugCheckInvariants t"
    and l: "length ss = input_rank t" and n: "n = Suc (length (kept mk ss))"
  shows "shift_in (number_remaining 1 mk) n v ss = v # kept mk ss"
    and "j < n \<Longrightarrow> weq ((sum_wrap (map (nth ss) dims) 0 # kept mk ss) ! j) (stride_sum (number_remaining 1 mk) ss j)"
proof -
  note e = diagonal_info_eq [OF i s]
  show "shift_in (number_remaining 1 mk) n v ss = v # kept mk ss"
    using shift_in_eq [OF e(2), of ss n] e(1) l n by simp
  show "weq ((sum_wrap (map (nth ss) dims) 0 # kept mk ss) ! j) (stride_sum (number_remaining 1 mk) ss j)" if "j < n"
  proof (cases j)
    case 0
    have sub: "set dims \<subseteq> {..<input_rank t}" using s(1) by (auto simp: valid_selection_def)
    have "sum_list (map (nth ss) dims) = (\<Sum>d \<in> set dims. ss ! d)"
      using s(1) by (simp add: valid_selection_def sum_list_distinct_conv_sum_set)
    also have "\<dots> = (\<Sum>d < input_rank t. if d \<in> set dims then ss ! d else 0)"
      using sub by (simp add: sum.If_cases Int_absorb1)
    also have "\<dots> = stride_sum (number_remaining 1 mk) ss 0"
      unfolding stride_sum_def using e(1,4) number_remaining_zero [OF e(2), of _ 0] by (intro sum.cong) auto
    finally show ?thesis using sum_wrap_weq [of "map (nth ss) dims" 0] 0 by simp
  next
    case (Suc k)
    then show ?thesis using stride_sum_kept [OF e(2), of ss k 0] e(1) l n that by simp
  qed
qed

lemma diagonal_map_renumbered:
  assumes i: "diagonal_info t dims = (mk, oi)" and s: "valid_selection (input_rank t) dims" "DebugCheckInvariants t"
    and m: "map_fits (input_rank t) m" and n: "n = Suc (length (kept mk (input_dims t)))" and e: "\<not> explicitly_empty oi"
  shows "renumbered (number_remaining 1 mk) n m (diagonal_map dims (number_remaining 1 mk) n (explicitly_empty oi) m)"
proof (cases "map_method m")
  case (Method_array a)
  have l: "length (byte_strides a) = input_rank t" using m Method_array by (simp add: map_fits_def)
  have n': "n = Suc (length (kept mk (byte_strides a)))"
    using n l diagonal_info_eq(1) [OF i s] by (simp add: length_kept input_rank_def)
  show ?thesis
    using diagonal_strides [OF i s l n'] Method_array e n' by (simp add: renumbered_def diagonal_map_def)
qed (simp_all add: renumbered_def diagonal_map_def)

definition diagonal_position :: "nat list \<Rightarrow> transform_rep \<Rightarrow> int list \<Rightarrow> int list" where
  "diagonal_position dims t x = map (nth x) (number_remaining 1 (fst (diagonal_info t dims)))"

text \<open>The documented domain of the diagonal is the intersection of the selected domains. When that is
  empty and one of its bounds is implicit, the code can accept more positions.\<close>

definition diagonal_admissible :: "nat list \<Rightarrow> transform_rep \<Rightarrow> bool" where
  "diagonal_admissible dims t \<longleftrightarrow>
     (let oi = snd (diagonal_info t dims)
      in empty_interval (interval oi) \<longrightarrow> \<not> implicit_lower oi \<and> \<not> implicit_upper oi)"

lemma diagonal_contains:
  assumes i: "diagonal_info t dims = (mk, oi)" and s: "valid_selection (input_rank t) dims" "DebugCheckInvariants t"
    and a: "diagonal_admissible dims t" and d: "d \<in> set dims" and v: "Contains_index (effective_interval oi) v"
  shows "Contains_index (effective_interval (optionally_implicit_domain t d)) v"
proof -
  note e = diagonal_info_eq [OF i s]
  have f: "IsFiniteIndex v" "in_bounds (effective_interval oi) v" using v by (simp_all add: Contains_index_iff)
  have ne: "\<not> empty_interval (interval oi)"
  proof
    assume "empty_interval (interval oi)"
    then show False
      using a f i by (auto simp: diagonal_admissible_def effective_interval_def in_bounds_def empty_interval_iff
          IsFiniteIndex_def index_consts e(3) [unfolded valid_interval_iff_closed ValidClosed_def] split: if_splits)
  qed
  have "valid_interval (interval (optionally_implicit_domain t d))"
    using s d by (auto simp: valid_selection_def invariant_interval)
  then have "in_bounds (effective_interval (optionally_implicit_domain t d)) v"
    using f e(3) e(5,6) e(7) [OF d] e(8) [OF d ne] d
    by (auto simp: effective_interval_def in_bounds_def valid_interval_iff_closed ValidClosed_def split: if_splits)
  then show ?thesis using f by (simp add: Contains_index_iff)
qed

lemma ApplyDiagonal_domain:
  assumes u: "ApplyDiagonal t dims False = Inr (u, dims')" and s: "valid_selection (input_rank t) dims" "DebugCheckInvariants t"
    and a: "diagonal_admissible dims t" and x: "in_domain u x"
  shows "in_domain t (diagonal_position dims t x)"
proof -
  obtain mk oi where i: "diagonal_info t dims = (mk, oi)" by (cases "diagonal_info t dims")
  note e = diagonal_info_eq [OF i s] and ud = ExtractDiagonal_eq [OF i s u]
  obtain v y where xv: "x = v # y" using x ud(2) by (cases x) (auto simp: in_domain_def input_rank_def)
  have d: "Contains_index (effective_interval oi) v"
    "list_all2 (\<lambda>d v. Contains_index (effective_interval (optionally_implicit_interval d)) v) (kept mk (input_dims t)) y"
    using x by (simp_all add: in_domain_list_all2 ud(2) xv diagonal_dim_def)
  have l: "length x = Suc 0 + length (kept mk (input_dims t))" using list_all2_lengthD [OF d(2)] by (simp add: xv)
  show ?thesis
    unfolding in_domain_list_all2 diagonal_position_def i fst_conv One_nat_def
      number_remaining_domain [OF e(2) _ l, unfolded e(1), OF input_rank_def [symmetric]]
    using d diagonal_contains [OF i s a _ d(1)] e(4) by (auto simp: xv optionally_implicit_domain_def split: if_splits)
qed


lemma ApplyDiagonal_maps:
  assumes u: "ApplyDiagonal t dims False = Inr (u, dims')" and s: "valid_selection (input_rank t) dims" "DebugCheckInvariants t"
    and x: "in_domain u x" and k: "k < output_rank t"
  shows "apply_map (output_index_maps u ! k) x = apply_map (output_index_maps t ! k) (diagonal_position dims t x)"
proof -
  obtain mk oi where i: "diagonal_info t dims = (mk, oi)" by (cases "diagonal_info t dims")
  note e = diagonal_info_eq [OF i s] and ud = ExtractDiagonal_eq [OF i s u]
  have n: "input_rank u = Suc (length (kept mk (input_dims t)))" using ud(2) by (simp add: input_rank_def)
  have ne: "\<not> explicitly_empty oi"
  proof
    assume ee: "explicitly_empty oi"
    have "Contains_index (effective_interval oi) (x ! 0)"
      using x ud(2) by (cases x) (auto simp: in_domain_list_all2 diagonal_dim_def)
    then show False
      using ee by (auto simp: explicitly_empty_def effective_interval_def Contains_index_def empty_interval_iff)
  qed
  have m: "map_fits (input_rank t) (output_index_maps t ! k)"
    using map_invariant_fits [OF invariant_map [OF s(2) k]] .
  have r: "renumbered (number_remaining 1 mk) (input_rank u) (output_index_maps t ! k) (output_index_maps u ! k)"
    using diagonal_map_renumbered [OF i s m n ne] k ud(3) by (simp add: output_rank_def)
  have f: "\<forall>j \<in> set (number_remaining 1 mk). j < input_rank u"
    using number_remaining_less [OF e(2), of "input_dims t" _ 0] e(1) n by (auto simp: input_rank_def)
  show ?thesis
    using renumbered_apply [OF r _ f, of x] m x e(1) by (simp add: diagonal_position_def i in_domain_def)
qed

lemma diagonal_map_invariant:
  assumes i: "diagonal_info t dims = (mk, oi)" and s: "valid_selection (input_rank t) dims" "DebugCheckInvariants t"
    and u: "input_dims u = diagonal_dim oi # kept mk (input_dims t)" and mi: "map_invariant t m"
  shows "map_invariant u (diagonal_map dims (number_remaining 1 mk) (input_rank u) (explicitly_empty oi) m)"
proof (cases "map_method m")
  case Method_constant
  then show ?thesis using mi by (simp add: diagonal_map_def map_invariant_def)
next
  case (Method_single_input_dimension d)
  then have d: "d < input_rank t" "map_stride m \<noteq> 0" using mi by (simp_all add: map_invariant_def)
  note e = diagonal_info_eq [OF i s]
  have "number_remaining 1 mk ! d < input_rank u"
    using number_remaining_less [OF e(2), of "input_dims t" _ 0] d e(1) u by (simp add: input_rank_def)
  then show ?thesis using Method_single_input_dimension d by (simp add: diagonal_map_def map_invariant_def)
next
  case (Method_array a)
  note e = diagonal_info_eq [OF i s]
  show ?thesis
  proof (cases "explicitly_empty oi")
    case True
    then show ?thesis using Method_array by (simp add: diagonal_map_def map_invariant_def constant_map_def)
  next
    case False
    let ?ss = "byte_strides a"
    have ok: "map_stride m \<noteq> 0" "array_dims_ok (input_dims t) ?ss" "\<not> IsDomainExplicitlyEmpty t"
      using mi by (simp_all add: map_invariant_array [OF Method_array])
    have l: "length ?ss = input_rank t" using ok(2) by (simp add: array_dims_ok_def list_all2_lengthD input_rank_def)
    have n: "input_rank u = Suc (length (kept mk ?ss))"
      using u l e(1) by (simp add: input_rank_def length_kept)
    have "IsFinite_interval (interval oi) \<and> \<not> implicit_dimension oi" if nz: "sum_wrap (map (nth ?ss) dims) 0 \<noteq> 0"
    proof -
      obtain d where d: "d \<in> set dims" "?ss ! d \<noteq> 0" using nz sum_wrap_zero [of "map (nth ?ss) dims"] by auto
      then have "IsFinite_interval (interval (optionally_implicit_domain t d))" "\<not> implicit_dimension (optionally_implicit_domain t d)"
        using ok(2) s(1) by (auto simp: valid_selection_def array_dims_ok_def list_all2_conv_all_nth optionally_implicit_domain_def input_rank_def)
      moreover have "valid_interval (interval (optionally_implicit_domain t d))"
        using s d(1) by (auto simp: valid_selection_def invariant_interval)
      ultimately show ?thesis
        using e(5,6) e(7) [OF d(1)] e(8) [OF d(1)] d(1) valid_empty_finite [OF e(3)] False e(3)
        by (auto simp: IsFinite_interval_def implicit_dimension_def explicitly_empty_def valid_interval_iff_closed ValidClosed_def)
    qed
    then have "array_dims_ok (input_dims u) (sum_wrap (map (nth ?ss) dims) 0 # kept mk ?ss)"
      using ok(2) kept_list_all2 [of _ "input_dims t" ?ss mk] e(1)
      by (auto simp: array_dims_ok_def u diagonal_dim_def input_rank_def)
    moreover have "\<not> IsDomainExplicitlyEmpty u"
    proof -
      have "set (kept mk (input_dims t)) \<subseteq> set (input_dims t)" by (auto simp: kept_def dest: set_zip_rightD)
      then show ?thesis
        using ok(3) False
        by (auto simp: IsDomainExplicitlyEmpty_def u diagonal_dim_def implicit_dimension_def explicitly_empty_def empty_interval_def)
    qed
    ultimately show ?thesis
      using diagonal_strides(1) [OF i s l n] Method_array False ok(1) by (simp add: diagonal_map_def map_invariant_array)
  qed
qed

lemma ApplyDiagonal_invariants:
  assumes u: "ApplyDiagonal t dims False = Inr (u, dims')" and s: "valid_selection (input_rank t) dims" "DebugCheckInvariants t"
  shows "DebugCheckInvariants u"
proof -
  obtain mk oi where i: "diagonal_info t dims = (mk, oi)" by (cases "diagonal_info t dims")
  note e = diagonal_info_eq [OF i s] and ud = ExtractDiagonal_eq [OF i s u]
  have sub: "set (kept mk (input_dims t)) \<subseteq> set (input_dims t)" by (auto simp: kept_def dest: set_zip_rightD)
  show ?thesis
    unfolding invariants_iff
  proof (intro conjI ballI)
    have "labels_unique (map label (kept mk (input_dims t)))"
      using s(2) labels_unique_sublist subseq_map [OF kept_subseq [of mk "input_dims t"]] invariants_iff by blast
    then show "labels_unique (map label (input_dims u))"
      by (simp add: ud(2) diagonal_dim_def labels_unique_def)
    show "valid_interval (interval (optionally_implicit_interval d))" if "d \<in> set (input_dims u)" for d
      using that sub e(3) s(2) by (auto simp: ud(2) diagonal_dim_def invariants_iff)
    show "map_invariant u m" if "m \<in> set (output_index_maps u)" for m
      using that diagonal_map_invariant [OF i s ud(2)] s(2) by (auto simp: ud(3) invariants_iff)
  qed
qed

lemma ApplyDiagonal_result:
  "bind_result (ApplyDiagonal t dims False) (\<lambda>(u, _). Inr u) = Inr u \<longleftrightarrow> ApplyDiagonal t dims False = Inr (u, [0])"
  by (auto simp: ApplyDiagonal_def ExtractDiagonal_def Let_def split: prod.splits)

interpretation diagonal: index_operation
  "\<lambda>dims t. bind_result (ApplyDiagonal t dims False) (\<lambda>(u, _). Inr u)"
  "\<lambda>dims t. valid_selection (input_rank t) dims \<and> DebugCheckInvariants t \<and> diagonal_admissible dims t"
  diagonal_position
proof (unfold_locales, goal_cases)
  case (1 dims t u)
  obtain mk oi where "diagonal_info t dims = (mk, oi)" by (cases "diagonal_info t dims")
  from ExtractDiagonal_eq(3) [OF this] 1 show ?case by (auto simp: ApplyDiagonal_result output_rank_def)
next
  case (2 dims t u x)
  then show ?case by (auto simp: ApplyDiagonal_result intro: ApplyDiagonal_domain)
next
  case (3 dims t u x k)
  then show ?case using ApplyDiagonal_maps [of t dims u "[0]" x k] by (simp add: ApplyDiagonal_result)
next
  case (4 dims t u)
  then show ?case by (auto simp: ApplyDiagonal_result intro: ApplyDiagonal_invariants)
qed


section \<open>The contract of new dimensions\<close>

lemma existing_dims_eq:
  assumes "valid_selection (n + length dims) dims"
  shows "length (existing_dims dims (n + length dims)) = n" "distinct (existing_dims dims (n + length dims))"
    and "set (existing_dims dims (n + length dims)) = {0..<n + length dims} - set dims"
  using length_unselected [OF assms] by (auto simp: existing_dims_def)

lemma add_dims_scatter:
  fixes c :: 'a
  assumes s: "valid_selection (n + length dims) dims" and l: "length vs = n"
  defines "f \<equiv> existing_dims dims (n + length dims)"
  defines "r \<equiv> scatter (map (\<lambda>d. (d, c)) dims) (scatter (rev (zip f vs)) (replicate (n + length dims) c))"
  shows "length r = n + length dims" "d \<in> set dims \<Longrightarrow> r ! d = c" "i < n \<Longrightarrow> r ! (f ! i) = vs ! i"
proof -
  note f = existing_dims_eq [OF s, folded f_def]
  have d: "distinct dims" "d \<in> set dims \<Longrightarrow> d < n + length dims" for d using s by (auto simp: valid_selection_def)
  have df: "distinct (map fst (rev (zip f vs)))" using f(1,2) l by (simp flip: rev_map)
  have m: "map_of (map (\<lambda>d. (d, c)) dims) j = (if j \<in> set dims then Some c else None)" for j
    by (induction dims) auto
  have r: "j < n + length dims \<Longrightarrow> r ! j = (if j \<in> set dims then c else
      case map_of (rev (zip f vs)) j of None \<Rightarrow> c | Some v \<Rightarrow> v)" for j
    using d(1) df by (simp add: r_def scatter_nth m o_def split: option.split)
  show "length r = n + length dims" by (simp add: r_def)
  show "r ! d = c" if "d \<in> set dims" using r [of d] d(2) that by simp
  show "r ! (f ! i) = vs ! i" if i: "i < n"
  proof -
    have fi: "f ! i \<in> set f" using i f(1) by simp
    then have "f ! i < n + length dims" "f ! i \<notin> set dims" using f(3) by auto
    moreover have "map_of (rev (zip f vs)) (f ! i) = Some (vs ! i)"
      using df i f(1) l by (subst map_of_eq_Some_iff) (auto simp: set_zip)
    ultimately show ?thesis using r by simp
  qed
qed

lemma stride_sum_injective:
  assumes "distinct f" "i < length f" "f ! i = j"
  shows "stride_sum f ss j = ss ! i"
proof -
  have "stride_sum f ss j = (\<Sum>k < length f. if k = i then ss ! i else 0)"
    unfolding stride_sum_def using assms by (intro sum.cong) (auto simp: nth_eq_iff_index_eq)
  then show ?thesis using assms by simp
qed

lemma stride_sum_outside: "j \<notin> set f \<Longrightarrow> stride_sum f ss j = 0"
  unfolding stride_sum_def by (intro sum.neutral) auto

lemma ApplyAddNewDims_Inr:
  assumes r: "ApplyAddNewDims t dims False = Inr u" and s: "valid_selection (input_rank t + length dims) dims"
    and inv: "DebugCheckInvariants t"
  defines "f \<equiv> existing_dims dims (input_rank t + length dims)"
  shows "input_rank u = input_rank t + length dims" "output_rank u = output_rank t"
    and "\<And>d. d \<in> set dims \<Longrightarrow> input_dims u ! d = inert_dimension"
    and "\<And>i. i < input_rank t \<Longrightarrow> input_dims u ! (f ! i) = input_dims t ! i"
    and "\<And>k. k < output_rank t \<Longrightarrow> renumbered f (input_rank u) (output_index_maps t ! k) (output_index_maps u ! k)"
    and "\<And>k. k < output_rank t \<Longrightarrow> output_index_maps u ! k = add_dims_map dims f (input_rank u) (output_index_maps t ! k)"
proof -
  note f = existing_dims_eq [OF s, folded f_def]
  have u: "u = AddNewDims t dims False" using r by (auto simp: ApplyAddNewDims_def bind_result_Inr_iff)
  note sc = add_dims_scatter [OF s, where vs = "input_dims t" and c = inert_dimension, folded f_def, OF input_rank_def [symmetric]]
  show rk: "input_rank u = input_rank t + length dims" "output_rank u = output_rank t"
    using sc(1) by (simp_all add: u AddNewDims_def Let_def input_rank_def [of "\<lparr>input_dims = _, output_index_maps = _\<rparr>"] output_rank_def f_def)
  show "input_dims u ! d = inert_dimension" if "d \<in> set dims" for d
    using sc(2) that by (simp add: u AddNewDims_def Let_def f_def)
  show "input_dims u ! (f ! i) = input_dims t ! i" if "i < input_rank t" for i
    using sc(3) that by (simp add: u AddNewDims_def Let_def f_def)
  fix k
  assume k: "k < output_rank t"
  let ?m = "output_index_maps t ! k"
  show m: "output_index_maps u ! k = add_dims_map dims f (input_rank u) ?m"
    unfolding rk(1) using k by (simp add: u AddNewDims_def Let_def f_def output_rank_def)
  have fit: "map_fits (input_rank t) ?m" using map_invariant_fits [OF invariant_map [OF inv k]] .
  show "renumbered f (input_rank u) ?m (output_index_maps u ! k)"
  proof (cases "map_method ?m")
    case (Method_array a)
    have l: "length (byte_strides a) = input_rank t" using fit Method_array by (simp add: map_fits_def)
    note sa = add_dims_scatter [OF s l, where c = 0, folded f_def]
    let ?r = "scatter (map (\<lambda>d. (d, 0)) dims) (scatter (rev (zip f (byte_strides a))) (replicate (input_rank u) 0))"
    have "?r ! j = stride_sum f (byte_strides a) j" if j: "j < input_rank u" for j
    proof (cases "j \<in> set dims")
      case True
      then show ?thesis using sa(2) rk(1) f(3) by (simp add: stride_sum_outside)
    next
      case False
      then have "j \<in> set f" using f(3) j rk(1) by simp
      then obtain i where "i < input_rank t" "f ! i = j" using f(1) by (auto simp: in_set_conv_nth)
      then show ?thesis using sa(3) rk(1) stride_sum_injective [OF f(2), of i j] f(1) by auto
    qed
    then show ?thesis unfolding m using Method_array sa(1) rk(1) by (simp add: renumbered_def add_dims_map_def)
  qed (simp_all add: m renumbered_def add_dims_map_def)
qed


definition add_dims_position :: "nat list \<Rightarrow> transform_rep \<Rightarrow> int list \<Rightarrow> int list" where
  "add_dims_position dims t x = map (nth x) (existing_dims dims (input_rank t + length dims))"

lemma inert_dimension_simps:
  "implicit_lower (optionally_implicit_interval inert_dimension)" "implicit_upper (optionally_implicit_interval inert_dimension)"
  "label inert_dimension = []" "valid_interval (interval (optionally_implicit_interval inert_dimension))"
  by (simp_all add: inert_dimension_def valid_interval_def ValidSized_def UncheckedSized_def mk_interval_def index_consts)

text \<open>Every dimension of the result is a new one or one of the existing ones.\<close>

lemma add_dims_cases:
  assumes r: "ApplyAddNewDims t dims False = Inr u" and s: "valid_selection (input_rank t + length dims) dims" "DebugCheckInvariants t"
    and j: "j < input_rank u"
  obtains (new) "j \<in> set dims" "input_dims u ! j = inert_dimension"
    | (old) i where "i < input_rank t" "existing_dims dims (input_rank t + length dims) ! i = j" "input_dims u ! j = input_dims t ! i"
proof (cases "j \<in> set dims")
  case True
  then show ?thesis using new ApplyAddNewDims_Inr(3) [OF r s] by blast
next
  case False
  note f = existing_dims_eq [OF s(1)] and u = ApplyAddNewDims_Inr [OF r s]
  have "j \<in> set (existing_dims dims (input_rank t + length dims))" using False j u(1) f(3) by auto
  then obtain i where "i < input_rank t" "existing_dims dims (input_rank t + length dims) ! i = j"
    using f(1) by (auto simp: in_set_conv_nth)
  then show ?thesis using old u(4) by blast
qed

lemma add_dims_map_invariant:
  assumes r: "ApplyAddNewDims t dims False = Inr u" and s: "valid_selection (input_rank t + length dims) dims" "DebugCheckInvariants t"
    and k: "k < output_rank t"
  shows "map_invariant u (output_index_maps u ! k)"
proof (cases "map_method (output_index_maps t ! k)")
  let ?f = "existing_dims dims (input_rank t + length dims)"
  note f = existing_dims_eq [OF s(1)] and u = ApplyAddNewDims_Inr [OF r s]
  note rn = u(5) [OF k] and mi = invariant_map [OF s(2) k]
  case (Method_array a)
  have ok: "map_stride (output_index_maps t ! k) \<noteq> 0" "array_dims_ok (input_dims t) (byte_strides a)" "\<not> IsDomainExplicitlyEmpty t"
    using mi by (simp_all add: map_invariant_array [OF Method_array])
  have l: "length (byte_strides a) = input_rank t" using ok(2) by (simp add: array_dims_ok_def list_all2_lengthD input_rank_def)
  let ?ss = "scatter (map (\<lambda>d. (d, 0)) dims) (scatter (rev (zip ?f (byte_strides a))) (replicate (input_rank u) 0))"
  note sa = add_dims_scatter [OF s(1) l, where c = 0]
  have m: "output_index_maps u ! k = (output_index_maps t ! k)\<lparr>map_method := Method_array
      \<lparr>element_pointer = element_pointer a, index_range = index_range a, byte_strides = ?ss\<rparr>\<rparr>"
    using u(6) [OF k] Method_array by (simp add: add_dims_map_def)
  have "array_dims_ok (input_dims u) ?ss"
    unfolding array_dims_ok_def list_all2_conv_all_nth
  proof (intro conjI allI impI)
    show "length (input_dims u) = length ?ss" by (simp add: input_rank_def)
    fix j
    assume j: "j < length (input_dims u)" "?ss ! j \<noteq> 0"
    have j': "j < input_rank u" using j(1) by (simp add: input_rank_def)
    show "IsFinite_interval (interval (optionally_implicit_interval (input_dims u ! j)))"
      "\<not> implicit_dimension (optionally_implicit_interval (input_dims u ! j))"
      using add_dims_cases [OF r s j'] sa(2,3) j(2) ok(2) u(1)
      by (fastforce simp: array_dims_ok_def list_all2_conv_all_nth input_rank_def)+
  qed
  moreover have "\<not> IsDomainExplicitlyEmpty u"
    unfolding explicitly_empty_iff
  proof (intro notI, elim exE conjE)
    fix j
    assume j: "j < input_rank u" "\<not> implicit_dimension (optionally_implicit_domain u j)"
      "interval_size (interval (optionally_implicit_domain u j)) = 0"
    show False
      using add_dims_cases [OF r s j(1)] j(2,3) ok(3) inert_dimension_simps
      by (metis explicitly_empty_iff implicit_dimension_def optionally_implicit_domain_def)
  qed
  ultimately show ?thesis using ok(1) by (simp add: m map_invariant_array)
next
  note f = existing_dims_eq [OF s(1)] and u = ApplyAddNewDims_Inr [OF r s]
  note rn = u(5) [OF k] and mi = invariant_map [OF s(2) k]
  case (Method_single_input_dimension d)
  then have d: "d < input_rank t" "map_stride (output_index_maps t ! k) \<noteq> 0" using mi by (simp_all add: map_invariant_def)
  then have "existing_dims dims (input_rank t + length dims) ! d \<in> {0..<input_rank t + length dims} - set dims"
    using f(1,3) nth_mem by metis
  then show ?thesis using rn Method_single_input_dimension d u(1) by (simp add: renumbered_def map_invariant_def)
next
  case Method_constant
  then show ?thesis using ApplyAddNewDims_Inr(5) [OF r s k] invariant_map [OF s(2) k] by (simp add: renumbered_def map_invariant_def)
qed

lemma ApplyAddNewDims_labels:
  assumes r: "ApplyAddNewDims t dims False = Inr u" and s: "valid_selection (input_rank t + length dims) dims" "DebugCheckInvariants t"
  shows "labels_unique (map label (input_dims u))"
proof -
  let ?f = "existing_dims dims (input_rank t + length dims)"
  note f = existing_dims_eq [OF s(1)] and u = ApplyAddNewDims_Inr [OF r s]
  have "map label (input_dims t) = map (\<lambda>i. label (input_dims u ! i)) ?f"
    using f(1) u(4) by (intro nth_equalityI) (simp_all add: input_rank_def)
  then have "filter (\<lambda>l. l \<noteq> []) (map label (input_dims t)) =
      filter (\<lambda>l. l \<noteq> []) (map (\<lambda>i. label (input_dims u ! i)) (filter (\<lambda>d. d \<notin> set dims) [0..<input_rank u]))"
    by (simp add: existing_dims_def u(1))
  also have "\<dots> = filter (\<lambda>l. l \<noteq> []) (map (\<lambda>i. label (input_dims u ! i)) [0..<input_rank u])"
    using u(3) inert_dimension_simps(3) by (auto simp: filter_map o_def intro!: arg_cong [where f = "map _"] filter_cong)
  also have "map (\<lambda>i. label (input_dims u ! i)) [0..<input_rank u] = map label (input_dims u)"
    by (intro nth_equalityI) (simp_all add: input_rank_def)
  finally show ?thesis using s(2) by (simp add: labels_unique_def invariants_iff)
qed

interpretation add_new: index_operation
  "\<lambda>dims t. ApplyAddNewDims t dims False"
  "\<lambda>dims t. valid_selection (input_rank t + length dims) dims \<and> DebugCheckInvariants t"
  add_dims_position
proof (unfold_locales, goal_cases)
  case (1 dims t u)
  then show ?case using ApplyAddNewDims_Inr(2) by blast
next
  case (2 dims t u x)
  then have s: "valid_selection (input_rank t + length dims) dims" "DebugCheckInvariants t" by auto
  note f = existing_dims_eq [OF s(1)] and u = ApplyAddNewDims_Inr [OF 2(1) s]
  have "in_bounds (effective_interval (optionally_implicit_domain t i)) (add_dims_position dims t x ! i)" if i: "i < input_rank t" for i
  proof -
    have "existing_dims dims (input_rank t + length dims) ! i \<in> {0..<input_rank t + length dims} - set dims"
      using f(1,3) nth_mem i by metis
    then show ?thesis
      using 2(3) i u(1,4) f(1) by (force simp: in_domain_iff add_dims_position_def optionally_implicit_domain_def)
  qed
  then show ?case using 2(4) f(1) by (simp add: in_domain_iff add_dims_position_def)
next
  case (3 dims t u x k)
  then have s: "valid_selection (input_rank t + length dims) dims" "DebugCheckInvariants t" by auto
  note f = existing_dims_eq [OF s(1)] and u = ApplyAddNewDims_Inr [OF 3(1) s]
  have "map_fits (input_rank t) (output_index_maps t ! k)" using map_invariant_fits [OF invariant_map [OF s(2) 3(4)]] .
  then show ?case
    using renumbered_apply [OF u(5) [OF 3(4)], of x] f 3(3) u(1) by (simp add: add_dims_position_def in_domain_def)
next
  case (4 dims t u)
  then have s: "valid_selection (input_rank t + length dims) dims" "DebugCheckInvariants t" by auto
  note u = ApplyAddNewDims_Inr [OF 4(1) s]
  show ?case
  proof (rule invariantsI)
    show "labels_unique (map label (input_dims u))" by (rule ApplyAddNewDims_labels [OF 4(1) s])
    show "valid_interval (interval (optionally_implicit_domain u j))" if "j < input_rank u" for j
      using add_dims_cases [OF 4(1) s that] inert_dimension_simps(4) invariant_interval [OF s(2)]
      by (metis optionally_implicit_domain_def)
    show "map_invariant u (output_index_maps u ! k)" if "k < output_rank u" for k
      using add_dims_map_invariant [OF 4(1) s] that u(2) by simp
  qed
qed

end
