(* ===== verification/Label_Ops.thy ===== *)
theory Label_Ops
  imports Renumber_Ops "HOL-Library.Char_ord" "HOL-Library.List_Lexorder"
begin

text \<open>
  \<^verbatim>\<open>dimension_labels.cc\<close>, \<^verbatim>\<open>label_op.cc\<close> and \<^verbatim>\<open>mark_explicit_op.cc\<close>: the operations that change
  the labels and the implicit bits of the dimensions. The check that labels are unique sorts
  them and compares neighbours; it is shown to be the uniqueness that the representation
  invariant asks for.
\<close>

section \<open>dimension\_labels.cc\<close>

text \<open>The first loop skips the empty labels (from index 1 on), the second collects the labels that
  equal their predecessor.\<close>

fun duplicate_labels :: "string \<Rightarrow> string list \<Rightarrow> string list" where
  "duplicate_labels prev [] = []"
| "duplicate_labels prev (lbl # ls) =
     (if lbl = prev then lbl # duplicate_labels lbl ls else duplicate_labels lbl ls)"

fun skip_empty_labels :: "string \<Rightarrow> string list \<Rightarrow> string list" where
  "skip_empty_labels prev [] = []"
| "skip_empty_labels prev (lbl # ls) =
     (if lbl = [] then skip_empty_labels lbl ls else duplicate_labels prev (lbl # ls))"

definition ValidateDimensionLabelsAreUnique :: "string list \<Rightarrow> unit result" where
  "ValidateDimensionLabelsAreUnique labels =
     (let error = (case sort labels of [] \<Rightarrow> [] | lbl # ls \<Rightarrow> skip_empty_labels lbl ls)
      in if error \<noteq> [] then Inl InvalidArgument else Inr ())"

section \<open>label\_op.cc\<close>

fun assign_labels :: "(nat \<times> string) list \<Rightarrow> index_domain_dimension list \<Rightarrow> index_domain_dimension list" where
  "assign_labels [] dims = dims"
| "assign_labels ((d, lbl) # ps) dims = assign_labels ps (dims[d := (dims ! d)\<lparr>label := lbl\<rparr>])"

definition ApplyLabel :: "transform_rep \<Rightarrow> nat list \<Rightarrow> string list \<Rightarrow> bool \<Rightarrow> transform_rep result" where
  "ApplyLabel t dimensions labels domain_only =
     (if length dimensions \<noteq> length labels then Inl InvalidArgument
      else let rep = MutableRep t domain_only;
               dims = assign_labels (zip dimensions labels) (input_dims rep)
           in bind_result (ValidateDimensionLabelsAreUnique (map label dims))
                (\<lambda>_. Inr (rep\<lparr>input_dims := dims\<rparr>)))"

section \<open>mark\_explicit\_op.cc\<close>

definition indexes_array :: "nat list \<Rightarrow> output_index_map \<Rightarrow> bool" where
  "indexes_array dimensions m =
     (case map_method m of
        Method_array a \<Rightarrow> (\<exists>d \<in> set dimensions. byte_strides a ! d \<noteq> 0)
      | _ \<Rightarrow> False)"

definition mark_implicit :: "bool \<Rightarrow> bool \<Rightarrow> bool \<Rightarrow> oi_interval \<Rightarrow> oi_interval" where
  "mark_implicit implicit lower upper oi =
     oi\<lparr>implicit_lower := (if lower then implicit else implicit_lower oi),
        implicit_upper := (if upper then implicit else implicit_upper oi)\<rparr>"

fun mark_loop :: "bool \<Rightarrow> bool \<Rightarrow> bool \<Rightarrow> nat list \<Rightarrow> index_domain_dimension list \<Rightarrow> index_domain_dimension list" where
  "mark_loop implicit lower upper [] dims = dims"
| "mark_loop implicit lower upper (d # ds) dims =
     mark_loop implicit lower upper ds
       (dims[d := set_oi_interval (mark_implicit implicit lower upper (optionally_implicit_interval (dims ! d))) (dims ! d)])"

definition ApplyChangeImplicitState ::
  "transform_rep \<Rightarrow> nat list \<Rightarrow> bool \<Rightarrow> bool \<Rightarrow> bool \<Rightarrow> bool \<Rightarrow> transform_rep result" where
  "ApplyChangeImplicitState t dimensions implicit lower upper domain_only =
     (if \<not> lower \<and> \<not> upper then Inr t
      else let rep = MutableRep t domain_only
           in if implicit \<and> (\<exists>m \<in> set (output_index_maps rep). indexes_array dimensions m) then Inl InvalidArgument
              else let rep' = rep\<lparr>input_dims := mark_loop implicit lower upper dimensions (input_dims rep)\<rparr>
                   in Inr (if \<not> implicit \<and> IsDomainExplicitlyEmpty rep'
                           then ReplaceAllIndexArrayMapsWithConstantMaps rep' else rep'))"

section \<open>The label check\<close>

lemma duplicate_labels_empty:
  "sorted (p # ls) \<Longrightarrow> duplicate_labels p ls = [] \<longleftrightarrow> distinct (p # ls)"
proof (induction p ls rule: duplicate_labels.induct)
  case (2 p l ls)
  have "l = p" if "p \<in> set ls" using that 2(3) by fastforce
  then show ?case using 2 by auto
qed simp

lemma skip_empty_labels_empty:
  "sorted (p # ls) \<Longrightarrow> skip_empty_labels p ls = [] \<longleftrightarrow> distinct (filter (\<lambda>l. l \<noteq> []) (p # ls))"
proof (induction p ls rule: skip_empty_labels.induct)
  case (2 p l ls)
  show ?case
  proof (cases "l = []")
    case True
    then have "p = []" using 2(2) by simp
    then show ?thesis using 2 True by auto
  next
    case False
    then have ne: "\<forall>x \<in> set (l # ls). x \<noteq> []" using 2(2) by auto
    then have "filter (\<lambda>l. l \<noteq> []) (l # ls) = l # ls" by simp
    moreover have "p \<notin> set (l # ls)" if "p = []" using ne that by auto
    ultimately show ?thesis using duplicate_labels_empty [OF 2(2)] False by (cases "p = []") auto
  qed
qed simp

lemma ValidateDimensionLabelsAreUnique_iff:
  "ValidateDimensionLabelsAreUnique labels = Inr () \<longleftrightarrow> labels_unique labels"
proof -
  have "distinct (filter (\<lambda>l. l \<noteq> []) (sort labels)) \<longleftrightarrow> distinct (filter (\<lambda>l. l \<noteq> []) labels)"
    by (simp add: filter_sort)
  moreover have "sorted (sort labels)" by simp
  ultimately show ?thesis
    using skip_empty_labels_empty
    by (cases "sort labels") (auto simp: ValidateDimensionLabelsAreUnique_def labels_unique_def)
qed


section \<open>The contracts\<close>

lemma nth_update_iff: "xs[d := v] ! i = (if i = d \<and> d < length xs then v else xs ! i)"
  by (cases "d < length xs") (auto simp: nth_list_update list_update_beyond)

lemma assign_labels_nth:
  "length (assign_labels ps dims) = length dims \<and>
     (i < length dims \<longrightarrow> optionally_implicit_interval (assign_labels ps dims ! i) = optionally_implicit_interval (dims ! i))"
  by (induction ps dims rule: assign_labels.induct) (auto simp: nth_update_iff)

lemma ApplyLabel_Inr:
  assumes "ApplyLabel t dims labels False = Inr u"
  shows "input_rank u = input_rank t" "output_index_maps u = output_index_maps t"
    and "\<And>i. i < input_rank t \<Longrightarrow> optionally_implicit_domain u i = optionally_implicit_domain t i"
    and "labels_unique (map label (input_dims u))"
proof -
  have u: "u = t\<lparr>input_dims := assign_labels (zip dims labels) (input_dims t)\<rparr>"
    and v: "ValidateDimensionLabelsAreUnique (map label (assign_labels (zip dims labels) (input_dims t))) = Inr ()"
    using assms by (auto simp: ApplyLabel_def MutableRep_def Let_def bind_result_Inr_iff split: if_splits)
  show "input_rank u = input_rank t" "output_index_maps u = output_index_maps t"
    "\<And>i. i < input_rank t \<Longrightarrow> optionally_implicit_domain u i = optionally_implicit_domain t i"
    by (simp_all add: u input_rank_def optionally_implicit_domain_def assign_labels_nth)
  show "labels_unique (map label (input_dims u))"
    using v unfolding ValidateDimensionLabelsAreUnique_iff by (simp add: u)
qed

text \<open>A transform that has the same intervals and maps satisfies the same conditions on its maps.\<close>

lemma map_invariant_cong:
  assumes "input_rank u = input_rank t"
    and "\<And>i. i < input_rank t \<Longrightarrow> optionally_implicit_domain u i = optionally_implicit_domain t i"
  shows "map_invariant u m = map_invariant t m" "IsDomainExplicitlyEmpty u = IsDomainExplicitlyEmpty t"
proof -
  show e: "IsDomainExplicitlyEmpty u = IsDomainExplicitlyEmpty t"
    using assms by (auto simp: explicitly_empty_iff)
  show "map_invariant u m = map_invariant t m"
    using assms by (auto simp: map_invariant_def e split: output_index_method.split)
qed

interpretation label: index_operation
  "\<lambda>(dims, labels) t. ApplyLabel t dims labels False"
  "\<lambda>_ t. DebugCheckInvariants t" "\<lambda>_ _ x. x"
proof (unfold_locales, goal_cases)
  case (1 p t u)
  then show ?case using ApplyLabel_Inr(2) [of t "fst p" "snd p" u] by (simp add: split_beta output_rank_def)
next
  case (2 p t u x)
  then show ?case using ApplyLabel_Inr(1,3) [of t "fst p" "snd p" u] by (simp add: split_beta in_domain_iff)
next
  case (3 p t u x k)
  then show ?case using ApplyLabel_Inr(2) [of t "fst p" "snd p" u] by (simp add: split_beta)
next
  case (4 p t u)
  then have r: "ApplyLabel t (fst p) (snd p) False = Inr u" by (simp add: split_beta)
  note l = ApplyLabel_Inr [OF r]
  show ?case
    by (rule invariantsI)
      (use l 4(2) in \<open>simp_all add: invariant_interval invariant_map map_invariant_cong(1) [OF l(1,3)] output_rank_def\<close>)
qed

lemma mark_implicit_simps [simp]:
  "interval (mark_implicit im lower upper oi) = interval oi"
  "mark_implicit im lower upper (mark_implicit im lower upper oi) = mark_implicit im lower upper oi"
  by (simp_all add: mark_implicit_def)

lemma mark_loop_nth:
  "length (mark_loop im lower upper ds dims) = length dims \<and>
     (i < length dims \<longrightarrow> mark_loop im lower upper ds dims ! i =
        (if i \<in> set ds then set_oi_interval (mark_implicit im lower upper (optionally_implicit_interval (dims ! i))) (dims ! i)
         else dims ! i))"
  by (induction im lower upper ds dims rule: mark_loop.induct) (auto simp: nth_update_iff set_oi_interval_def)

lemma ChangeImplicit_Inr:
  assumes r: "ApplyChangeImplicitState t dims im lower upper False = Inr u"
  shows "input_rank u = input_rank t" "output_rank u = output_rank t"
    and "\<And>i. i < input_rank t \<Longrightarrow> label (input_dims u ! i) = label (input_dims t ! i)"
    and "\<And>i. i < input_rank t \<Longrightarrow> optionally_implicit_domain u i =
      (if i \<in> set dims then mark_implicit im lower upper (optionally_implicit_domain t i) else optionally_implicit_domain t i)"
    and "\<And>k. k < output_rank t \<Longrightarrow> output_index_maps u ! k = (if \<not> im \<and> (lower \<or> upper) \<and> IsDomainExplicitlyEmpty u
      then (case map_method (output_index_maps t ! k) of Method_array _ \<Rightarrow> constant_map 0 | _ \<Rightarrow> output_index_maps t ! k)
      else output_index_maps t ! k)"
    and "\<And>k. k < output_rank t \<Longrightarrow> im \<Longrightarrow> lower \<or> upper \<Longrightarrow> \<not> indexes_array dims (output_index_maps t ! k)"
proof -
  let ?d = "mark_loop im lower upper dims (input_dims t)"
  have e: "IsDomainExplicitlyEmpty (ReplaceAllIndexArrayMapsWithConstantMaps w) = IsDomainExplicitlyEmpty w" for w
    by (simp add: IsDomainExplicitlyEmpty_def ReplaceAllIndexArrayMapsWithConstantMaps_def)
  consider (id) "\<not> lower \<and> \<not> upper" "u = t"
    | (some) "lower \<or> upper" "u = (if \<not> im \<and> IsDomainExplicitlyEmpty (t\<lparr>input_dims := ?d\<rparr>)
        then ReplaceAllIndexArrayMapsWithConstantMaps (t\<lparr>input_dims := ?d\<rparr>) else t\<lparr>input_dims := ?d\<rparr>)"
        "im \<longrightarrow> (\<forall>m \<in> set (output_index_maps t). \<not> indexes_array dims m)"
    using r by (auto simp: ApplyChangeImplicitState_def MutableRep_def Let_def split: if_splits)
  note cs = this
  have id: "\<not> lower \<Longrightarrow> \<not> upper \<Longrightarrow> mark_implicit im lower upper oi = oi" for oi by (simp add: mark_implicit_def)
  have input: "input_dims u = ?d"
  proof (cases rule: cs)
    case id
    then show ?thesis
      by (intro nth_equalityI) (simp_all add: mark_loop_nth mark_implicit_def)
  qed (simp_all add: ReplaceAllIndexArrayMapsWithConstantMaps_def)
  then show "input_rank u = input_rank t"
    "\<And>i. i < input_rank t \<Longrightarrow> label (input_dims u ! i) = label (input_dims t ! i)"
    "\<And>i. i < input_rank t \<Longrightarrow> optionally_implicit_domain u i =
      (if i \<in> set dims then mark_implicit im lower upper (optionally_implicit_domain t i) else optionally_implicit_domain t i)"
    by (simp_all add: input_rank_def optionally_implicit_domain_def mark_loop_nth)
  show "output_rank u = output_rank t"
    using cs by cases (simp_all add: output_rank_def ReplaceAllIndexArrayMapsWithConstantMaps_def)
  show "output_index_maps u ! k = (if \<not> im \<and> (lower \<or> upper) \<and> IsDomainExplicitlyEmpty u
      then (case map_method (output_index_maps t ! k) of Method_array _ \<Rightarrow> constant_map 0 | _ \<Rightarrow> output_index_maps t ! k)
      else output_index_maps t ! k)" if "k < output_rank t" for k
    using cs
  proof cases
    case some
    have "IsDomainExplicitlyEmpty u = IsDomainExplicitlyEmpty (t\<lparr>input_dims := ?d\<rparr>)" using some(2) e by simp
    then show ?thesis
      using some(1,2) that by (auto simp: ReplaceAllIndexArrayMapsWithConstantMaps_def replace_array_map_def constant_map_def output_rank_def split: if_splits output_index_method.splits)
  qed auto
  show "\<not> indexes_array dims (output_index_maps t ! k)" if "k < output_rank t" "im" "lower \<or> upper" for k
    using cs by cases (use that in \<open>auto simp: output_rank_def\<close>)
qed


lemma explicit_effective:
  "in_bounds (effective_interval (mark_implicit False lower upper oi)) v \<Longrightarrow> in_bounds (effective_interval oi) v"
  by (auto simp: mark_implicit_def effective_interval_def in_bounds_def split: if_splits)

lemma ChangeImplicit_invariants:
  assumes r: "ApplyChangeImplicitState t dims im lower upper False = Inr u" and inv: "DebugCheckInvariants t"
  shows "DebugCheckInvariants u"
proof (cases "lower \<or> upper")
  case False
  then show ?thesis using r inv by (simp add: ApplyChangeImplicitState_def)
next
  case lu: True
  note c = ChangeImplicit_Inr [OF r]
  show ?thesis
  proof (rule invariantsI)
    have "map label (input_dims u) = map label (input_dims t)"
      using c(1,3) by (intro nth_equalityI) (simp_all add: input_rank_def)
    then show "labels_unique (map label (input_dims u))" using inv by (simp add: invariants_iff)
    show "valid_interval (interval (optionally_implicit_domain u d))" if "d < input_rank u" for d
      using c(1,4) that invariant_interval [OF inv] by simp
    show "map_invariant u (output_index_maps u ! k)" if k: "k < output_rank u" for k
    proof (cases "map_method (output_index_maps t ! k)")
      case (Method_array a)
      have mi: "map_invariant t (output_index_maps t ! k)" using k c(2) invariant_map [OF inv] by simp
      show ?thesis
      proof (cases "\<not> im \<and> IsDomainExplicitlyEmpty u")
        case True
        then show ?thesis using c(5) [of k] k c(2) Method_array lu by (simp add: map_invariant_def constant_map_def)
      next
        case False
        then have m: "output_index_maps u ! k = output_index_maps t ! k" using c(5) [of k] k c(2) lu by auto
        have imp: "im \<Longrightarrow> d \<in> set dims \<Longrightarrow> byte_strides a ! d = 0" for d
          using c(6) [of k] k c(2) Method_array lu by (auto simp: indexes_array_def)
        have "\<not> IsDomainExplicitlyEmpty u" if im
          using mi Method_array c(1,4) that by (auto simp: map_invariant_def explicitly_empty_iff implicit_dimension_def mark_implicit_def split: if_splits)
        then have ne: "\<not> IsDomainExplicitlyEmpty u" using False by blast
        have "\<not> implicit_dimension (optionally_implicit_domain u d) \<and> IsFinite_interval (interval (optionally_implicit_domain u d))"
          if "d < input_rank t" "byte_strides a ! d \<noteq> 0" for d
          using mi Method_array that imp [of d] c(4) [OF that(1)]
          by (auto simp: map_invariant_def implicit_dimension_def mark_implicit_def)
        then show ?thesis using mi m ne Method_array c(1) by (simp add: map_invariant_def)
      qed
    qed (use c(1,2) c(5) [of k] k invariant_map [OF inv, of k] in \<open>auto simp: map_invariant_def\<close>)
  qed
qed

text \<open>Marking bounds explicit restricts the domain and keeps the values; marking them implicit keeps
  the maps, and extends the domain by design.\<close>

interpretation mark_explicit: index_operation
  "\<lambda>(dims, lower, upper) t. ApplyChangeImplicitState t dims False lower upper False"
  "\<lambda>_ t. DebugCheckInvariants t" "\<lambda>_ _ x. x"
proof (unfold_locales, goal_cases)
  case (1 p t u)
  then show ?case using ChangeImplicit_Inr(2) by (auto split: prod.splits)
next
  case (2 p t u x)
  obtain dims lower upper where "p = (dims, lower, upper)" by (rule prod_cases3)
  then have r: "ApplyChangeImplicitState t dims False lower upper False = Inr u" using 2 by simp
  note c = ChangeImplicit_Inr [OF r]
  show ?case
    using 2(3) c(1,4) explicit_effective by (auto simp: in_domain_iff split: if_splits)
next
  case (3 p t u x k)
  obtain dims lower upper where "p = (dims, lower, upper)" by (rule prod_cases3)
  then have r: "ApplyChangeImplicitState t dims False lower upper False = Inr u" using 3 by simp
  show ?case using ChangeImplicit_Inr(5) [OF r 3(4)] in_domain_not_empty [OF 3(3)] by simp
next
  case (4 p t u)
  then show ?case using ChangeImplicit_invariants by (auto split: prod.splits)
qed

lemma MarkImplicit_maps:
  "ApplyChangeImplicitState t dims True lower upper False = Inr u \<Longrightarrow> output_index_maps u = output_index_maps t"
  by (auto simp: ApplyChangeImplicitState_def MutableRep_def Let_def split: if_splits)

end
