(* ===== verification/Dimension_Selection.thy ===== *)
theory Dimension_Selection
  imports Index_Operation
begin

text \<open>
  How the dimensions an operation applies to are given and normalized:
  \<^verbatim>\<open>index_space/dimension_identifier.cc\<close> and \<^verbatim>\<open>index_space/internal/dimension_selection.cc\<close>.
  Dimensions are given by index (negative ones count from the end), by label or as a range. The
  selections that pass \<^verbatim>\<open>CheckAndNormalizeDimensions\<close> have distinct dimensions within the rank,
  which is what the operations rely on.
\<close>

section \<open>dimension\_identifier.cc\<close>

definition NormalizeDimensionIndex :: "int \<Rightarrow> int \<Rightarrow> int result" where
  "NormalizeDimensionIndex index rank =
     (if index < - rank \<or> index \<ge> rank then Inl InvalidArgument
      else Inr (if index \<ge> 0 then index else index + rank))"

definition NormalizeDimensionExclusiveStopIndex :: "int \<Rightarrow> int \<Rightarrow> int result" where
  "NormalizeDimensionExclusiveStopIndex index rank =
     (if index < - rank - 1 \<or> index > rank then Inl InvalidArgument
      else Inr (if index \<ge> 0 then index else index + rank))"

fun find_label :: "string \<Rightarrow> string list \<Rightarrow> nat" where
  "find_label lbl [] = 0"
| "find_label lbl (l # ls) = (if l = lbl then 0 else Suc (find_label lbl ls))"

definition NormalizeDimensionLabel :: "string \<Rightarrow> string list \<Rightarrow> int result" where
  "NormalizeDimensionLabel lbl labels =
     (if lbl = [] then Inl InvalidArgument
      else let dim = find_label lbl labels
           in if dim = length labels then Inl InvalidArgument else Inr (int dim))"

datatype dimension_identifier = IdentifierIndex int | IdentifierLabel string

fun NormalizeDimensionIdentifier :: "dimension_identifier \<Rightarrow> string list \<Rightarrow> int result" where
  "NormalizeDimensionIdentifier (IdentifierLabel lbl) labels = NormalizeDimensionLabel lbl labels"
| "NormalizeDimensionIdentifier (IdentifierIndex index) labels =
     NormalizeDimensionIndex index (int (length labels))"

record dim_range_spec =
  range_inclusive_start :: "int option"
  range_exclusive_stop :: "int option"
  range_step :: int

definition range_start :: "dim_range_spec \<Rightarrow> int \<Rightarrow> int result" where
  "range_start spec rank =
     (case range_inclusive_start spec of
        Some s \<Rightarrow> NormalizeDimensionIndex s rank
      | None \<Rightarrow> Inr (if range_step spec > 0 then 0 else rank - 1))"

definition range_stop :: "dim_range_spec \<Rightarrow> int \<Rightarrow> int \<Rightarrow> int result" where
  "range_stop spec rank inclusive_start =
     (case range_exclusive_stop spec of
        Some s \<Rightarrow>
          bind_result (NormalizeDimensionExclusiveStopIndex s rank) (\<lambda>exclusive_stop.
            if range_step spec > 0 \<and> exclusive_stop < inclusive_start \<or>
               range_step spec < 0 \<and> exclusive_stop > inclusive_start
            then Inl InvalidArgument else Inr exclusive_stop)
      | None \<Rightarrow> Inr (if range_step spec > 0 then rank else - 1))"

definition NormalizeDimRangeSpec :: "dim_range_spec \<Rightarrow> int \<Rightarrow> int list result" where
  "NormalizeDimRangeSpec spec rank =
     (if range_step spec = 0 then Inl InvalidArgument
      else bind_result (range_start spec rank) (\<lambda>inclusive_start.
             bind_result (range_stop spec rank inclusive_start) (\<lambda>exclusive_stop.
               let sz = CeilOfRatio (exclusive_stop - inclusive_start) (range_step spec)
               in Inr (map (\<lambda>i. inclusive_start + range_step spec * int i) [0..<nat sz]))))"

datatype dynamic_dim_spec = SpecIndex int | SpecLabel string | SpecRange dim_range_spec

fun NormalizeDynamicDimSpec :: "string list \<Rightarrow> dynamic_dim_spec \<Rightarrow> int list result" where
  "NormalizeDynamicDimSpec labels (SpecIndex i) =
     bind_result (NormalizeDimensionIndex i (int (length labels))) (\<lambda>d. Inr [d])"
| "NormalizeDynamicDimSpec labels (SpecLabel lbl) =
     bind_result (NormalizeDimensionLabel lbl labels) (\<lambda>d. Inr [d])"
| "NormalizeDynamicDimSpec labels (SpecRange s) = NormalizeDimRangeSpec s (int (length labels))"

definition NormalizeDynamicDimSpecs :: "dynamic_dim_spec list \<Rightarrow> string list \<Rightarrow> int list result" where
  "NormalizeDynamicDimSpecs specs labels =
     bind_result (map_result (NormalizeDynamicDimSpec labels) specs) (\<lambda>dss. Inr (concat dss))"

section \<open>dimension\_selection.cc\<close>

fun normalize_loop :: "int \<Rightarrow> int list \<Rightarrow> int list \<times> int list \<Rightarrow> (int list \<times> int list) result" where
  "normalize_loop rnk [] s = Inr s"
| "normalize_loop rnk (d # ds) (done, error_dimensions) =
     bind_result (NormalizeDimensionIndex d rnk) (\<lambda>dim.
       normalize_loop rnk ds
         (done @ [dim], error_dimensions @ filter (\<lambda>e. e = dim) done))"

definition CheckAndNormalizeDimensions :: "nat \<Rightarrow> int list \<Rightarrow> nat list result" where
  "CheckAndNormalizeDimensions rnk dimensions =
     (if length dimensions > rnk then Inl InvalidArgument
      else bind_result (normalize_loop (int rnk) dimensions ([], [])) (\<lambda>(dims, error_dimensions).
             if error_dimensions \<noteq> [] then Inl InvalidArgument else Inr (map nat dims)))"

definition GetDimensions_identifiers ::
  "transform_rep \<Rightarrow> dimension_identifier list \<Rightarrow> nat list result" where
  "GetDimensions_identifiers t dimensions =
     bind_result (map_result (\<lambda>d. NormalizeDimensionIdentifier d (map label (input_dims t))) dimensions)
       (CheckAndNormalizeDimensions (input_rank t))"

definition GetNewDimensions :: "nat \<Rightarrow> int list \<Rightarrow> nat list result" where
  "GetNewDimensions rnk dimensions =
     CheckAndNormalizeDimensions (rnk + length dimensions) dimensions"

definition GetAllDimensions :: "nat \<Rightarrow> nat list" where
  "GetAllDimensions rnk = [0..<rnk]"

definition GetDimensions_dynamic :: "string list \<Rightarrow> dynamic_dim_spec list \<Rightarrow> nat list result" where
  "GetDimensions_dynamic labels dimensions =
     bind_result (NormalizeDynamicDimSpecs dimensions labels) (CheckAndNormalizeDimensions (length labels))"

definition GetNumNewDimensions :: "dim_range_spec \<Rightarrow> int result" where
  "GetNumNewDimensions spec =
     (let step = range_step spec
      in if step = 0 then Inl InvalidArgument
         else case (range_inclusive_start spec, range_exclusive_stop spec) of
           (Some start, Some stop) \<Rightarrow>
             if (stop < 0 \<longleftrightarrow> start < 0) \<and> (step > 0 \<and> stop \<ge> start \<or> step < 0 \<and> stop \<le> start)
             then Inr (CeilOfRatio (stop - start) step) else Inl InvalidArgument
         | (Some start, None) \<Rightarrow>
             if step > 0 \<and> start < 0 then Inr (CeilOfRatio (- start) step)
             else if step < 0 \<and> start \<ge> 0 then Inr (CeilOfRatio (start + 1) (- step))
             else Inl InvalidArgument
         | (None, Some stop) \<Rightarrow>
             if step > 0 \<and> stop \<ge> 0 then Inr (CeilOfRatio stop step)
             else if step < 0 \<and> stop < 0 then Inr (CeilOfRatio (- (stop + 1)) (- step))
             else Inl InvalidArgument
         | (None, None) \<Rightarrow> Inl InvalidArgument)"

fun num_new_dimensions :: "dynamic_dim_spec \<Rightarrow> int result" where
  "num_new_dimensions (SpecRange r) = GetNumNewDimensions r"
| "num_new_dimensions _ = Inr 1"

fun new_dimension :: "int \<Rightarrow> dynamic_dim_spec \<Rightarrow> int list result" where
  "new_dimension new_rank (SpecIndex i) = bind_result (NormalizeDimensionIndex i new_rank) (\<lambda>d. Inr [d])"
| "new_dimension new_rank (SpecLabel lbl) = Inl InvalidArgument"
| "new_dimension new_rank (SpecRange s) = NormalizeDimRangeSpec s new_rank"

definition GetNewDimensions_dynamic :: "nat \<Rightarrow> dynamic_dim_spec list \<Rightarrow> nat list result" where
  "GetNewDimensions_dynamic rnk dimensions =
     bind_result (map_result num_new_dimensions dimensions) (\<lambda>ns.
       let new_rank = int rnk + sum_list ns
       in bind_result (map_result (new_dimension new_rank) dimensions) (\<lambda>dss.
            CheckAndNormalizeDimensions (nat new_rank) (concat dss)))"

section \<open>Selections are within the rank and distinct\<close>

lemma NormalizeDimensionIndex_Inr:
  "NormalizeDimensionIndex i r = Inr d \<longleftrightarrow> - r \<le> i \<and> i < r \<and> d = (if 0 \<le> i then i else i + r)"
  by (auto simp: NormalizeDimensionIndex_def)

lemma NormalizeDimensionIndex_range: "NormalizeDimensionIndex i r = Inr d \<Longrightarrow> 0 \<le> d \<and> d < r"
  by (auto simp: NormalizeDimensionIndex_Inr split: if_splits)

lemma find_label_le: "find_label l ls \<le> length ls"
  by (induction ls) auto

lemma find_label_nth: "find_label l ls < length ls \<Longrightarrow> ls ! find_label l ls = l"
  by (induction ls) auto

lemma NormalizeDimensionLabel_Inr:
  assumes "NormalizeDimensionLabel l ls = Inr d"
  shows "0 \<le> d \<and> nat d < length ls \<and> ls ! nat d = l \<and> l \<noteq> []"
  using assms find_label_le [of l ls] find_label_nth [of l ls]
  by (auto simp: NormalizeDimensionLabel_def Let_def split: if_splits)

lemma find_label_unique:
  assumes "distinct (filter (\<lambda>s. s \<noteq> []) ls)" "l \<noteq> []" "k < length ls" "ls ! k = l"
  shows "find_label l ls = k"
  using assms
proof (induction ls arbitrary: k)
  case (Cons a ls)
  then show ?case by (cases k) (auto simp: nth_Cons split: if_splits nat.splits dest!: nth_mem)
qed simp

lemma range_value_bounds:
  assumes s: "0 \<le> s \<and> s < r \<or> e = s" and e: "- 1 \<le> e" "e \<le> r" and st: "st \<noteq> 0"
    and o: "st > 0 \<and> s \<le> e \<or> st < 0 \<and> e \<le> s" and i: "int i < CeilOfRatio (e - s) st"
  shows "0 \<le> s + st * int i \<and> s + st * int i < r"
proof (cases "st > 0")
  case True
  have "st * int i < e - s"
    using i True by (simp add: CeilOfRatio_eq ceil_div_pos_iff)
  moreover have "0 \<le> st * int i" using True by simp
  ultimately show ?thesis using s e by auto
next
  case False
  then have "CeilOfRatio (e - s) st = CeilOfRatio (s - e) (- st)"
    using st by (simp add: CeilOfRatio_eq ceil_div_def) (metis div_minus_minus minus_diff_eq)
  then have "(- st) * int i < s - e"
    using i False st ceil_div_pos_iff [of "- st" "int i" "s - e"] by (simp add: CeilOfRatio_eq)
  moreover have "st * int i \<le> 0" using False by (simp add: mult_nonpos_nonneg)
  ultimately show ?thesis using s e by (auto simp: algebra_simps)
qed

lemma NormalizeDimRangeSpec_Inr:
  assumes r: "NormalizeDimRangeSpec spec rank = Inr ds" and n: "0 \<le> rank"
  shows "distinct ds \<and> (\<forall>d \<in> set ds. 0 \<le> d \<and> d < rank)"
proof -
  let ?st = "range_step spec"
  obtain s e where s: "range_start spec rank = Inr s" and e: "range_stop spec rank s = Inr e"
    and st: "?st \<noteq> 0" and ds: "ds = map (\<lambda>i. s + ?st * int i) [0..<nat (CeilOfRatio (e - s) ?st)]"
    using r by (auto simp: NormalizeDimRangeSpec_def Let_def bind_result_Inr_iff split: if_splits)
  have sb: "0 \<le> s \<and> s < rank \<or> s = (if ?st > 0 then 0 else rank - 1)"
    using s NormalizeDimensionIndex_range by (auto simp: range_start_def split: option.splits if_splits)
  have eb: "- 1 \<le> e" "e \<le> rank"
    using e n by (auto simp: range_stop_def NormalizeDimensionExclusiveStopIndex_def bind_result_Inr_iff
        split: option.splits if_splits)
  have o: "?st > 0 \<and> s \<le> e \<or> ?st < 0 \<and> e \<le> s"
    using e st sb n by (auto simp: range_stop_def bind_result_Inr_iff split: option.splits if_splits)
  then have sb': "0 \<le> s \<and> s < rank \<or> e = s" using sb eb n by (auto split: if_splits)
  have "0 \<le> d \<and> d < rank" if "d \<in> set ds" for d
    using that range_value_bounds [OF sb' eb st o] by (auto simp: ds)
  moreover have "distinct ds" using st by (auto simp: ds distinct_map inj_on_def)
  ultimately show ?thesis by blast
qed

lemma normalize_loop_Inr:
  assumes "normalize_loop r ds (done, errs) = Inr (dims, errs')"
  shows "\<exists>ns. map_result (\<lambda>d. NormalizeDimensionIndex d r) ds = Inr ns \<and> dims = done @ ns \<and>
    (errs' = [] \<longrightarrow> errs = []) \<and> (distinct done \<and> errs' = [] \<longrightarrow> distinct dims)"
  using assms
proof (induction ds arbitrary: "done" errs)
  case (Cons d ds)
  then obtain n where n: "NormalizeDimensionIndex d r = Inr n"
    and rest: "normalize_loop r ds (done @ [n], errs @ filter (\<lambda>e. e = n) done) = Inr (dims, errs')"
    by (auto simp: bind_result_Inr_iff)
  from Cons.IH [OF rest] show ?case
    using n by (auto simp: filter_empty_conv bind_result_Inr_iff)
qed simp

lemma CheckAndNormalizeDimensions_Inr:
  assumes "CheckAndNormalizeDimensions rank ds = Inr dims"
  shows "valid_selection rank dims \<and> length dims = length ds \<and>
    (\<forall>i < length ds. NormalizeDimensionIndex (ds ! i) (int rank) = Inr (int (dims ! i)))"
proof -
  obtain ns where l: "normalize_loop (int rank) ds ([], []) = Inr (ns, [])" and dims: "dims = map nat ns"
    using assms by (auto simp: CheckAndNormalizeDimensions_def bind_result_Inr_iff split: if_splits)
  have d: "distinct ns" and m: "map_result (\<lambda>d. NormalizeDimensionIndex d (int rank)) ds = Inr ns"
    using normalize_loop_Inr [OF l] by auto
  have n: "length ns = length ds" "\<forall>i < length ds. NormalizeDimensionIndex (ds ! i) (int rank) = Inr (ns ! i)"
    using m by (auto simp: map_result_Inr_iff)
  then have b: "\<forall>x \<in> set ns. 0 \<le> x \<and> x < int rank"
    using NormalizeDimensionIndex_range by (metis in_set_conv_nth)
  then have "inj_on nat (set ns)" by (auto simp: inj_on_def eq_nat_nat_iff)
  then show ?thesis using d n b by (auto simp: dims valid_selection_def distinct_map)
qed

end
