(* ===== verification/Transpose_Op.thy ===== *)
theory Transpose_Op
  imports Dimension_Selection "HOL-Library.Multiset"
begin

text \<open>
  \<^verbatim>\<open>transpose.cc\<close> and \<^verbatim>\<open>transpose_op.cc\<close>: permuting the input or the output dimensions of a
  transform, in place when the representation is not shared and out of place otherwise, and the
  operations \<^verbatim>\<open>MoveTo\<close> and \<^verbatim>\<open>Transpose\<close>, which build the permutation from a partial one.
\<close>

section \<open>transpose.cc\<close>

definition PermuteArray :: "'a list \<Rightarrow> nat list \<Rightarrow> 'a list" where
  "PermuteArray orig_array new_to_orig_map = map (\<lambda>i. orig_array ! (new_to_orig_map ! i)) [0..<length orig_array]"

fun permute_from_temp :: "nat \<Rightarrow> nat list \<Rightarrow> 'a list \<Rightarrow> 'a list \<Rightarrow> 'a list" where
  "permute_from_temp i [] temp_array arr = arr"
| "permute_from_temp i (d # ds) temp_array arr =
     permute_from_temp (Suc i) ds temp_array (arr[i := temp_array ! d])"

definition PermuteArrayInPlace :: "'a list \<Rightarrow> nat list \<Rightarrow> 'a list" where
  "PermuteArrayInPlace arr new_to_orig_map = (let temp_array = arr in permute_from_temp 0 new_to_orig_map temp_array arr)"

fun permute_dims_loop ::
  "nat \<Rightarrow> nat list \<Rightarrow> 'a list \<Rightarrow> 'a list \<times> nat list \<Rightarrow> 'a list \<times> nat list" where
  "permute_dims_loop new_dim [] orig s = s"
| "permute_dims_loop new_dim (orig_dim # ds) orig (dims, inverse_dimension_map) =
     permute_dims_loop (Suc new_dim) ds orig
       (dims[new_dim := orig ! orig_dim], inverse_dimension_map[orig_dim := new_dim])"

definition permute_map_out_of_place :: "nat list \<Rightarrow> nat list \<Rightarrow> output_index_map \<Rightarrow> output_index_map" where
  "permute_map_out_of_place permutation inverse_dimension_map orig_map =
     \<lparr>map_method =
        (case map_method orig_map of
           Method_constant \<Rightarrow> Method_constant
         | Method_single_input_dimension orig_input_dim \<Rightarrow>
             Method_single_input_dimension (inverse_dimension_map ! orig_input_dim)
         | Method_array a \<Rightarrow>
             Method_array \<lparr>element_pointer = element_pointer a, index_range = index_range a,
                           byte_strides = PermuteArray (byte_strides a) permutation\<rparr>),
      map_offset = map_offset orig_map, map_stride = map_stride orig_map\<rparr>"

definition PermuteDimsOutOfPlace :: "transform_rep \<Rightarrow> nat list \<Rightarrow> bool \<Rightarrow> transform_rep" where
  "PermuteDimsOutOfPlace original permutation domain_only =
     (let (dims, inverse_dimension_map) =
            permute_dims_loop 0 permutation (input_dims original)
              (input_dims original, replicate (length permutation) 0)
      in \<lparr>input_dims = dims,
          output_index_maps =
            (if domain_only then []
             else map (permute_map_out_of_place permutation inverse_dimension_map) (output_index_maps original))\<rparr>)"

definition permute_map_inplace :: "nat list \<Rightarrow> nat list \<Rightarrow> output_index_map \<Rightarrow> output_index_map" where
  "permute_map_inplace permutation inverse_dimension_map m =
     (case map_method m of
        Method_constant \<Rightarrow> m
      | Method_single_input_dimension d \<Rightarrow>
          m\<lparr>map_method := Method_single_input_dimension (inverse_dimension_map ! d)\<rparr>
      | Method_array a \<Rightarrow>
          m\<lparr>map_method := Method_array
              (a\<lparr>byte_strides := PermuteArrayInPlace (byte_strides a) permutation\<rparr>)\<rparr>)"

definition PermuteDimsInplace :: "transform_rep \<Rightarrow> nat list \<Rightarrow> bool \<Rightarrow> transform_rep" where
  "PermuteDimsInplace rep permutation domain_only =
     (let rep = (if domain_only then rep\<lparr>output_index_maps := []\<rparr> else rep);
          inverse_dimension_map = InvertPermutation permutation
      in rep\<lparr>input_dims := PermuteArrayInPlace (input_dims rep) permutation,
             output_index_maps :=
               map (permute_map_inplace permutation inverse_dimension_map) (output_index_maps rep)\<rparr>)"

definition PermuteOutputDimsInplace :: "transform_rep \<Rightarrow> nat list \<Rightarrow> transform_rep" where
  "PermuteOutputDimsInplace rep permutation =
     rep\<lparr>output_index_maps := PermuteArrayInPlace (output_index_maps rep) permutation\<rparr>"

definition PermuteOutputDimsOutOfPlace :: "transform_rep \<Rightarrow> nat list \<Rightarrow> transform_rep" where
  "PermuteOutputDimsOutOfPlace original permutation =
     \<lparr>input_dims = input_dims original,
      output_index_maps = PermuteArray (output_index_maps original) permutation\<rparr>"

text \<open>The parameter \<open>unique\<close> is \<^verbatim>\<open>is_unique()\<close> of the reference counted representation.\<close>

definition TransposeInputDimensions :: "bool \<Rightarrow> transform_rep \<Rightarrow> nat list \<Rightarrow> bool \<Rightarrow> transform_rep" where
  "TransposeInputDimensions unique t permutation domain_only =
     (if unique then PermuteDimsInplace t permutation domain_only
      else PermuteDimsOutOfPlace t permutation domain_only)"

definition reverse_dimensions :: "nat \<Rightarrow> nat list" where
  "reverse_dimensions rank = map (\<lambda>i. rank - i - 1) [0..<rank]"

definition TransposeInputDimensions_reverse :: "bool \<Rightarrow> transform_rep \<Rightarrow> bool \<Rightarrow> transform_rep" where
  "TransposeInputDimensions_reverse unique t domain_only =
     TransposeInputDimensions unique t (reverse_dimensions (input_rank t)) domain_only"

definition TransposeOutputDimensions :: "bool \<Rightarrow> transform_rep \<Rightarrow> nat list \<Rightarrow> transform_rep" where
  "TransposeOutputDimensions unique t permutation =
     (if unique then PermuteOutputDimsInplace t permutation
      else PermuteOutputDimsOutOfPlace t permutation)"

definition TransposeOutputDimensions_reverse :: "bool \<Rightarrow> transform_rep \<Rightarrow> transform_rep" where
  "TransposeOutputDimensions_reverse unique t =
     TransposeOutputDimensions unique t (reverse_dimensions (output_rank t))"

section \<open>transpose\_op.cc\<close>

text \<open>The loop \<^verbatim>\<open>while (moved_dims[orig_input_dim]) ++orig_input_dim\<close>.\<close>

function skip_moved :: "nat list \<Rightarrow> nat \<Rightarrow> nat" where
  "skip_moved moved_dims orig_input_dim =
     (if orig_input_dim \<in> set moved_dims then skip_moved moved_dims (Suc orig_input_dim) else orig_input_dim)"
  by pat_completeness simp_all

termination
proof (relation "measure (\<lambda>(moved, d). card {e \<in> set moved. d \<le> e})", goal_cases)
  case (2 moved d)
  have "{e \<in> set moved. Suc d \<le> e} \<subseteq> {e \<in> set moved. d \<le> e} - {d}" by force
  moreover have "d \<in> {e \<in> set moved. d \<le> e}" using 2 by simp
  ultimately have "{e \<in> set moved. Suc d \<le> e} \<subset> {e \<in> set moved. d \<le> e}" by blast
  then show ?case by (simp add: psubset_card_mono)
qed simp

declare skip_moved.simps [simp del]

text \<open>The entries \<open>-1\<close> of \<^verbatim>\<open>permutation\<close> are \<open>None\<close>.\<close>

fun fill_remaining :: "nat list \<Rightarrow> nat \<Rightarrow> nat option list \<Rightarrow> nat list" where
  "fill_remaining moved_dims orig_input_dim [] = []"
| "fill_remaining moved_dims orig_input_dim (Some d # ps) = d # fill_remaining moved_dims orig_input_dim ps"
| "fill_remaining moved_dims orig_input_dim (None # ps) =
     (let d = skip_moved moved_dims orig_input_dim in d # fill_remaining moved_dims (Suc d) ps)"

fun place_moved :: "nat \<Rightarrow> nat list \<Rightarrow> nat option list \<Rightarrow> nat option list" where
  "place_moved pos [] permutation = permutation"
| "place_moved pos (d # ds) permutation = place_moved (Suc pos) ds (permutation[pos := Some d])"

definition MakePermutationFromMoveDimsTarget ::
  "nat \<Rightarrow> nat list \<Rightarrow> int \<Rightarrow> (nat list \<times> nat list) result" where
  "MakePermutationFromMoveDimsTarget rnk dimensions target =
     (if dimensions = [] then Inr ([0..<rnk], dimensions)
      else bind_result (NormalizeDimensionIndex target (int rnk - int (length dimensions) + 1)) (\<lambda>target.
             Inr (fill_remaining dimensions 0 (place_moved (nat target) dimensions (replicate rnk None)),
                  map (\<lambda>i. nat target + i) [0..<length dimensions])))"

definition ApplyMoveDimsTo ::
  "bool \<Rightarrow> transform_rep \<Rightarrow> nat list \<Rightarrow> int \<Rightarrow> bool \<Rightarrow> (transform_rep \<times> nat list) result" where
  "ApplyMoveDimsTo unique t dimensions target domain_only =
     bind_result (MakePermutationFromMoveDimsTarget (input_rank t) dimensions target)
       (\<lambda>(permutation, dims). Inr (TransposeInputDimensions unique t permutation domain_only, dims))"

definition ApplyTranspose ::
  "bool \<Rightarrow> transform_rep \<Rightarrow> nat list \<Rightarrow> bool \<Rightarrow> (transform_rep \<times> nat list) result" where
  "ApplyTranspose unique t dimensions domain_only =
     (if length dimensions \<noteq> input_rank t then Inl InvalidArgument
      else if \<not> IsValidPermutation (map int dimensions) then Inl InvalidArgument
      else Inr (TransposeInputDimensions unique t dimensions domain_only, [0..<length dimensions]))"

fun transpose_to_loop ::
  "int \<Rightarrow> (nat \<times> int) list \<Rightarrow> nat option list \<times> nat list \<Rightarrow> (nat option list \<times> nat list) result" where
  "transpose_to_loop rnk [] s = Inr s"
| "transpose_to_loop rnk ((orig_dim, target) # ps) (permutation, dims) =
     bind_result (NormalizeDimensionIndex target rnk) (\<lambda>target_dim.
       if permutation ! nat target_dim \<noteq> None then Inl InvalidArgument
       else transpose_to_loop rnk ps (permutation[nat target_dim := Some orig_dim], dims @ [nat target_dim]))"

text \<open>The loop \<^verbatim>\<open>while (permutation[target_dim] != -1) ++target_dim\<close>, bounded by the end of the
  array.\<close>

function next_free :: "nat option list \<Rightarrow> nat \<Rightarrow> nat" where
  "next_free permutation target_dim =
     (if target_dim < length permutation \<and> permutation ! target_dim \<noteq> None
      then next_free permutation (Suc target_dim) else target_dim)"
  by pat_completeness auto

termination
  by (relation "measure (\<lambda>(p, d). length p - d)") auto

declare next_free.simps [simp del]

fun fill_targets :: "nat list \<Rightarrow> nat list \<Rightarrow> nat \<Rightarrow> nat option list \<Rightarrow> nat option list" where
  "fill_targets seen [] target_dim permutation = permutation"
| "fill_targets seen (orig_dim # ds) target_dim permutation =
     (if orig_dim \<in> set seen then fill_targets seen ds target_dim permutation
      else let free = next_free permutation target_dim
           in fill_targets seen ds free (permutation[free := Some orig_dim]))"

definition ApplyTransposeTo ::
  "bool \<Rightarrow> transform_rep \<Rightarrow> nat list \<Rightarrow> int list \<Rightarrow> bool \<Rightarrow> (transform_rep \<times> nat list) result" where
  "ApplyTransposeTo unique t dimensions target_dimensions domain_only =
     (if length dimensions \<noteq> length target_dimensions then Inl InvalidArgument
      else bind_result
             (transpose_to_loop (int (input_rank t)) (zip dimensions target_dimensions)
                (replicate (input_rank t) None, []))
             (\<lambda>(permutation, dims).
                let full = fill_targets dimensions [0..<input_rank t] 0 permutation
                in Inr (TransposeInputDimensions unique t (map the full) domain_only, dims)))"

fun transpose_target :: "nat \<Rightarrow> dynamic_dim_spec \<Rightarrow> int list result" where
  "transpose_target rnk (SpecIndex i) = Inr [i]"
| "transpose_target rnk (SpecRange r) = NormalizeDimRangeSpec r (int rnk)"
| "transpose_target rnk (SpecLabel _) = Inl InvalidArgument"

definition ApplyTransposeToDynamic ::
  "bool \<Rightarrow> transform_rep \<Rightarrow> nat list \<Rightarrow> dynamic_dim_spec list \<Rightarrow> bool \<Rightarrow> (transform_rep \<times> nat list) result" where
  "ApplyTransposeToDynamic unique t dimensions target_dim_specs domain_only =
     (case target_dim_specs of
        [SpecIndex target] \<Rightarrow> ApplyMoveDimsTo unique t dimensions target domain_only
      | _ \<Rightarrow> bind_result (map_result (transpose_target (input_rank t)) target_dim_specs) (\<lambda>dss.
               ApplyTransposeTo unique t dimensions (concat dss) domain_only))"

definition ApplyTranspose_dynamic ::
  "bool \<Rightarrow> transform_rep \<Rightarrow> dynamic_dim_spec list \<Rightarrow> bool \<Rightarrow> transform_rep result" where
  "ApplyTranspose_dynamic unique t source_dim_specs domain_only =
     bind_result (NormalizeDynamicDimSpecs source_dim_specs (map label (input_dims t))) (\<lambda>source_dimensions.
       if length source_dimensions \<noteq> input_rank t \<or> \<not> IsValidPermutation source_dimensions
       then Inl InvalidArgument
       else Inr (TransposeInputDimensions unique t (map nat source_dimensions) domain_only))"


section \<open>Permuting in place and out of place\<close>

lemma permute_from_temp_eq:
  "length arr = i + length ds \<Longrightarrow> permute_from_temp i ds temp arr = take i arr @ map (nth temp) ds"
proof (induction i ds temp arr rule: permute_from_temp.induct)
  case (2 i d ds temp arr)
  then have "i < length arr" by simp
  then have "take (Suc i) (arr[i := temp ! d]) = take i arr @ [temp ! d]"
    by (simp add: take_Suc_conv_app_nth)
  then show ?case using 2 by simp
qed simp

lemma PermuteArray_eq: "length p = length xs \<Longrightarrow> PermuteArray xs p = map (nth xs) p"
  by (intro nth_equalityI) (simp_all add: PermuteArray_def)

lemma PermuteArrayInPlace_eq: "length p = length xs \<Longrightarrow> PermuteArrayInPlace xs p = PermuteArray xs p"
  by (simp add: PermuteArrayInPlace_def permute_from_temp_eq PermuteArray_eq)

lemma permute_dims_loop_eq:
  "permute_dims_loop k ds orig (dims, inv_map) = (permute_from_temp k ds orig dims, invert_from k ds inv_map)"
  by (induction k ds orig "(dims, inv_map)" arbitrary: dims inv_map rule: permute_dims_loop.induct) simp_all

definition maps_fit :: "transform_rep \<Rightarrow> bool" where
  "maps_fit t \<longleftrightarrow> (\<forall>m \<in> set (output_index_maps t). map_fits (input_rank t) m)"

lemma invariants_fit: "DebugCheckInvariants t \<Longrightarrow> maps_fit t"
  by (simp add: maps_fit_def invariants_iff map_invariant_fits)

lemma permute_map_inplace_eq:
  assumes "map_fits (length p) m"
  shows "permute_map_inplace p inv_map m = permute_map_out_of_place p inv_map m"
  using assms
  by (auto simp: permute_map_inplace_def permute_map_out_of_place_def map_fits_def PermuteArrayInPlace_eq
      split: output_index_method.splits)

lemma PermuteDims_eq:
  assumes "maps_fit t" "length p = input_rank t"
  shows "PermuteDimsInplace t p domain_only = PermuteDimsOutOfPlace t p domain_only"
  using assms
  by (auto simp: PermuteDimsInplace_def PermuteDimsOutOfPlace_def permute_dims_loop_eq Let_def
      PermuteArrayInPlace_eq permute_from_temp_eq PermuteArray_eq input_rank_def InvertPermutation_def
      maps_fit_def permute_map_inplace_eq)

lemma PermuteOutputDims_eq:
  "length p = output_rank t \<Longrightarrow> PermuteOutputDimsInplace t p = PermuteOutputDimsOutOfPlace t p"
  by (simp add: PermuteOutputDimsInplace_def PermuteOutputDimsOutOfPlace_def PermuteArrayInPlace_eq output_rank_def)

lemma TransposeInputDimensions_unique:
  assumes "maps_fit t" "length p = input_rank t"
  shows "TransposeInputDimensions unique t p domain_only = PermuteDimsOutOfPlace t p domain_only"
  using PermuteDims_eq [OF assms] by (simp add: TransposeInputDimensions_def)

section \<open>Evaluation of the permuted transform\<close>

definition transposed_position :: "nat list \<Rightarrow> int list \<Rightarrow> int list" where
  "transposed_position p x = map (\<lambda>d. x ! (InvertPermutation p ! d)) [0..<length p]"

lemma dot_sum:
  fixes a b :: "int list"
  assumes "length a = n" "length b = n"
  shows "sum_list (map2 (*) a b) = (\<Sum>i<n. a ! i * b ! i)"
  using assms by (simp add: sum_list_sum_nth atLeast0LessThan)

lemma is_perm_bij: "is_perm p \<Longrightarrow> bij_betw (nth p) {..<length p} {..<length p}"
  using bij_betw_nth [of p "{..<length p}" "set p"] by (simp add: is_perm_def atLeast0LessThan)

lemma is_perm_nth_less: "is_perm p \<Longrightarrow> i < length p \<Longrightarrow> p ! i < length p"
  by (auto simp: is_perm_def)

lemma dot_permuted:
  assumes p: "is_perm p" and l: "length x = length p" "length s = length p"
  shows "InnerProduct x (map (nth s) p) = InnerProduct (transposed_position p x) s"
proof -
  let ?n = "length p"
  have "(\<Sum>i<?n. x ! i * s ! (p ! i)) = (\<Sum>i<?n. x ! (InvertPermutation p ! (p ! i)) * s ! (p ! i))"
    using InvertPermutation_left [OF p] by simp
  also have "\<dots> = (\<Sum>d<?n. x ! (InvertPermutation p ! d) * s ! d)"
    by (rule sum.reindex_bij_betw [OF is_perm_bij [OF p], of "\<lambda>d. x ! (InvertPermutation p ! d) * s ! d"])
  finally show ?thesis
    using l by (simp add: InnerProduct_eq dot_sum [of _ ?n] transposed_position_def)
qed

lemma permuted_map_apply:
  assumes p: "is_perm p" and m: "map_fits (length p) m" and x: "length x = length p"
  shows "apply_map (permute_map_out_of_place p (InvertPermutation p) m) x = apply_map m (transposed_position p x)"
proof (cases "map_method m")
  case (Method_single_input_dimension d)
  then show ?thesis
    using m by (simp add: apply_map_def permute_map_out_of_place_def transposed_position_def map_fits_def)
next
  case (Method_array a)
  then have "length (byte_strides a) = length p" using m by (simp add: map_fits_def)
  then show ?thesis
    using Method_array x dot_permuted [OF p x]
    by (simp add: apply_map_def permute_map_out_of_place_def PermuteArray_eq)
qed (simp add: apply_map_def permute_map_out_of_place_def)

lemma PermuteDimsOutOfPlace_fields:
  assumes "length p = input_rank t"
  shows "input_dims (PermuteDimsOutOfPlace t p False) = map (nth (input_dims t)) p"
    and "output_index_maps (PermuteDimsOutOfPlace t p False) =
      map (permute_map_out_of_place p (InvertPermutation p)) (output_index_maps t)"
  using assms
  by (simp_all add: PermuteDimsOutOfPlace_def permute_dims_loop_eq permute_from_temp_eq input_rank_def InvertPermutation_def)

lemma in_domain_permuted:
  assumes p: "is_perm p" "length p = input_rank t" and x: "length x = length p"
  shows "in_domain (PermuteDimsOutOfPlace t p False) x \<longleftrightarrow> in_domain t (transposed_position p x)"
proof -
  let ?c = "\<lambda>d v. Contains_index (effective_interval (optionally_implicit_domain t d)) v"
  have "(\<forall>i < length p. ?c (p ! i) (x ! i)) \<longleftrightarrow> (\<forall>d < length p. ?c d (x ! (InvertPermutation p ! d)))"
    using InvertPermutation_left [OF p(1)] InvertPermutation_right [OF p(1)] is_perm_nth_less [OF p(1)] by metis
  then show ?thesis
    using p x PermuteDimsOutOfPlace_fields [OF p(2)]
    by (simp add: in_domain_def input_rank_def optionally_implicit_domain_def transposed_position_def)
qed


lemma is_perm_mset: "is_perm p \<longleftrightarrow> mset p = mset [0..<length p]"
proof
  assume "is_perm p"
  then show "mset p = mset [0..<length p]"
    using set_eq_iff_mset_eq_distinct [of p "[0..<length p]"] by (simp add: is_perm_def)
next
  assume m: "mset p = mset [0..<length p]"
  then have "distinct p" using mset_eq_imp_distinct_iff [OF m] by simp
  moreover have "set p = {0..<length p}" using mset_eq_setD [OF m] by simp
  ultimately show "is_perm p" by (simp add: is_perm_def)
qed

lemma mset_permuted:
  assumes "is_perm p" "length p = length xs"
  shows "mset (map (nth xs) p) = mset xs"
proof -
  have "mset (map (nth xs) p) = mset (map (nth xs) [0..<length xs])"
    using assms by (simp only: mset_map is_perm_mset)
  then show ?thesis by (simp add: map_nth)
qed

lemma labels_unique_mset: "mset ls = mset ls' \<Longrightarrow> labels_unique ls \<longleftrightarrow> labels_unique ls'"
  unfolding labels_unique_def by (rule mset_eq_imp_distinct_iff) (simp add: mset_filter)

lemma PermuteDims_invariants:
  assumes p: "is_perm p" "length p = input_rank t" and inv: "DebugCheckInvariants t"
  shows "DebugCheckInvariants (PermuteDimsOutOfPlace t p False)"
proof -
  let ?u = "PermuteDimsOutOfPlace t p False"
  note fields = PermuteDimsOutOfPlace_fields [OF p(2)]
  have rank: "input_rank ?u = input_rank t" "output_rank ?u = output_rank t"
    using p(2) fields by (simp_all add: input_rank_def output_rank_def)
  have dom: "optionally_implicit_domain ?u d = optionally_implicit_domain t (p ! d)" if "d < input_rank t" for d
    using that p(2) fields by (simp add: optionally_implicit_domain_def)
  have less: "p ! d < input_rank t" if "d < input_rank t" for d
    using that p is_perm_nth_less by metis
  have inj: "\<exists>e < input_rank t. p ! e = d" if "d < input_rank t" for d
    using that InvertPermutation_right [OF p(1)] p(2) by metis
  have empty: "IsDomainExplicitlyEmpty ?u \<longleftrightarrow> IsDomainExplicitlyEmpty t"
    unfolding explicitly_empty_iff rank using dom less inj by metis
  show ?thesis
  proof (rule invariantsI)
    have "mset (map label (input_dims ?u)) = mset (map label (input_dims t))"
      using mset_permuted [OF p(1), of "input_dims t"] p(2) fields(1) by (simp only: mset_map input_rank_def)
    then show "labels_unique (map label (input_dims ?u))"
      using inv labels_unique_mset invariants_iff by blast
    show "valid_interval (interval (optionally_implicit_domain ?u d))" if "d < input_rank ?u" for d
      using that rank dom less invariant_interval [OF inv] by simp
    show "map_invariant ?u (output_index_maps ?u ! k)" if k: "k < output_rank ?u" for k
    proof (cases "map_method (output_index_maps t ! k)")
      case (Method_array a)
      then show ?thesis
        using invariant_map [OF inv, of k] k rank fields p(2) dom less empty
        by (auto simp: map_invariant_def permute_map_out_of_place_def output_rank_def PermuteArray_eq)
    qed (use invariant_map [OF inv, of k] k rank fields p InvertPermutation_right [OF p(1)] in
          \<open>auto simp: map_invariant_def permute_map_out_of_place_def output_rank_def\<close>)
  qed
qed

interpretation transpose: index_operation
  "\<lambda>(unique, p) t. Inr (TransposeInputDimensions unique t p False)"
  "\<lambda>(unique, p) t. is_perm p \<and> length p = input_rank t \<and> DebugCheckInvariants t"
  "\<lambda>(unique, p) t x. transposed_position p x"
proof (unfold_locales, goal_cases)
  case (1 a t u)
  then show ?case
    by (auto simp: TransposeInputDimensions_unique invariants_fit output_rank_def PermuteDimsOutOfPlace_fields)
next
  case (2 a t u x)
  then have "length x = input_rank t"
    by (auto simp: TransposeInputDimensions_unique invariants_fit in_domain_def input_rank_def PermuteDimsOutOfPlace_fields)
  with 2 show ?case
    by (auto simp: TransposeInputDimensions_unique invariants_fit in_domain_permuted)
next
  case (3 a t u x k)
  then have "length x = input_rank t"
    by (auto simp: TransposeInputDimensions_unique invariants_fit in_domain_def input_rank_def PermuteDimsOutOfPlace_fields)
  with 3 show ?case
    by (auto simp: TransposeInputDimensions_unique invariants_fit PermuteDimsOutOfPlace_fields output_rank_def
        intro!: permuted_map_apply map_invariant_fits invariant_map)
next
  case (4 a t u)
  then show ?case
    by (auto simp: TransposeInputDimensions_unique invariants_fit intro: PermuteDims_invariants)
qed

lemma TransposeOutputDimensions_apply:
  assumes p: "length p = output_rank t" "\<forall>d \<in> set p. d < output_rank t"
    and x: "length x = input_rank t" "TransformIndices t x = Inr y"
  shows "TransformIndices (TransposeOutputDimensions unique t p) x = Inr (PermuteArray y p)"
proof -
  have u: "TransposeOutputDimensions unique t p = PermuteOutputDimsOutOfPlace t p"
    using PermuteOutputDims_eq [OF p(1)] by (simp add: TransposeOutputDimensions_def)
  have y: "in_domain t x" "length y = output_rank t"
    "\<forall>i < output_rank t. apply_map (output_index_maps t ! i) x = Inr (y ! i)"
    using x by (simp_all add: TransformIndices_Inr_iff)
  have "in_domain (PermuteOutputDimsOutOfPlace t p) x"
    using y(1) by (simp add: in_domain_def PermuteOutputDimsOutOfPlace_def input_rank_def optionally_implicit_domain_def)
  then show ?thesis
    using x(1) y p unfolding u
    by (subst TransformIndices_Inr_iff)
       (auto simp: PermuteOutputDimsOutOfPlace_def input_rank_def output_rank_def PermuteArray_def)
qed


section \<open>The permutations that the operations build\<close>

text \<open>Both loops put the dimensions that are not selected, in increasing order, into the free
  positions.\<close>

fun merge_free :: "nat option list \<Rightarrow> nat list \<Rightarrow> nat list" where
  "merge_free (Some d # ps) fs = d # merge_free ps fs"
| "merge_free (None # ps) (f # fs) = f # merge_free ps fs"
| "merge_free _ _ = []"

definition free_count :: "nat option list \<Rightarrow> nat" where
  "free_count ps = length (filter (\<lambda>p. p = None) ps)"

definition placed :: "nat option list \<Rightarrow> nat list" where
  "placed ps = map the (filter (\<lambda>p. p \<noteq> None) ps)"

definition unselected :: "nat list \<Rightarrow> nat \<Rightarrow> nat \<Rightarrow> nat list" where
  "unselected sel from n = filter (\<lambda>d. d \<notin> set sel) [from..<n]"

lemma merge_free_mset:
  "free_count ps = length fs \<Longrightarrow> mset (merge_free ps fs) = mset (placed ps) + mset fs"
  by (induction ps fs rule: merge_free.induct) (auto simp: free_count_def placed_def)

lemma merge_free_length: "free_count ps = length fs \<Longrightarrow> length (merge_free ps fs) = length ps"
  by (induction ps fs rule: merge_free.induct) (auto simp: free_count_def)

lemma merge_free_placed:
  "free_count ps = length fs \<Longrightarrow> i < length ps \<Longrightarrow> ps ! i = Some d \<Longrightarrow> merge_free ps fs ! i = d"
proof (induction ps fs arbitrary: i rule: merge_free.induct)
  case (1 e ps fs)
  then show ?case by (cases i) (auto simp: free_count_def)
next
  case (2 ps f fs)
  then show ?case by (cases i) (auto simp: free_count_def)
qed (auto simp: free_count_def)

lemma unselected_Cons:
  assumes "from < n"
  shows "unselected sel from n = (if from \<in> set sel then unselected sel (Suc from) n
    else from # unselected sel (Suc from) n)"
  using assms by (simp add: unselected_def upt_conv_Cons)

lemma skip_moved_unselected:
  assumes "unselected sel from n = f # fs"
  shows "skip_moved sel from = f \<and> unselected sel (Suc f) n = fs"
  using assms
proof (induction sel "from" rule: skip_moved.induct)
  case (1 sel "from")
  have "from < n" using 1(2) by (cases "from < n") (auto simp: unselected_def)
  then show ?case
    using 1 by (auto simp: unselected_Cons skip_moved.simps [of sel "from"] split: if_splits)
qed

lemma fill_remaining_eq:
  "free_count ps = length (unselected sel from n) \<Longrightarrow>
     fill_remaining sel from ps = merge_free ps (unselected sel from n)"
proof (induction sel "from" ps rule: fill_remaining.induct)
  case (3 sel "from" ps)
  then obtain f fs where fs: "unselected sel from n = f # fs"
    by (cases "unselected sel from n") (auto simp: free_count_def)
  then show ?case
    using 3 skip_moved_unselected [OF fs] by (simp add: free_count_def Let_def)
qed (auto simp: free_count_def unselected_def)

lemma merge_is_perm:
  assumes d: "valid_selection n sel" and p: "mset (placed ps) = mset sel" "length ps = n"
  shows "free_count ps = length (unselected sel 0 n) \<and> is_perm (merge_free ps (unselected sel 0 n))"
proof -
  have m: "mset sel + mset (unselected sel 0 n) = mset [0..<n]"
  proof -
    have "mset sel = mset (filter (\<lambda>d. d \<in> set sel) [0..<n])"
      using d by (subst set_eq_iff_mset_eq_distinct [symmetric]) (auto simp: valid_selection_def)
    then show ?thesis
      using multiset_partition [of "mset [0..<n]" "\<lambda>d. d \<in> set sel"]
      by (simp only: unselected_def mset_filter)
  qed
  have "length (placed ps) + free_count ps = length ps"
    using sum_length_filter_compl [of "\<lambda>p. p = None" ps] by (simp add: placed_def free_count_def add.commute)
  moreover have "length (placed ps) = length sel" using p(1) by (metis size_mset)
  moreover have "length sel + length (unselected sel 0 n) = n"
    using m by (metis size_mset size_union length_upt diff_zero)
  ultimately have c: "free_count ps = length (unselected sel 0 n)" using p(2) by simp
  then show ?thesis
    using merge_free_mset [OF c] merge_free_length [OF c] p m by (simp add: is_perm_mset)
qed

lemma place_moved_eq:
  "pos + length ds \<le> length ps \<Longrightarrow> place_moved pos ds ps = take pos ps @ map Some ds @ drop (pos + length ds) ps"
proof (induction pos ds ps rule: place_moved.induct)
  case (2 pos d ds ps)
  then have "pos < length ps" by simp
  then have "take (Suc pos) (ps[pos := Some d]) = take pos ps @ [Some d]"
    by (simp add: take_Suc_conv_app_nth)
  then show ?case using 2 by simp
qed simp

lemma MoveDims_permutation:
  assumes r: "MakePermutationFromMoveDimsTarget n dims target = Inr (p, dims')" and s: "valid_selection n dims"
  shows "is_perm p \<and> length p = n \<and> length dims' = length dims \<and> (\<forall>i < length dims. dims' ! i < n \<and> p ! (dims' ! i) = dims ! i)"
proof (cases "dims = []")
  case True
  then show ?thesis using r by (auto simp: MakePermutationFromMoveDimsTarget_def is_perm_def)
next
  case False
  then obtain k where k: "NormalizeDimensionIndex target (int n - int (length dims) + 1) = Inr k"
    and p: "p = fill_remaining dims 0 (place_moved (nat k) dims (replicate n None))"
    and d': "dims' = map (\<lambda>i. nat k + i) [0..<length dims]"
    using r by (auto simp: MakePermutationFromMoveDimsTarget_def bind_result_Inr_iff)
  have l: "nat k + length dims \<le> n" using NormalizeDimensionIndex_range [OF k] by linarith
  let ?ps = "replicate (nat k) None @ map Some dims @ replicate (n - (nat k + length dims)) None"
  have ps: "place_moved (nat k) dims (replicate n None) = ?ps"
    using l by (simp add: place_moved_eq)
  have "mset (placed ?ps) = mset dims" by (simp add: placed_def filter_map comp_def)
  then have m: "free_count ?ps = length (unselected dims 0 n)" "is_perm (merge_free ?ps (unselected dims 0 n))"
    using merge_is_perm [OF s] l by simp_all
  have "p = merge_free ?ps (unselected dims 0 n)" using p ps fill_remaining_eq [OF m(1)] by simp
  then show ?thesis
    using m merge_free_length [OF m(1)] merge_free_placed [OF m(1)] l d' by (auto simp: nth_append)
qed


lemma placed_update:
  "i < length ps \<Longrightarrow> ps ! i = None \<Longrightarrow> mset (placed (ps[i := Some d])) = add_mset d (mset (placed ps))"
proof (induction ps arbitrary: i)
  case (Cons a ps)
  then show ?case by (cases i) (auto simp: placed_def)
qed simp

lemma update_keeps: "ps ! k = None \<Longrightarrow> ps ! i = Some e \<Longrightarrow> ps[k := v] ! i = Some e"
  by (cases "i = k") simp_all

lemma transpose_to_loop_Inr:
  assumes "transpose_to_loop (int n) ps (perm, dims) = Inr (perm', dims')" "length perm = n"
  shows "length perm' = n \<and> mset (placed perm') = mset (placed perm) + mset (map fst ps) \<and>
    (\<exists>ds. dims' = dims @ ds \<and> length ds = length ps \<and>
       (\<forall>i < length ps. ds ! i < n \<and> perm' ! (ds ! i) = Some (fst (ps ! i)))) \<and>
    (\<forall>i < n. \<forall>d. perm ! i = Some d \<longrightarrow> perm' ! i = Some d)"
  using assms
proof (induction "int n" ps "(perm, dims)" arbitrary: perm dims rule: transpose_to_loop.induct)
  case (2 d tgt ps perm dims)
  obtain k where k: "NormalizeDimensionIndex tgt (int n) = Inr k" and free: "perm ! nat k = None"
    and rest: "transpose_to_loop (int n) ps (perm[nat k := Some d], dims @ [nat k]) = Inr (perm', dims')"
    using "2.prems"(1) by (auto simp: bind_result_Inr_iff split: if_splits)
  have kn: "nat k < n" using NormalizeDimensionIndex_range [OF k] by auto
  have free': "\<not> (perm ! nat k \<noteq> None)" using free by simp
  have H: "length perm' = n" "mset (placed perm') = mset (placed (perm[nat k := Some d])) + mset (map fst ps)"
    "\<exists>ds. dims' = (dims @ [nat k]) @ ds \<and> length ds = length ps \<and>
       (\<forall>i < length ps. ds ! i < n \<and> perm' ! (ds ! i) = Some (fst (ps ! i)))"
    "\<forall>i < n. \<forall>e. perm[nat k := Some d] ! i = Some e \<longrightarrow> perm' ! i = Some e"
    using "2.hyps" [OF free' rest] "2.prems"(2) by auto
  obtain ds where ds: "dims' = dims @ nat k # ds" "length ds = length ps"
    "\<forall>i < length ps. ds ! i < n \<and> perm' ! (ds ! i) = Some (fst (ps ! i))" using H(3) by auto
  have "perm' ! nat k = Some d" using H(4) kn "2.prems"(2) by simp
  then have "\<exists>es. dims' = dims @ es \<and> length es = length ((d, tgt) # ps) \<and>
      (\<forall>i < length ((d, tgt) # ps). es ! i < n \<and> perm' ! (es ! i) = Some (fst (((d, tgt) # ps) ! i)))"
    using ds kn by (intro exI [of _ "nat k # ds"]) (auto simp: nth_Cons split: nat.splits)
  moreover have "\<forall>i < n. \<forall>e. perm ! i = Some e \<longrightarrow> perm' ! i = Some e"
    using H(4) update_keeps [OF free] by blast
  ultimately show ?case
    using H(1,2) placed_update [of "nat k" perm d] kn free "2.prems"(2) by simp
qed auto

lemma next_free_eq:
  assumes "\<forall>i < t. ps ! i \<noteq> None" "t \<le> length ps"
  shows "(\<forall>i < next_free ps t. ps ! i \<noteq> None) \<and> next_free ps t \<le> length ps \<and>
    (next_free ps t < length ps \<longrightarrow> ps ! next_free ps t = None)"
  using assms
proof (induction ps t rule: next_free.induct)
  case (1 ps t)
  show ?case
  proof (cases "t < length ps \<and> ps ! t \<noteq> None")
    case True
    then have "next_free ps t = next_free ps (Suc t)" by (simp add: next_free.simps [of ps t])
    moreover have "\<forall>i < Suc t. ps ! i \<noteq> None" using 1(2) True less_Suc_eq by blast
    moreover have "Suc t \<le> length ps" using True by simp
    ultimately show ?thesis using 1(1) [OF True] by simp
  next
    case False
    then have "next_free ps t = t" by (subst next_free.simps) (rule if_not_P)
    then show ?thesis using 1(2,3) False by auto
  qed
qed

lemma free_count_zero: "free_count ps = 0 \<longleftrightarrow> (\<forall>i < length ps. ps ! i \<noteq> None)"
  by (auto simp: free_count_def filter_empty_conv all_set_conv_all_nth)

lemma free_count_update:
  "i < length ps \<Longrightarrow> ps ! i = None \<Longrightarrow> free_count ps = Suc (free_count (ps[i := Some d]))"
proof (induction ps arbitrary: i)
  case (Cons a ps)
  then show ?case by (cases i) (auto simp: free_count_def)
qed simp

lemma fill_targets_eq:
  assumes "\<forall>i < t. ps ! i \<noteq> None" "t \<le> length ps"
    and "free_count ps = length (filter (\<lambda>d. d \<notin> set sel) ds)"
  shows "length (fill_targets sel ds t ps) = length ps \<and> free_count (fill_targets sel ds t ps) = 0 \<and>
    mset (placed (fill_targets sel ds t ps)) = mset (placed ps) + mset (filter (\<lambda>d. d \<notin> set sel) ds) \<and>
    (\<forall>i < length ps. \<forall>d. ps ! i = Some d \<longrightarrow> fill_targets sel ds t ps ! i = Some d)"
  using assms
proof (induction ds arbitrary: t ps)
  case (Cons d ds)
  show ?case
  proof (cases "d \<in> set sel")
    case True
    then show ?thesis using Cons by simp
  next
    case False
    let ?f = "next_free ps t"
    let ?ps = "ps[?f := Some d]"
    note nf = next_free_eq [OF Cons.prems(1,2)]
    have "free_count ps \<noteq> 0" using Cons.prems(3) False by simp
    then have f: "?f < length ps" "ps ! ?f = None"
      using nf free_count_zero [of ps] by (metis linorder_le_less_linear order_less_le_trans)+
    have "\<forall>i < ?f. ?ps ! i \<noteq> None" using nf by simp
    moreover have "free_count ?ps = length (filter (\<lambda>d. d \<notin> set sel) ds)"
      using free_count_update [OF f, of d] Cons.prems(3) False by simp
    ultimately have IH: "length (fill_targets sel ds ?f ?ps) = length ?ps \<and> free_count (fill_targets sel ds ?f ?ps) = 0 \<and>
        mset (placed (fill_targets sel ds ?f ?ps)) = mset (placed ?ps) + mset (filter (\<lambda>d. d \<notin> set sel) ds) \<and>
        (\<forall>i < length ?ps. \<forall>d. ?ps ! i = Some d \<longrightarrow> fill_targets sel ds ?f ?ps ! i = Some d)"
      using f(1) by (intro Cons.IH) auto
    have "\<forall>i < length ps. \<forall>e. ps ! i = Some e \<longrightarrow> ?ps ! i = Some e"
      using update_keeps [OF f(2)] by blast
    then show ?thesis
      using IH placed_update [OF f, of d] False by (simp add: Let_def)
  qed
qed (simp add: free_count_def)

lemma TransposeTo_permutation:
  assumes r: "transpose_to_loop (int n) (zip dims targets) (replicate n None, []) = Inr (ps, dims')"
    and s: "valid_selection n dims" "length dims = length targets"
  defines "p \<equiv> map the (fill_targets dims [0..<n] 0 ps)"
  shows "is_perm p \<and> length p = n \<and> length dims' = length dims \<and> (\<forall>i < length dims. dims' ! i < n \<and> p ! (dims' ! i) = dims ! i)"
proof -
  have l: "length ps = n" "mset (placed ps) = mset dims"
    "length dims' = length dims" "\<forall>i < length dims. dims' ! i < n \<and> ps ! (dims' ! i) = Some (dims ! i)"
    using transpose_to_loop_Inr [OF r] s(2) by (auto simp: placed_def)
  have m: "free_count ps = length (unselected dims 0 n)" "is_perm (merge_free ps (unselected dims 0 n))"
    using merge_is_perm [OF s(1) l(2,1)] by auto
  note f = fill_targets_eq [of 0 ps dims "[0..<n]"]
  let ?q = "fill_targets dims [0..<n] 0 ps"
  have q: "length ?q = n" "free_count ?q = 0" "mset (placed ?q) = mset (placed ps) + mset (unselected dims 0 n)"
    "\<forall>i < n. \<forall>d. ps ! i = Some d \<longrightarrow> ?q ! i = Some d"
    using f m(1) l(1) by (simp_all add: unselected_def)
  have "placed ?q = p"
    using q(2) unfolding p_def placed_def free_count_zero
    by (subst filter_True) (auto simp: in_set_conv_nth)
  then have "mset p = mset (merge_free ps (unselected dims 0 n))"
    using q(3) merge_free_mset [OF m(1)] by simp
  then have "is_perm p" using m(2) merge_free_length [OF m(1)] l(1) q(1) by (simp add: is_perm_mset p_def)
  then show ?thesis using q l by (simp add: p_def)
qed

end
