(* ===== verification/Dim_Expression.thy ===== *)
theory Dim_Expression
  imports Label_Ops Transpose_Op
begin

text \<open>
  \<^verbatim>\<open>dim_expression.h\<close> and \<^verbatim>\<open>dim_expression_helper.h\<close>: a \<^verbatim>\<open>DimExpression\<close> selects dimensions and
  chains operations on them. Every operation satisfies the contract of \<open>index_operation\<close>, so a
  chain evaluates to the existing transform at the composition of the documented positions.
\<close>

section \<open>Selections\<close>

text \<open>\<^verbatim>\<open>AllDims\<close> and the three kinds of \<^verbatim>\<open>DimensionList\<close>.\<close>

datatype dim_selection =
    AllDims
  | DimsByIndex "int list"
  | DimsByIdentifier "dimension_identifier list"
  | DynamicDims "dynamic_dim_spec list"

fun select_existing :: "dim_selection \<Rightarrow> transform_rep \<Rightarrow> nat list result" where
  "select_existing AllDims t = Inr (GetAllDimensions (input_rank t))"
| "select_existing (DimsByIndex dimensions) t = CheckAndNormalizeDimensions (input_rank t) dimensions"
| "select_existing (DimsByIdentifier dimensions) t = GetDimensions_identifiers t dimensions"
| "select_existing (DynamicDims dimensions) t = GetDimensions_dynamic (map label (input_dims t)) dimensions"

text \<open>Only indices and dynamic specifications can select new dimensions; the others are rejected by
  the compiler.\<close>

fun select_new :: "dim_selection \<Rightarrow> nat \<Rightarrow> nat list result" where
  "select_new (DimsByIndex dimensions) rnk = GetNewDimensions rnk dimensions"
| "select_new (DynamicDims dimensions) rnk = GetNewDimensions_dynamic rnk dimensions"
| "select_new _ rnk = Inl InvalidArgument"

section \<open>Operations\<close>

datatype dim_op =
    TranslateOp translate_op_kind index_vector_or_scalar
  | SingleIndexSliceOp index_vector_or_scalar
  | IntervalSliceOp interval_form bool index_vector_or_scalar index_vector_or_scalar index_vector_or_scalar
  | StrideOp index_vector_or_scalar
  | DiagonalOp
  | AddNewDimsOp
  | LabelOp "string list"
  | MoveToOp int
  | TransposeOp
  | TransposeToOp "int list"
  | ChangeImplicitStateOp bool bool bool

text \<open>\<^verbatim>\<open>BoxSliceOp\<close> is the sized interval slice of a box.\<close>

definition BoxSliceOp :: "index_interval list \<Rightarrow> bool \<Rightarrow> dim_op" where
  "BoxSliceOp box translate =
     IntervalSliceOp Sized_form translate (IndexVector (map inclusive_min box))
       (IndexVector (map interval_size box)) (IndexScalar 1)"

definition keep_dims :: "transform_rep result \<Rightarrow> nat list \<Rightarrow> (transform_rep \<times> nat list) result" where
  "keep_dims r dims = bind_result r (\<lambda>u. Inr (u, dims))"

text \<open>The \<^verbatim>\<open>Apply\<close> methods of the operations; \<open>unique\<close> is the state of the reference count.\<close>

fun ApplyOp :: "bool \<Rightarrow> dim_op \<Rightarrow> transform_rep \<times> nat list \<Rightarrow> bool \<Rightarrow> (transform_rep \<times> nat list) result" where
  "ApplyOp unique (TranslateOp kind offsets) (t, dims) domain_only =
     keep_dims (ApplyTranslate t dims offsets kind domain_only) dims"
| "ApplyOp unique (SingleIndexSliceOp indices) (t, dims) domain_only =
     ApplySingleIndexSlice t dims indices domain_only"
| "ApplyOp unique (IntervalSliceOp form translate start stop_or_size stride) (t, dims) domain_only =
     keep_dims (ApplyIntervalSliceOp t dims form translate start stop_or_size stride domain_only) dims"
| "ApplyOp unique (StrideOp strides) (t, dims) domain_only =
     keep_dims (ApplyStrideOp t dims strides domain_only) dims"
| "ApplyOp unique DiagonalOp (t, dims) domain_only = ApplyDiagonal t dims domain_only"
| "ApplyOp unique AddNewDimsOp (t, dims) domain_only = keep_dims (ApplyAddNewDims t dims domain_only) dims"
| "ApplyOp unique (LabelOp labels) (t, dims) domain_only = keep_dims (ApplyLabel t dims labels domain_only) dims"
| "ApplyOp unique (MoveToOp target) (t, dims) domain_only = ApplyMoveDimsTo unique t dims target domain_only"
| "ApplyOp unique TransposeOp (t, dims) domain_only = ApplyTranspose unique t dims domain_only"
| "ApplyOp unique (TransposeToOp targets) (t, dims) domain_only =
     ApplyTransposeTo unique t dims targets domain_only"
| "ApplyOp unique (ChangeImplicitStateOp implicit lower upper) (t, dims) domain_only =
     keep_dims (ApplyChangeImplicitState t dims implicit lower upper domain_only) dims"

text \<open>\<^verbatim>\<open>DimExpressionHelper::Apply\<close>: the parent expression is applied first, and the selection comes
  from the first operation.\<close>

fun ApplyChain :: "bool \<Rightarrow> dim_op list \<Rightarrow> transform_rep \<times> nat list \<Rightarrow> bool \<Rightarrow> (transform_rep \<times> nat list) result" where
  "ApplyChain unique [] s domain_only = Inr s"
| "ApplyChain unique (op # ops) s domain_only =
     bind_result (ApplyOp unique op s domain_only) (\<lambda>s'. ApplyChain unique ops s' domain_only)"

fun selected_dimensions_are_new :: "dim_op list \<Rightarrow> bool" where
  "selected_dimensions_are_new (AddNewDimsOp # ops) = True"
| "selected_dimensions_are_new _ = False"

definition ApplyDimExpression ::
  "bool \<Rightarrow> dim_selection \<Rightarrow> dim_op list \<Rightarrow> transform_rep \<Rightarrow> bool \<Rightarrow> (transform_rep \<times> nat list) result" where
  "ApplyDimExpression unique selection ops t domain_only =
     bind_result
       (if selected_dimensions_are_new ops then select_new selection (input_rank t) else select_existing selection t)
       (\<lambda>dims. ApplyChain unique ops (t, dims) domain_only)"

section \<open>The selections are valid\<close>

lemma select_existing_valid:
  assumes "select_existing selection t = Inr dims"
  shows "valid_selection (input_rank t) dims"
proof (cases selection)
  case AllDims
  then show ?thesis using assms by (auto simp: GetAllDimensions_def valid_selection_def)
next
  case (DynamicDims specs)
  then obtain ds where "CheckAndNormalizeDimensions (length (map label (input_dims t))) ds = Inr dims"
    using assms by (auto simp: GetDimensions_dynamic_def bind_result_Inr_iff)
  then show ?thesis using CheckAndNormalizeDimensions_Inr by (auto simp: input_rank_def)
qed (use assms CheckAndNormalizeDimensions_Inr in \<open>auto simp: GetDimensions_identifiers_def bind_result_Inr_iff\<close>)

section \<open>The contract of the operations\<close>

text \<open>The documented old position of each operation.\<close>

fun op_position :: "dim_op \<Rightarrow> nat list \<Rightarrow> transform_rep \<Rightarrow> int list \<Rightarrow> int list" where
  "op_position (TranslateOp kind offsets) dims t = (\<lambda>x. map2 (-) x (full_offsets kind dims offsets t))"
| "op_position (SingleIndexSliceOp indices) dims t = (\<lambda>x. index_slice_position dims indices t x)"
| "op_position (IntervalSliceOp form tr start stop stride) dims t = (\<lambda>x.
     affine_position (slice_infos (slice_step form tr) (slice_arguments dims start stop stride) t) x)"
| "op_position (StrideOp strides) dims t = (\<lambda>x.
     affine_position (slice_infos stride_step (selected_offsets dims strides) t) x)"
| "op_position DiagonalOp dims t = (\<lambda>x. diagonal_position dims t x)"
| "op_position AddNewDimsOp dims t = (\<lambda>x. add_dims_position dims t x)"
| "op_position (MoveToOp target) dims t = (\<lambda>x.
     (case MakePermutationFromMoveDimsTarget (input_rank t) dims target of
        Inr (p, _) \<Rightarrow> transposed_position p x | Inl _ \<Rightarrow> x))"
| "op_position TransposeOp dims t = (\<lambda>x. transposed_position dims x)"
| "op_position (TransposeToOp targets) dims t = (\<lambda>x.
     (case transpose_to_loop (int (input_rank t)) (zip dims targets) (replicate (input_rank t) None, []) of
        Inr (p, _) \<Rightarrow> transposed_position (map the (fill_targets dims [0..<input_rank t] 0 p)) x
      | Inl _ \<Rightarrow> x))"
| "op_position _ dims t = (\<lambda>x. x)"

fun op_admissible :: "dim_op \<Rightarrow> nat list \<Rightarrow> transform_rep \<Rightarrow> bool" where
  "op_admissible AddNewDimsOp dims t \<longleftrightarrow> valid_selection (input_rank t + length dims) dims"
| "op_admissible DiagonalOp dims t \<longleftrightarrow> valid_selection (input_rank t) dims \<and> diagonal_admissible dims t"
| "op_admissible (StrideOp strides) dims t \<longleftrightarrow> valid_selection (input_rank t) dims \<and> stride_admissible dims strides t"
| "op_admissible (ChangeImplicitStateOp implicit lower upper) dims t \<longleftrightarrow>
     valid_selection (input_rank t) dims \<and> \<not> implicit"
| "op_admissible _ dims t \<longleftrightarrow> valid_selection (input_rank t) dims"

lemma keep_dims_Inr: "keep_dims r dims = Inr (u, dims') \<longleftrightarrow> r = Inr u \<and> dims' = dims"
  by (auto simp: keep_dims_def bind_result_Inr_iff)

lemma ApplyMoveDimsTo_Inr:
  "ApplyMoveDimsTo unique t dims target False = Inr (u, dims') \<longleftrightarrow>
     (\<exists>p. MakePermutationFromMoveDimsTarget (input_rank t) dims target = Inr (p, dims') \<and>
          u = TransposeInputDimensions unique t p False)"
  by (auto simp: ApplyMoveDimsTo_def bind_result_Inr_iff)

lemma ApplyTransposeTo_Inr:
  "ApplyTransposeTo unique t dims targets False = Inr (u, dims') \<longleftrightarrow>
     length dims = length targets \<and>
     (\<exists>p. transpose_to_loop (int (input_rank t)) (zip dims targets) (replicate (input_rank t) None, []) = Inr (p, dims') \<and>
          u = TransposeInputDimensions unique t (map the (fill_targets dims [0..<input_rank t] 0 p)) False)"
  by (auto simp: ApplyTransposeTo_def bind_result_Inr_iff Let_def split: if_splits)

lemma ApplyTranspose_Inr:
  "ApplyTranspose unique t dims False = Inr (u, dims') \<longleftrightarrow>
     length dims = input_rank t \<and> IsValidPermutation (map int dims) \<and> dims' = [0..<length dims] \<and>
     u = TransposeInputDimensions unique t dims False"
  by (auto simp: ApplyTranspose_def)

lemma selection_is_perm: "valid_selection n dims \<Longrightarrow> length dims = n \<Longrightarrow> is_perm dims"
  by (intro is_permI) (auto simp: valid_selection_def)


text \<open>The dimension selection that an operation leaves is again valid.\<close>

lemma moved_selection:
  assumes p: "is_perm p" "length p = n" and d: "length dims' = length dims" "\<forall>i < length dims. dims' ! i < n \<and> p ! (dims' ! i) = dims ! i"
    and s: "valid_selection n dims"
  shows "valid_selection n dims'"
proof -
  have "distinct dims'"
    unfolding distinct_conv_nth
  proof (intro allI impI)
    fix i j
    assume i: "i < length dims'" "j < length dims'" "i \<noteq> j"
    then have "dims ! i \<noteq> dims ! j" using s d(1) by (simp add: valid_selection_def nth_eq_iff_index_eq)
    then show "dims' ! i \<noteq> dims' ! j" using d i by metis
  qed
  then show ?thesis using d by (auto simp: valid_selection_def in_set_conv_nth)
qed

lemma input_rank_TransposeInputDimensions:
  assumes "is_perm p" "length p = input_rank t" "DebugCheckInvariants t"
  shows "input_rank (TransposeInputDimensions unique t p False) = input_rank t"
  using assms by (simp add: TransposeInputDimensions_unique invariants_fit input_rank_def PermuteDimsOutOfPlace_fields)

lemma ApplyOp_selection:
  assumes r: "ApplyOp unique op (t, dims) False = Inr (u, dims')" and a: "op_admissible op dims t" and inv: "DebugCheckInvariants t"
  shows "valid_selection (input_rank u) dims'"
proof (cases op)
  case (TranslateOp kind offsets)
  then have s: "ApplyTranslate t dims offsets kind False = Inr u" "valid_selection (input_rank t) dims" "dims' = dims"
    using r a by (simp_all add: keep_dims_Inr)
  have "input_rank u = input_rank t" by (rule ApplyTranslate_Inr [OF s(1,2) inv])
  then show ?thesis using s by simp
next
  case (SingleIndexSliceOp indices)
  then show ?thesis using r a ApplySingleIndexSlice_Inr(3) [of t dims indices u dims'] by (simp add: valid_selection_def)
next
  case (IntervalSliceOp form tr start stop stride)
  then show ?thesis
    using r a inv ApplyIntervalSliceOp_Inr(1) [of t dims form tr start stop stride u]
    by (auto simp: keep_dims_Inr affine_dims_def input_rank_def)
next
  case (StrideOp strides)
  then show ?thesis
    using r a inv ApplyStrideOp_Inr(1) [of t dims strides u] by (auto simp: keep_dims_Inr affine_dims_def input_rank_def)
next
  case DiagonalOp
  obtain mk oi where i: "diagonal_info t dims = (mk, oi)" by (cases "diagonal_info t dims")
  show ?thesis
    using r a inv DiagonalOp ExtractDiagonal_eq(1,2) [OF i, of u dims'] by (auto simp: valid_selection_def input_rank_def)
next
  case AddNewDimsOp
  then show ?thesis using r a inv ApplyAddNewDims_Inr(1) [of t dims u] by (auto simp: keep_dims_Inr)
next
  case (LabelOp labels)
  then show ?thesis using r a ApplyLabel_Inr(1) [of t dims labels u] by (auto simp: keep_dims_Inr)
next
  case (MoveToOp target)
  then obtain p where p: "MakePermutationFromMoveDimsTarget (input_rank t) dims target = Inr (p, dims')"
    "u = TransposeInputDimensions unique t p False" using r by (auto simp: ApplyMoveDimsTo_Inr)
  have s: "valid_selection (input_rank t) dims" using a MoveToOp by simp
  show ?thesis
    using MoveDims_permutation [OF p(1) s] moved_selection [of p "input_rank t" dims' dims] s p(2) input_rank_TransposeInputDimensions [of p t] inv by simp
next
  case TransposeOp
  then show ?thesis
    using r a inv input_rank_TransposeInputDimensions [of dims t unique] selection_is_perm [of "input_rank t" dims]
    by (auto simp: ApplyTranspose_Inr valid_selection_def)
next
  case (TransposeToOp targets)
  then obtain p where p: "transpose_to_loop (int (input_rank t)) (zip dims targets) (replicate (input_rank t) None, []) = Inr (p, dims')"
    "length dims = length targets" "u = TransposeInputDimensions unique t (map the (fill_targets dims [0..<input_rank t] 0 p)) False"
    using r by (auto simp: ApplyTransposeTo_Inr)
  have s: "valid_selection (input_rank t) dims" using a TransposeToOp by simp
  note q = TransposeTo_permutation [OF p(1) s p(2)]
  have "valid_selection (input_rank t) dims'"
    by (rule moved_selection [OF _ _ _ _ s]) (use q in blast)+
  then show ?thesis using p(3) input_rank_TransposeInputDimensions q inv by simp
next
  case (ChangeImplicitStateOp implicit lower upper)
  then show ?thesis using r a ChangeImplicit_Inr(1) [of t dims implicit lower upper u] by (auto simp: keep_dims_Inr)
qed

lemma ApplyOp_reads_through:
  assumes r: "ApplyOp unique op (t, dims) False = Inr (u, dims')" and a: "op_admissible op dims t" and inv: "DebugCheckInvariants t"
  shows "reads_through u t (op_position op dims t)"
proof (cases op)
  case (TranslateOp kind offsets)
  then show ?thesis
    using r a inv translate.operation_reads_through [of "(dims, offsets, kind)" t u] by (simp add: keep_dims_Inr)
next
  case (SingleIndexSliceOp indices)
  then show ?thesis
    using r a inv index_slice.operation_reads_through [of "(dims, indices)" t u] by simp
next
  case (IntervalSliceOp form tr start stop stride)
  then show ?thesis
    using r a inv interval_slice.operation_reads_through [of "(dims, form, tr, start, stop, stride)" t u]
    by (simp add: keep_dims_Inr)
next
  case (StrideOp strides)
  then show ?thesis
    using r a inv stride.operation_reads_through [of "(dims, strides)" t u] by (simp add: keep_dims_Inr)
next
  case DiagonalOp
  then show ?thesis using r a inv diagonal.operation_reads_through [where p = dims and t = t and u = u] by simp
next
  case AddNewDimsOp
  then show ?thesis using r a inv add_new.operation_reads_through [where p = dims and t = t and u = u] by (simp add: keep_dims_Inr)
next
  case (LabelOp labels)
  then show ?thesis using r a inv label.operation_reads_through [of "(dims, labels)" t u] by (simp add: keep_dims_Inr)
next
  case (MoveToOp target)
  then obtain p where p: "MakePermutationFromMoveDimsTarget (input_rank t) dims target = Inr (p, dims')"
    "u = TransposeInputDimensions unique t p False" using r by (auto simp: ApplyMoveDimsTo_Inr)
  then show ?thesis
    using MoveDims_permutation [OF p(1)] a inv MoveToOp transpose.operation_reads_through [of "(unique, p)" t u] by simp
next
  case TransposeOp
  then show ?thesis
    using r a inv selection_is_perm transpose.operation_reads_through [of "(unique, dims)" t u] by (simp add: ApplyTranspose_Inr)
next
  case (TransposeToOp targets)
  then obtain p where p: "transpose_to_loop (int (input_rank t)) (zip dims targets) (replicate (input_rank t) None, []) = Inr (p, dims')"
    "length dims = length targets" "u = TransposeInputDimensions unique t (map the (fill_targets dims [0..<input_rank t] 0 p)) False"
    using r by (auto simp: ApplyTransposeTo_Inr)
  then show ?thesis
    using TransposeTo_permutation [OF p(1) _ p(2)] a inv TransposeToOp
      transpose.operation_reads_through [of "(unique, map the (fill_targets dims [0..<input_rank t] 0 p))" t u] by simp
next
  case (ChangeImplicitStateOp implicit lower upper)
  then show ?thesis
    using r a inv mark_explicit.operation_reads_through [of "(dims, lower, upper)" t u] by (simp add: keep_dims_Inr)
qed


text \<open>One contract for all operations.\<close>

interpretation dim_op: index_operation
  "\<lambda>(unique, op, dims) t. bind_result (ApplyOp unique op (t, dims) False) (\<lambda>(u, _). Inr u)"
  "\<lambda>(unique, op, dims) t. op_admissible op dims t \<and> DebugCheckInvariants t"
  "\<lambda>(unique, op, dims). op_position op dims"
proof (unfold_locales, goal_cases)
  case (1 p t u)
  then show ?case
    using ApplyOp_reads_through by (fastforce simp: bind_result_Inr_iff reads_through_def split: prod.splits)
next
  case (2 p t u x)
  then show ?case
    using ApplyOp_reads_through by (fastforce simp: bind_result_Inr_iff reads_through_def split: prod.splits)
next
  case (3 p t u x k)
  then show ?case
    using ApplyOp_reads_through by (fastforce simp: bind_result_Inr_iff reads_through_def split: prod.splits)
next
  case (4 p t u)
  then show ?case
    using ApplyOp_reads_through by (fastforce simp: bind_result_Inr_iff reads_through_def split: prod.splits)
qed

section \<open>Chains of operations\<close>

text \<open>The positions at which a chain reads the transforms before each of its operations, from the
  last one to the first, and the conditions of the operations along the chain.\<close>

fun chain_positions :: "bool \<Rightarrow> dim_op list \<Rightarrow> transform_rep \<times> nat list \<Rightarrow> int list \<Rightarrow> int list list" where
  "chain_positions unique [] s x = [x]"
| "chain_positions unique (op # ops) (t, dims) x =
     (case ApplyOp unique op (t, dims) False of
        Inr s \<Rightarrow> (let ys = chain_positions unique ops s x in op_position op dims t (hd ys) # ys)
      | Inl _ \<Rightarrow> [x])"

fun chain_admissible :: "bool \<Rightarrow> dim_op list \<Rightarrow> transform_rep \<times> nat list \<Rightarrow> bool" where
  "chain_admissible unique [] s \<longleftrightarrow> True"
| "chain_admissible unique (op # ops) (t, dims) \<longleftrightarrow>
     op_admissible op dims t \<and>
     (case ApplyOp unique op (t, dims) False of Inr s \<Rightarrow> chain_admissible unique ops s | Inl _ \<Rightarrow> True)"

lemma ApplyChain_correct:
  assumes "ApplyChain unique ops (t, dims) False = Inr (u, dims')" "chain_admissible unique ops (t, dims)"
    and "DebugCheckInvariants t"
  shows "DebugCheckInvariants u \<and> output_rank u = output_rank t \<and>
    (\<forall>x. in_domain u x \<and> (\<forall>y \<in> set (chain_positions unique ops (t, dims) x). finite_vec y) \<longrightarrow>
       in_domain t (hd (chain_positions unique ops (t, dims) x)) \<and>
       TransformIndices u x = TransformIndices t (hd (chain_positions unique ops (t, dims) x)))"
  using assms
proof (induction ops arbitrary: t dims)
  case (Cons op ops)
  obtain v ds where s: "ApplyOp unique op (t, dims) False = Inr (v, ds)"
    and rest: "ApplyChain unique ops (v, ds) False = Inr (u, dims')"
    using Cons.prems(1) by (auto simp: bind_result_Inr_iff)
  have a: "op_admissible op dims t" "chain_admissible unique ops (v, ds)" using Cons.prems(2) s by simp_all
  note rt = ApplyOp_reads_through [OF s a(1) Cons.prems(3)]
  have "DebugCheckInvariants v" "output_rank v = output_rank t" using rt by (simp_all add: reads_through_def)
  note IH = Cons.IH [OF rest a(2) this(1)]
  show ?case
  proof (intro conjI allI impI)
    show "DebugCheckInvariants u" "output_rank u = output_rank t"
      using IH \<open>output_rank v = output_rank t\<close> by simp_all
    fix x
    let ?ys = "chain_positions unique ops (v, ds) x"
    assume "in_domain u x \<and> (\<forall>y \<in> set (chain_positions unique (op # ops) (t, dims) x). finite_vec y)"
    then have "in_domain u x" "\<forall>y \<in> set ?ys. finite_vec y" "finite_vec (op_position op dims t (hd ?ys))"
      by (simp_all add: s Let_def)
    then show "in_domain t (hd (chain_positions unique (op # ops) (t, dims) x))"
      "TransformIndices u x = TransformIndices t (hd (chain_positions unique (op # ops) (t, dims) x))"
      using IH rt reads_through_evaluates [OF rt] by (auto simp: s Let_def reads_through_def)
  qed
qed simp

lemma ApplyChain_selection:
  assumes "ApplyChain unique ops (t, dims) False = Inr (u, dims')" "chain_admissible unique ops (t, dims)"
    and "DebugCheckInvariants t" "ops \<noteq> []"
  shows "valid_selection (input_rank u) dims'"
  using assms
proof (induction ops arbitrary: t dims)
  case (Cons op ops)
  obtain v ds where s: "ApplyOp unique op (t, dims) False = Inr (v, ds)"
    and rest: "ApplyChain unique ops (v, ds) False = Inr (u, dims')"
    using Cons.prems(1) by (auto simp: bind_result_Inr_iff)
  have a: "op_admissible op dims t" "chain_admissible unique ops (v, ds)" using Cons.prems(2) s by simp_all
  have i: "DebugCheckInvariants v" using ApplyOp_reads_through [OF s a(1) Cons.prems(3)] by (simp add: reads_through_def)
  show ?case
    using Cons.IH [OF rest a(2) i] ApplyOp_selection [OF s a(1) Cons.prems(3)] rest by (cases ops) auto
qed simp

end
