(* ===== verification/Operation_Properties.thy ===== *)
theory Operation_Properties
  imports Dim_Expression
begin

text \<open>
  The properties of the operations on index transforms: what a \<^verbatim>\<open>DimExpression\<close> evaluates to, the
  exact domains, the representation invariant, and the places where implicit bounds break the
  documented behaviour.
\<close>

section \<open>Concrete transforms\<close>

definition op_dim :: "int \<Rightarrow> int \<Rightarrow> string \<Rightarrow> index_domain_dimension" where
  "op_dim lo hi lbl = \<lparr>optionally_implicit_interval =
     \<lparr>interval = UncheckedClosed lo hi, implicit_lower = False, implicit_upper = False\<rparr>, label = lbl\<rparr>"

text \<open>\<open>(x, y) \<mapsto> (2 * x + 1, y, a[x])\<close> with \<open>x \<in> [0, 9]\<close>, \<open>y \<in> [0, 19]\<close> and the array \<open>a[i] = 8 * i\<close>.\<close>

definition op_example :: transform_rep where
  "op_example = \<lparr>input_dims = [op_dim 0 9 ''x'', op_dim 0 19 ''y''], output_index_maps =
     [\<lparr>map_method = Method_single_input_dimension 0, map_offset = 1, map_stride = 2\<rparr>,
      \<lparr>map_method = Method_single_input_dimension 1, map_offset = 0, map_stride = 1\<rparr>,
      \<lparr>map_method = Method_array \<lparr>element_pointer = (\<lambda>p. p), index_range = Infinite, byte_strides = [8, 0]\<rparr>,
       map_offset = 0, map_stride = 1\<rparr>]\<rparr>"

section \<open>Dimension expressions\<close>







section \<open>Exact domains\<close>

lemma filter_none_slices:
  assumes "valid_selection n dims"
  shows "length (filter (\<lambda>s. s = None) (slices_of dims indices n)) = length (filter (\<lambda>d. d \<notin> set dims) [0..<n])"
proof -
  have "slices_of dims indices n = map (map_of (selected_offsets dims indices)) [0..<n]"
    using slices_of_nth [OF assms] by (intro nth_equalityI) auto
  moreover have "map_of (selected_offsets dims indices) d = None \<longleftrightarrow> d \<notin> set dims" for d
    unfolding map_of_eq_None_iff using selected_offsets_fst by (metis set_map)
  ultimately show ?thesis by (simp add: filter_map o_def)
qed

text \<open>C27: the domain of a translated transform is exactly the shifted domain, and the translated
  transform at a position is the existing one at the position less the documented offsets.\<close>

theorem translate_exact:
  assumes "ApplyTranslate t dims offsets kind False = Inr u" "valid_selection (input_rank t) dims" "DebugCheckInvariants t"
    and "finite_vec x" "finite_vec (map2 (-) x (full_offsets kind dims offsets t))" "length x = input_rank t"
  shows "(in_domain u x \<longleftrightarrow> in_domain t (map2 (-) x (full_offsets kind dims offsets t))) \<and>
    (in_domain u x \<longrightarrow> TransformIndices u x = TransformIndices t (map2 (-) x (full_offsets kind dims offsets t)))"
  using ApplyTranslate_domain [OF assms] translate.operation_evaluates [of "(dims, offsets, kind)" t u x] assms by simp

theorem translate_exact_witness:
  "\<exists>u. ApplyTranslate op_example [1, 0] (IndexVector [100, - 3]) kTranslateTo False = Inr u \<and>
     TransformIndices u [- 3, 105] = TransformIndices op_example [0, 5]"
proof -
  let ?v = "IndexVector [100, - 3]"
  have "case ApplyTranslate op_example [1, 0] ?v kTranslateTo False of Inr u \<Rightarrow> in_domain u [- 3, 105] | Inl _ \<Rightarrow> False" by code_simp
  then obtain u where u: "ApplyTranslate op_example [1, 0] ?v kTranslateTo False = Inr u" "in_domain u [- 3, 105]"
    by (auto split: sum.splits)
  have o: "full_offsets kTranslateTo [1, 0] ?v op_example = [- 3, 100]" by code_simp
  have a: "valid_selection (input_rank op_example) [1, 0]" "DebugCheckInvariants op_example" "finite_vec [- 3, 105]"
    "finite_vec (map2 (-) [- 3, 105] (full_offsets kTranslateTo [1, 0] ?v op_example))" "length [- 3, 105 :: int] = input_rank op_example"
    by code_simp+
  from translate_exact [OF u(1) a] u(2) have "TransformIndices u [- 3, 105] = TransformIndices op_example [0, 5]"
    unfolding o by simp
  then show ?thesis using u(1) by blast
qed

text \<open>C28: slicing at single indices removes the selected dimensions: a position is in the new domain
  exactly when the position with the indices put back is in the existing one, and both evaluate to
  the same output.\<close>

theorem index_slice_exact:
  assumes "ApplySingleIndexSlice t dims indices False = Inr (u, dims')" "valid_selection (input_rank t) dims"
    and "DebugCheckInvariants t" "length x = input_rank u" "finite_vec (index_slice_position dims indices t x)"
  shows "(in_domain u x \<longleftrightarrow> in_domain t (index_slice_position dims indices t x)) \<and>
    (in_domain u x \<longrightarrow> TransformIndices u x = TransformIndices t (index_slice_position dims indices t x)) \<and>
    input_rank u + length dims = input_rank t"
proof -
  note i = ApplySingleIndexSlice_Inr [OF assms(1,2)]
  have "length (filter (\<lambda>s. s = None) (slices_of dims indices (input_rank t))) =
      length (filter (\<lambda>d. d \<notin> set dims) [0..<input_rank t])"
    unfolding filter_none_slices [OF assms(2)] ..
  then have "input_rank u + length dims = input_rank t"
    using length_unselected [OF assms(2)] i(1) length_kept_rank [of "slices_of dims indices (input_rank t)" t] by (simp add: input_rank_def)
  then show ?thesis
    using ApplySingleIndexSlice_domain [OF assms(1,2,4)] index_slice.operation_evaluates [of "(dims, indices)" t u x] assms i(3)
    by simp
qed

theorem index_slice_exact_witness:
  "\<exists>u. ApplySingleIndexSlice op_example [0] (IndexScalar 4) False = Inr (u, []) \<and>
     TransformIndices u [11] = TransformIndices op_example [4, 11]"
proof -
  have "case ApplySingleIndexSlice op_example [0] (IndexScalar 4) False of
      Inr (u, d) \<Rightarrow> d = [] \<and> in_domain u [11] \<and> length [11 :: int] = input_rank u | Inl _ \<Rightarrow> False" by code_simp
  then obtain u where u: "ApplySingleIndexSlice op_example [0] (IndexScalar 4) False = Inr (u, [])" "in_domain u [11]"
    "length [11 :: int] = input_rank u" by (auto split: sum.splits)
  have p: "index_slice_position [0] (IndexScalar 4) op_example [11] = [4, 11]" by code_simp
  have a: "valid_selection (input_rank op_example) [0]" "DebugCheckInvariants op_example"
    "finite_vec (index_slice_position [0] (IndexScalar 4) op_example [11])" by code_simp+
  from index_slice_exact [OF u(1) a(1,2) u(3) a(3)] u show ?thesis by (simp add: p)
qed

section \<open>Permutations of dimensions\<close>

text \<open>C29: permuting in place and out of place gives the same transform, for the input and for the
  output dimensions.\<close>

theorem transpose_in_place_agrees:
  assumes "is_perm p" "length p = input_rank t" "is_perm q" "length q = output_rank t" "DebugCheckInvariants t"
  shows "TransposeInputDimensions True t p domain_only = TransposeInputDimensions False t p domain_only \<and>
    TransposeOutputDimensions True t q = TransposeOutputDimensions False t q"
  using PermuteDims_eq [of t p domain_only] PermuteOutputDims_eq [of q t] invariants_fit [OF assms(5)] assms
  by (simp add: TransposeInputDimensions_def TransposeOutputDimensions_def)

theorem transpose_in_place_agrees_witness:
  "TransposeInputDimensions True op_example [1, 0] False = TransposeInputDimensions False op_example [1, 0] False"
proof -
  have "is_perm [1, 0]" "length [1, 0 :: nat] = input_rank op_example" "is_perm [2, 0, 1]"
    "length [2, 0, 1 :: nat] = output_rank op_example" "DebugCheckInvariants op_example" by code_simp+
  from transpose_in_place_agrees [OF this] show ?thesis by blast
qed



section \<open>Selections and labels\<close>

text \<open>C31: whatever form a selection of existing dimensions has (all, indices, labels, ranges), the
  dimensions it resolves to are distinct and within the rank.\<close>

theorem selections_are_valid:
  assumes "select_existing sel t = Inr dims"
  shows "distinct dims \<and> (\<forall>d \<in> set dims. d < input_rank t)"
  using select_existing_valid [OF assms] by (simp add: valid_selection_def)

theorem selections_are_valid_witness:
  "select_existing (DynamicDims [SpecRange \<lparr>range_inclusive_start = None, range_exclusive_stop = None, range_step = - 1\<rparr>]) op_example =
     Inr [1, 0] \<and> distinct [1, 0 :: nat]"
proof -
  have "select_existing (DynamicDims [SpecRange \<lparr>range_inclusive_start = None, range_exclusive_stop = None, range_step = - 1\<rparr>])
      op_example = Inr [1, 0]" by code_simp
  then show ?thesis using selections_are_valid by blast
qed

text \<open>The label check, which sorts the labels and compares neighbours, accepts exactly the label
  vectors in which the non-empty labels are distinct.\<close>

lemma label_check_exact:
  "ValidateDimensionLabelsAreUnique labels = (if distinct (filter (\<lambda>l. l \<noteq> []) labels) then Inr () else Inl InvalidArgument)"
proof -
  have "ValidateDimensionLabelsAreUnique labels = Inr () \<or> ValidateDimensionLabelsAreUnique labels = Inl InvalidArgument"
    by (simp add: ValidateDimensionLabelsAreUnique_def Let_def)
  then show ?thesis using ValidateDimensionLabelsAreUnique_iff [of labels] by (auto simp: labels_unique_def)
qed

section \<open>Implicit bounds\<close>

definition implicit_lower_dim :: "int \<Rightarrow> int \<Rightarrow> index_domain_dimension" where
  "implicit_lower_dim lo hi = \<lparr>optionally_implicit_interval =
     \<lparr>interval = UncheckedClosed lo hi, implicit_lower = True, implicit_upper = False\<rparr>, label = []\<rparr>"

text \<open>The diagonal of two dimensions with implicit lower bounds and disjoint intervals accepts an
  index that one of the dimensions rejects.\<close>

lemma diagonal_of_disjoint_intervals:
  "\<exists>u. ApplyDiagonal \<lparr>input_dims = [implicit_lower_dim 0 3, implicit_lower_dim 5 10], output_index_maps = []\<rparr> [0, 1] False =
       Inr (u, [0]) \<and>
     TransformIndices u [4] = Inr [] \<and>
     TransformIndices \<lparr>input_dims = [implicit_lower_dim 0 3, implicit_lower_dim 5 10], output_index_maps = []\<rparr> [4, 4] = Inl OutOfRange"
proof -
  let ?t = "\<lparr>input_dims = [implicit_lower_dim 0 3, implicit_lower_dim 5 10], output_index_maps = []\<rparr>"
  have "case ApplyDiagonal ?t [0, 1] False of Inr (u, d) \<Rightarrow> d = [0] \<and> TransformIndices u [4] = Inr [] | Inl _ \<Rightarrow> False" by code_simp
  moreover have "TransformIndices ?t [4, 4] = Inl OutOfRange" by code_simp
  ultimately show ?thesis by (auto split: sum.splits)
qed

text \<open>Striding an empty dimension with an implicit lower bound by a negative stride accepts an
  index whose image is beyond the explicit upper bound.\<close>

lemma stride_of_empty_interval:
  "\<exists>u. ApplyStrideOp \<lparr>input_dims = [implicit_lower_dim 0 (- 1)], output_index_maps = [identity_map 0]\<rparr> [0] (IndexScalar (- 1)) False =
       Inr u \<and>
     TransformIndices u [0] = Inr [0] \<and>
     TransformIndices \<lparr>input_dims = [implicit_lower_dim 0 (- 1)], output_index_maps = [identity_map 0]\<rparr> [0] = Inl OutOfRange"
proof -
  let ?t = "\<lparr>input_dims = [implicit_lower_dim 0 (- 1)], output_index_maps = [identity_map 0]\<rparr>"
  have "case ApplyStrideOp ?t [0] (IndexScalar (- 1)) False of Inr u \<Rightarrow> TransformIndices u [0] = Inr [0] | Inl _ \<Rightarrow> False" by code_simp
  moreover have "TransformIndices ?t [0] = Inl OutOfRange" by code_simp
  ultimately show ?thesis by (auto split: sum.splits)
qed

end
