(* ===== verification/Index_Array_Slice.thy ===== *)
theory Index_Array_Slice
  imports Renumber_Ops Dimension_Selection
begin

text \<open>
  \<^verbatim>\<open>index_array_slice_op.cc\<close>: the selected dimensions are indexed by index arrays, jointly
  (\<^verbatim>\<open>IndexArraySlice\<close>, \<^verbatim>\<open>IndexVectorArraySlice\<close>) or each by its own array (\<^verbatim>\<open>OuterIndexArraySlice\<close>).
  The operations build a transform from the new domain to the domain of the existing transform and
  compose. The contract of the transforms they build is a locale, from which the evaluation of the
  composition follows once for all of them.
\<close>

section \<open>Index arrays\<close>

text \<open>A \<^verbatim>\<open>SharedArrayView\<close> of \<^verbatim>\<open>Index\<close> elements with zero origin.\<close>

record index_array =
  array_pointer :: "int \<Rightarrow> int"
  array_shape :: "int list"
  array_strides :: "int list"

definition array_rank :: "index_array \<Rightarrow> nat" where
  "array_rank a = length (array_shape a)"

definition array_num_elements :: "index_array \<Rightarrow> int" where
  "array_num_elements a = ProductOfExtents (array_shape a)"

section \<open>index\_array\_slice\_op.cc\<close>

definition BroadcastSizes :: "int \<Rightarrow> int \<Rightarrow> bool \<times> int" where
  "BroadcastSizes source result =
     (if source = result then (True, result)
      else if result = 1 then (True, source)
      else if source = 1 then (True, result)
      else (False, result))"

fun broadcast_loop :: "int list \<Rightarrow> int list \<Rightarrow> bool \<times> int list" where
  "broadcast_loop (s # ss) (r # rs) =
     (let (ok, r') = BroadcastSizes s r
      in if ok then (let (ok', rs') = broadcast_loop ss rs in (ok', r' # rs')) else (False, r' # rs))"
| "broadcast_loop ss rs = (True, rs)"

definition BroadcastShapes :: "int list \<Rightarrow> int list \<Rightarrow> bool \<times> int list" where
  "BroadcastShapes source_shape result_shape =
     (if length source_shape \<noteq> length result_shape then (False, result_shape)
      else broadcast_loop source_shape result_shape)"

fun broadcast_all :: "index_array list \<Rightarrow> bool \<times> int list \<Rightarrow> bool \<times> int list" where
  "broadcast_all [] s = s"
| "broadcast_all (a # as) (err, shape) =
     (let (ok, shape') = BroadcastShapes (array_shape a) shape in broadcast_all as (err \<or> \<not> ok, shape'))"

text \<open>\<^verbatim>\<open>MakeTransformFromJointIndexArrays\<close>; the three functions are its callbacks.\<close>

definition joint_array_map :: "nat \<Rightarrow> nat \<Rightarrow> (int \<Rightarrow> int) \<Rightarrow> (nat \<Rightarrow> int) \<Rightarrow> output_index_map" where
  "joint_array_map num_new_dims num_preserved_dims array_base byte_stride =
     \<lparr>map_method = Method_array
        \<lparr>element_pointer = array_base, index_range = Infinite,
         byte_strides = map byte_stride [0..<num_new_dims] @ replicate num_preserved_dims 0\<rparr>,
      map_offset = 0, map_stride = 1\<rparr>"

fun preserve_dims ::
  "nat \<Rightarrow> index_domain_dimension list \<Rightarrow> output_index_map list \<Rightarrow> index_domain_dimension list \<times> output_index_map list" where
  "preserve_dims input_dim (d # ds) (m # ms) =
     (case map_method m of
        Method_single_input_dimension _ \<Rightarrow>
          (let (ds', ms') = preserve_dims (Suc input_dim) ds ms in (d # ds', identity_map input_dim # ms'))
      | _ \<Rightarrow> (let (ds', ms') = preserve_dims input_dim ds ms in (ds', m # ms')))"
| "preserve_dims input_dim ds ms = ([], ms)"

definition replace_if_empty :: "transform_rep \<Rightarrow> transform_rep" where
  "replace_if_empty t = (if IsDomainExplicitlyEmpty t then ReplaceAllIndexArrayMapsWithConstantMaps t else t)"

definition MakeTransformFromJointIndexArrays ::
  "nat \<Rightarrow> transform_rep \<Rightarrow> nat list \<Rightarrow> (nat \<Rightarrow> index_interval) \<Rightarrow> (nat \<Rightarrow> int \<Rightarrow> int) \<Rightarrow> (nat \<Rightarrow> nat \<Rightarrow> int) \<Rightarrow>
     (transform_rep \<times> nat list) result" where
  "MakeTransformFromJointIndexArrays num_new_dims orig_transform dimensions bounds array_base byte_stride =
     (let num_indexed_dims = length dimensions;
          output_rank = input_rank orig_transform;
          input_rank = output_rank - length dimensions + num_new_dims
      in bind_result (ValidateRank (int input_rank)) (\<lambda>_.
           let num_preserved_dims = output_rank - num_indexed_dims;
               maps = scatter (zip dimensions
                        (map (\<lambda>i. joint_array_map num_new_dims num_preserved_dims (array_base i) (byte_stride i))
                           [0..<num_indexed_dims]))
                        (replicate output_rank (identity_map 0));
               (preserved, maps) = preserve_dims num_new_dims (input_dims orig_transform) maps
           in Inr (replace_if_empty
                     \<lparr>input_dims = map (\<lambda>i. explicit_dim (bounds i)) [0..<num_new_dims] @ preserved,
                      output_index_maps = maps\<rparr>,
                   [0..<num_new_dims])))"

definition broadcast_stride :: "int \<Rightarrow> int \<Rightarrow> int" where
  "broadcast_stride extent byte_stride = (if extent = 1 then 0 else byte_stride)"

definition MakeTransformFromIndexArrays ::
  "transform_rep \<Rightarrow> nat list \<Rightarrow> index_array list \<Rightarrow> (transform_rep \<times> nat list) result" where
  "MakeTransformFromIndexArrays orig_transform dimensions arrays =
     (if length arrays \<noteq> length dimensions then Inl InvalidArgument
      else if arrays = [] then Inl InvalidArgument
      else
        let num_new_dims = array_rank (arrays ! 0);
            (err, shape) = broadcast_all arrays (False, replicate num_new_dims 1)
        in if err then Inl InvalidArgument
           else MakeTransformFromJointIndexArrays num_new_dims orig_transform dimensions
                  (\<lambda>new_dim. UncheckedSized 0 (shape ! new_dim))
                  (\<lambda>indexed_dim. array_pointer (arrays ! indexed_dim))
                  (\<lambda>indexed_dim new_dim.
                     broadcast_stride (array_shape (arrays ! indexed_dim) ! new_dim)
                       (array_strides (arrays ! indexed_dim) ! new_dim)))"

text \<open>\<^verbatim>\<open>MakeTransformFromOuterIndexArrays\<close>: the loop over the output dimensions, with the index arrays
  in the order of their dimensions.\<close>

definition outer_array_map :: "nat \<Rightarrow> nat \<Rightarrow> index_array \<Rightarrow> output_index_map" where
  "outer_array_map new_rank input_dim a =
     (if array_num_elements a = 1 then constant_map (array_pointer a 0)
      else \<lparr>map_method = Method_array
              \<lparr>element_pointer = array_pointer a, index_range = Infinite,
               byte_strides = replicate input_dim 0 @ array_strides a @
                              replicate (new_rank - (input_dim + array_rank a)) 0\<rparr>,
            map_offset = 0, map_stride = 1\<rparr>)"

definition array_domain_dims :: "index_array \<Rightarrow> index_domain_dimension list" where
  "array_domain_dims a = map (\<lambda>s. explicit_dim (UncheckedSized 0 s)) (array_shape a)"

fun outer_loop ::
  "nat \<Rightarrow> nat list \<Rightarrow> index_array list \<Rightarrow> nat \<Rightarrow> nat list \<Rightarrow> nat \<Rightarrow> nat list \<Rightarrow> index_domain_dimension list \<Rightarrow>
     nat list \<times> index_domain_dimension list \<times> output_index_map list" where
  "outer_loop new_rank dimensions arrays output_dim order input_dim starts [] = (starts, [], [])"
| "outer_loop new_rank dimensions arrays output_dim order input_dim starts (d # ds) =
     (if order \<noteq> [] \<and> dimensions ! hd order = output_dim then
        (let indexed_dim = hd order;
             a = arrays ! indexed_dim;
             (starts', ds', ms') = outer_loop new_rank dimensions arrays (Suc output_dim) (tl order)
                (input_dim + array_rank a) (starts[indexed_dim := input_dim]) ds
         in (starts', array_domain_dims a @ ds', outer_array_map new_rank input_dim a # ms'))
      else
        (let (starts', ds', ms') = outer_loop new_rank dimensions arrays (Suc output_dim) order
                (Suc input_dim) starts ds
         in (starts', d # ds', identity_map input_dim # ms')))"

definition MakeTransformFromOuterIndexArrays ::
  "transform_rep \<Rightarrow> nat list \<Rightarrow> index_array list \<Rightarrow> (transform_rep \<times> nat list) result" where
  "MakeTransformFromOuterIndexArrays orig_transform dimensions arrays =
     (if length arrays \<noteq> length dimensions then Inl InvalidArgument
      else
        let output_rank = input_rank orig_transform;
            new_rank = output_rank - length dimensions + sum_list (map array_rank arrays)
        in bind_result (ValidateRank (int new_rank)) (\<lambda>_.
             let order = sort_key (\<lambda>i. dimensions ! i) [0..<length dimensions];
                 (starts, ds, ms) = outer_loop new_rank dimensions arrays 0 order 0
                    (replicate (length dimensions) 0) (input_dims orig_transform)
             in Inr (replace_if_empty \<lparr>input_dims = ds, output_index_maps = ms\<rparr>,
                     concat (map (\<lambda>i. [starts ! i ..< starts ! i + array_rank (arrays ! i)])
                                [0..<length dimensions]))))"

definition MakeTransformFromIndexVectorArray ::
  "transform_rep \<Rightarrow> nat list \<Rightarrow> int \<Rightarrow> index_array \<Rightarrow> (transform_rep \<times> nat list) result" where
  "MakeTransformFromIndexVectorArray orig_transform dimensions vector_dimension a =
     bind_result (NormalizeDimensionIndex vector_dimension (int (array_rank a))) (\<lambda>normalized.
       let vector_dimension = nat normalized
       in if array_shape a ! vector_dimension \<noteq> int (length dimensions) then Inl InvalidArgument
       else
         let num_new_dims = array_rank a - 1;
             array_dim = (\<lambda>new_dim. if new_dim \<ge> vector_dimension then new_dim + 1 else new_dim)
         in MakeTransformFromJointIndexArrays num_new_dims orig_transform dimensions
              (\<lambda>new_dim. UncheckedSized 0 (array_shape a ! array_dim new_dim))
              (\<lambda>indexed_dim. AddByteOffset (array_pointer a)
                               (wrap_Multiply (array_strides a ! vector_dimension) (int indexed_dim)))
              (\<lambda>indexed_dim new_dim.
                 broadcast_stride (array_shape a ! array_dim new_dim) (array_strides a ! array_dim new_dim)))"

definition ApplyIndexArraySlice ::
  "transform_rep \<Rightarrow> nat list \<Rightarrow> index_array list \<Rightarrow> bool \<Rightarrow> bool \<Rightarrow> (transform_rep \<times> nat list) result" where
  "ApplyIndexArraySlice t dimensions arrays outer_indexing domain_only =
     bind_result
       (if outer_indexing then MakeTransformFromOuterIndexArrays t dimensions arrays
        else MakeTransformFromIndexArrays t dimensions arrays)
       (\<lambda>(other_transform, dims).
          bind_result (ComposeTransforms t other_transform domain_only) (\<lambda>u. Inr (u, dims)))"

definition ApplyIndexVectorArraySlice ::
  "transform_rep \<Rightarrow> nat list \<Rightarrow> int \<Rightarrow> index_array \<Rightarrow> bool \<Rightarrow> (transform_rep \<times> nat list) result" where
  "ApplyIndexVectorArraySlice t dimensions vector_dimension a domain_only =
     bind_result (MakeTransformFromIndexVectorArray t dimensions vector_dimension a)
       (\<lambda>(other_transform, dims).
          bind_result (ComposeTransforms t other_transform domain_only) (\<lambda>u. Inr (u, dims)))"

section \<open>The contract of the transforms that are built\<close>

text \<open>\<open>s\<close> maps its positions to positions of \<open>t\<close> by \<open>pos\<close>, and its domain contains the positions
  inside of the arrays that are mapped into the domain of \<open>t\<close>.\<close>

definition slices_to :: "transform_rep \<Rightarrow> transform_rep \<Rightarrow> (int list \<Rightarrow> bool) \<Rightarrow> (int list \<Rightarrow> int list) \<Rightarrow> bool" where
  "slices_to s t inside pos \<longleftrightarrow>
     output_rank s = input_rank t \<and> DebugCheckInvariants s \<and>
     (\<forall>x. length x = input_rank s \<longrightarrow> inside x \<longrightarrow> in_domain t (pos x) \<longrightarrow> in_domain s x) \<and>
     (\<forall>x. in_domain s x \<longrightarrow> in_domain t (pos x) \<longrightarrow>
        (\<forall>k < input_rank t. map_value (output_index_maps s ! k) x = pos x ! k \<and> map_in_range (output_index_maps s ! k) x))"

lemma slices_to_evaluates:
  assumes s: "slices_to s t inside pos" and x: "in_domain s x" "in_domain t (pos x)"
  shows "TransformIndices s x = Inr (pos x)" "exact_at s x"
proof -
  have v: "map_value (output_index_maps s ! k) x = pos x ! k \<and> map_in_range (output_index_maps s ! k) x"
    if "k < input_rank t" for k
    using s x that by (simp add: slices_to_def)
  have fin: "in_int64 (pos x ! k)" if "k < input_rank t" for k
    using x(2) that by (auto simp: in_domain_iff finite_vec_nth IsFiniteIndex_def index_consts)
  show "exact_at s x"
    unfolding exact_at_def all_set_conv_all_nth
    using s v fin by (auto simp: slices_to_def output_rank_def)
  show "TransformIndices s x = Inr (pos x)"
    using s x v fin by (subst TransformIndices_Inr_iff) (auto simp: slices_to_def in_domain_def apply_map_eq)
qed

locale slice_builder =
  fixes build :: "'p \<Rightarrow> transform_rep \<Rightarrow> (transform_rep \<times> nat list) result"
    and admissible :: "'p \<Rightarrow> transform_rep \<Rightarrow> bool"
    and inside :: "'p \<Rightarrow> transform_rep \<Rightarrow> int list \<Rightarrow> bool"
    and position :: "'p \<Rightarrow> transform_rep \<Rightarrow> int list \<Rightarrow> int list"
  assumes build_slices: "\<lbrakk>build p t = Inr (s, dims); admissible p t\<rbrakk> \<Longrightarrow> slices_to s t (inside p t) (position p t)"
    and build_selection: "\<lbrakk>build p t = Inr (s, dims); admissible p t\<rbrakk> \<Longrightarrow> valid_selection (input_rank s) dims"
begin

lemma slice_evaluates:
  assumes r: "bind_result (build p t) (\<lambda>(s, dims). bind_result (ComposeTransforms t s False) (\<lambda>u. Inr (u, dims))) =
      Inr (u, dims')"
    and a: "admissible p t" and t: "DebugCheckInvariants t" "plain_dims t"
    and x: "length x = input_rank u" "inside p t x" "in_domain t (position p t x)"
  shows "TransformIndices u x = TransformIndices t (position p t x)" "valid_selection (input_rank u) dims'"
proof -
  obtain s where b: "build p t = Inr (s, dims')" and c: "ComposeTransforms t s False = Inr u"
    using r by (auto simp: bind_result_Inr_iff)
  have sl: "slices_to s t (inside p t) (position p t)" by (rule build_slices [OF b a])
  have rk: "input_rank u = input_rank s"
    by (rule ComposeTransforms_Inr [OF c]) (simp add: input_rank_def set_domains_def)
  have dom: "in_domain s x" using sl x rk by (simp add: slices_to_def)
  show "TransformIndices u x = TransformIndices t (position p t x)"
    by (rule ComposeTransforms_apply [OF c t(1) _ t(2) _ slices_to_evaluates(2) [OF sl dom x(3)]
          slices_to_evaluates(1) [OF sl dom x(3)] x(3)])
       (use sl dom in \<open>simp_all add: slices_to_def in_domain_def\<close>)
  show "valid_selection (input_rank u) dims'" using build_selection [OF b a] rk by simp
qed

end

section \<open>Joint indexing\<close>

definition valid_extent :: "int \<Rightarrow> bool" where
  "valid_extent n \<longleftrightarrow> 0 \<le> n \<and> n \<le> kMaxFiniteIndex"

definition valid_index_array :: "index_array \<Rightarrow> bool" where
  "valid_index_array a \<longleftrightarrow> length (array_strides a) = array_rank a \<and> (\<forall>n \<in> set (array_shape a). valid_extent n)"

lemma extent_interval:
  assumes "valid_extent n"
  shows "valid_interval (UncheckedSized 0 n)" "IsFinite_interval (UncheckedSized 0 n)"
    "Contains_index (UncheckedSized 0 n) v \<longleftrightarrow> 0 \<le> v \<and> v < n"
  using assms
  by (auto simp: valid_extent_def valid_interval_def ValidSized_def IsFinite_interval_def UncheckedSized_def
      Contains_index_def inclusive_max_def IsFiniteIndex_def index_consts)

lemma explicit_dim_simps [simp]:
  "interval (optionally_implicit_interval (explicit_dim i)) = i"
  "\<not> implicit_dimension (optionally_implicit_interval (explicit_dim i))"
  "effective_interval (optionally_implicit_interval (explicit_dim i)) = i"
  "label (explicit_dim i) = []"
  by (simp_all add: explicit_dim_def implicit_dimension_def effective_explicit)

fun number_maps :: "nat \<Rightarrow> output_index_map option list \<Rightarrow> output_index_map list" where
  "number_maps k [] = []"
| "number_maps k (None # sel) = identity_map k # number_maps (Suc k) sel"
| "number_maps k (Some m # sel) = m # number_maps k sel"

definition is_array_map :: "output_index_map \<Rightarrow> bool" where
  "is_array_map m \<longleftrightarrow> (\<exists>a. map_method m = Method_array a)"

lemma preserve_dims_eq:
  assumes "length ds = length sel" "\<forall>m. Some m \<in> set sel \<longrightarrow> is_array_map m"
  shows "preserve_dims k ds (map (\<lambda>s. case s of None \<Rightarrow> identity_map 0 | Some m \<Rightarrow> m) sel) =
    (kept sel ds, number_maps k sel)"
  using assms
  by (induction ds sel arbitrary: k rule: list_induct2) (auto simp: identity_map_def is_array_map_def split: option.splits)

lemma kept_map_option [simp]: "kept (map (map_option f) sel) xs = kept sel xs"
proof (induction sel arbitrary: xs)
  case (Cons s sel)
  then show ?case by (cases s; cases xs) (simp_all add: kept_def)
qed simp

lemma length_number_maps [simp]: "length (number_maps k sel) = length sel"
  by (induction k sel rule: number_maps.induct) simp_all

text \<open>The value of the numbered maps is the position of a slice at the values of the arrays.\<close>

lemma number_maps_value:
  "map (\<lambda>m. base_value m x) (number_maps k sel) =
     slice_position (number_dims k (map (map_option (\<lambda>m. base_value m x)) sel)) x"
  by (induction k sel rule: number_maps.induct) (simp_all add: base_value_def identity_map_def)

lemma number_maps_cases:
  assumes "m \<in> set (number_maps k sel)"
  shows "Some m \<in> set sel \<or> (\<exists>j < k + length (filter (\<lambda>s. s = None) sel). m = identity_map j)"
  using assms
proof (induction k sel rule: number_maps.induct)
  case (2 k sel)
  have "\<exists>j < k + length (filter (\<lambda>s. s = None) (None # sel)). m = identity_map j" if "m = identity_map k"
    using that by (intro exI [of _ k]) simp
  then show ?case using 2 by auto
qed auto

lemma replace_if_empty_fields:
  "input_dims (replace_if_empty t) = input_dims t" "input_rank (replace_if_empty t) = input_rank t"
  "output_rank (replace_if_empty t) = output_rank t"
  "\<not> IsDomainExplicitlyEmpty t \<Longrightarrow> replace_if_empty t = t"
  by (simp_all add: replace_if_empty_def ReplaceAllIndexArrayMapsWithConstantMaps_def input_rank_def output_rank_def)

lemma in_domain_dims: "input_dims s = input_dims s' \<Longrightarrow> in_domain s x = in_domain s' x"
  by (simp add: in_domain_list_all2)

lemma replace_if_empty_invariants:
  assumes "labels_unique (map label (input_dims t))"
    and "\<And>d. d \<in> set (input_dims t) \<Longrightarrow> valid_interval (interval (optionally_implicit_interval d))"
    and "\<And>m. m \<in> set (output_index_maps t) \<Longrightarrow> IsDomainExplicitlyEmpty t \<and> is_array_map m \<or> map_invariant t m"
  shows "DebugCheckInvariants (replace_if_empty t)"
proof -
  have same: "map_invariant (replace_if_empty t) m' = map_invariant t m'" for m'
    by (auto simp: map_invariant_def replace_if_empty_fields IsDomainExplicitlyEmpty_def optionally_implicit_domain_def
        split: output_index_method.splits)
  have "map_invariant t m'" if m': "m' \<in> set (output_index_maps (replace_if_empty t))" for m'
  proof (cases "IsDomainExplicitlyEmpty t")
    case True
    then obtain m where m: "m \<in> set (output_index_maps t)" "m' = replace_array_map m"
      using m' by (auto simp: replace_if_empty_def ReplaceAllIndexArrayMapsWithConstantMaps_def)
    then show ?thesis
      using assms(3) [OF m(1)] True
      by (auto simp: replace_array_map_def is_array_map_def map_invariant_def constant_map_def
          split: output_index_method.splits)
  next
    case False
    then show ?thesis using m' assms(3) [of m'] by (simp add: replace_if_empty_fields)
  qed
  then show ?thesis using assms(1,2) by (simp add: invariants_iff replace_if_empty_fields same)
qed

lemma base_value_joint:
  assumes "length x = n + p"
  shows "base_value (joint_array_map n p ptr st) x = ptr (InnerProduct (take n x) (map st [0..<n]))"
proof -
  have "sum_list (map2 (*) (drop n x) (replicate p 0)) = 0"
    using assms by (intro dot_zero) auto
  moreover have "map2 (*) x (map st [0..<n] @ replicate p 0) =
      map2 (*) (take n x) (map st [0..<n]) @ map2 (*) (drop n x) (replicate p 0)"
    using assms zip_append2 [of x "map st [0..<n]" "replicate p 0"] by simp
  ultimately show ?thesis by (simp add: base_value_def joint_array_map_def InnerProduct_eq)
qed

lemma slice_position_drop:
  "n \<le> length x \<Longrightarrow> slice_position (number_dims (n + k) sl) x = slice_position (number_dims k sl) (drop n x)"
proof (induction k sl rule: number_dims.induct)
  case (3 k sl)
  then show ?case by (simp flip: add_Suc_right)
qed simp_all

lemma map_of_zip_map: "map_of (zip ks (map f vs)) k = map_option f (map_of (zip ks vs) k)"
  by (induction ks arbitrary: vs; case_tac vs) auto

definition selected_maps :: "nat \<Rightarrow> nat list \<Rightarrow> output_index_map list \<Rightarrow> output_index_map option list" where
  "selected_maps n dims ms = map (map_of (zip dims ms)) [0..<n]"

lemma scatter_selected:
  assumes "distinct dims"
  shows "scatter (zip dims ms) (replicate n (identity_map 0)) =
    map (\<lambda>s. case s of None \<Rightarrow> identity_map 0 | Some m \<Rightarrow> m) (selected_maps n dims ms)"
proof (rule nth_equalityI)
  fix i assume "i < length (scatter (zip dims ms) (replicate n (identity_map 0)))"
  moreover have "distinct (map fst (zip dims ms))" using assms by (simp add: map_fst_zip_take)
  ultimately show "scatter (zip dims ms) (replicate n (identity_map 0)) ! i =
    map (\<lambda>s. case s of None \<Rightarrow> identity_map 0 | Some m \<Rightarrow> m) (selected_maps n dims ms) ! i"
    by (simp add: scatter_nth selected_maps_def split: option.split)
qed (simp add: selected_maps_def)

lemma selected_maps_values:
  assumes "valid_selection n dims" "length ms = length dims"
  shows "map (map_option f) (selected_maps n dims ms) = slices_of dims (IndexVector (map f ms)) n"
proof -
  have "selected_offsets dims (IndexVector (map f ms)) = zip dims (map f ms)"
    unfolding selected_offsets_def using assms(2) by (intro arg_cong [where f = "zip dims"] nth_equalityI) auto
  then show ?thesis
    using assms by (intro nth_equalityI) (simp_all add: selected_maps_def slices_of_nth map_of_zip_map)
qed

lemma selected_maps_none:
  assumes "valid_selection n dims" "length ms = length dims"
  shows "length (filter (\<lambda>s. s = None) (selected_maps n dims ms)) = n - length dims"
proof -
  have "filter (\<lambda>s. s = None) (selected_maps n dims ms) =
      map (map_of (zip dims ms)) (filter (\<lambda>d. d \<notin> set dims) [0..<n])"
    using assms(2) by (simp add: selected_maps_def filter_map o_def map_of_zip_is_None)
  then show ?thesis using length_unselected [OF assms(1)] by simp
qed

lemma Contains_index_Infinite: "Contains_index Infinite v \<longleftrightarrow> IsFiniteIndex v"
  by (auto simp: Contains_index_def Infinite_def inclusive_max_def IsFiniteIndex_def index_consts)

lemma selected_maps_mem:
  "Some m \<in> set (selected_maps n dims ms) \<Longrightarrow> m \<in> set ms"
  by (auto simp: selected_maps_def dest!: map_of_SomeD [OF sym] set_zip_rightD)

lemma labels_unique_kept:
  "labels_unique (map label ds) \<Longrightarrow> (\<forall>d \<in> set es. label d = []) \<Longrightarrow> labels_unique (map label (es @ kept sel ds))"
proof -
  assume a: "labels_unique (map label ds)" "\<forall>d \<in> set es. label d = []"
  have "labels_unique (map label (kept sel ds))"
    using a(1) kept_subseq [of sel ds] by (meson labels_unique_sublist subseq_map)
  moreover have "filter (\<lambda>s. s \<noteq> []) (map label es) = []" using a(2) by (simp add: filter_empty_conv)
  ultimately show ?thesis by (simp add: labels_unique_def)
qed

lemma set_kept: "set (kept sel ds) \<subseteq> set ds"
  by (auto simp: kept_def dest: set_zip_rightD)

text \<open>The positions: the values of the arrays at the first indices, the other indices in order.\<close>

definition joint_position ::
  "nat \<Rightarrow> nat list \<Rightarrow> (nat \<Rightarrow> int list \<Rightarrow> int) \<Rightarrow> transform_rep \<Rightarrow> int list \<Rightarrow> int list" where
  "joint_position n dims array_value t x =
     index_slice_position dims (IndexVector (map (\<lambda>k. array_value k (take n x)) [0..<length dims])) t (drop n x)"

text \<open>The transform before index arrays are replaced; \<open>sel\<close> holds the maps of the selected dimensions.\<close>

definition joint_transform ::
  "nat \<Rightarrow> (nat \<Rightarrow> index_interval) \<Rightarrow> output_index_map option list \<Rightarrow> transform_rep \<Rightarrow> transform_rep" where
  "joint_transform n bounds sel t =
     \<lparr>input_dims = map (\<lambda>i. explicit_dim (bounds i)) [0..<n] @ kept sel (input_dims t),
      output_index_maps = number_maps n sel\<rparr>"

definition joint_selection :: "nat \<Rightarrow> output_index_map option list \<Rightarrow> transform_rep \<Rightarrow> bool" where
  "joint_selection n sel t \<longleftrightarrow>
     length sel = input_rank t \<and>
     (\<forall>m. Some m \<in> set sel \<longrightarrow> (\<exists>ptr st. m = joint_array_map n (length (kept sel (input_dims t))) ptr st))"

lemma rank_joint_transform: "input_rank (joint_transform n bounds sel t) = n + length (kept sel (input_dims t))"
  by (simp add: joint_transform_def input_rank_def)

lemma joint_map_cases:
  assumes "joint_selection n sel t" "m \<in> set (output_index_maps (joint_transform n bounds sel t))"
  shows "(\<exists>ptr st. m = joint_array_map n (length (kept sel (input_dims t))) ptr st) \<or>
    (\<exists>j < input_rank (joint_transform n bounds sel t). m = identity_map j)"
  using assms number_maps_cases [of m n sel]
  by (auto simp: joint_transform_def joint_selection_def input_rank_def length_kept)

lemma joint_invariants:
  assumes sel: "joint_selection n sel t" and inv: "DebugCheckInvariants t"
    and fin: "\<And>i. i < n \<Longrightarrow> valid_interval (bounds i) \<and> IsFinite_interval (bounds i)"
  shows "DebugCheckInvariants (replace_if_empty (joint_transform n bounds sel t))"
proof (rule replace_if_empty_invariants)
  let ?s = "joint_transform n bounds sel t" and ?p = "length (kept sel (input_dims t))"
  show "labels_unique (map label (input_dims ?s))"
    using inv labels_unique_kept [of "input_dims t" "map (\<lambda>i. explicit_dim (bounds i)) [0..<n]" sel]
    by (simp add: invariants_iff joint_transform_def)
  show "valid_interval (interval (optionally_implicit_interval d))" if "d \<in> set (input_dims ?s)" for d
    using that fin inv set_kept [of sel "input_dims t"] by (auto simp: joint_transform_def invariants_iff)
  show "IsDomainExplicitlyEmpty ?s \<and> is_array_map m \<or> map_invariant ?s m" if "m \<in> set (output_index_maps ?s)" for m
    using joint_map_cases [OF sel that]
  proof (elim disjE exE conjE)
    fix ptr st
    assume m: "m = joint_array_map n ?p ptr st"
    have "array_dims_ok (input_dims ?s) (map st [0..<n] @ replicate ?p 0)"
      using fin by (auto simp: array_dims_ok_def joint_transform_def list_all2_conv_all_nth nth_append split: if_splits)
    then show ?thesis
      using map_invariant_array [of m _ ?s] by (auto simp: m joint_array_map_def is_array_map_def)
  qed (simp add: map_invariant_def identity_map_def)
qed

definition map_position :: "nat \<Rightarrow> output_index_map option list \<Rightarrow> int list \<Rightarrow> int list" where
  "map_position n sel x = slice_position (number_dims n (map (map_option (\<lambda>m. base_value m x)) sel)) x"

lemma joint_domain:
  assumes sel: "joint_selection n sel t" and x: "length x = input_rank (joint_transform n bounds sel t)"
    and "\<And>i. i < n \<Longrightarrow> Contains_index (bounds i) (x ! i)" "in_domain t (map_position n sel x)"
  shows "in_domain (joint_transform n bounds sel t) x"
proof -
  have lx: "length x = n + length (kept sel (input_dims t))" using x by (simp add: rank_joint_transform)
  have "list_all2 (\<lambda>d v. Contains_index (effective_interval (optionally_implicit_interval d)) v)
      (kept sel (input_dims t)) (drop n x)"
    using assms(4) slice_position_domain [of "input_dims t" "map (map_option (\<lambda>m. base_value m x)) sel" x n] sel lx
    by (simp add: in_domain_list_all2 [of t] map_position_def input_rank_def joint_selection_def)
  moreover have "list_all2 (\<lambda>d v. Contains_index (effective_interval (optionally_implicit_interval d)) v)
      (map (\<lambda>i. explicit_dim (bounds i)) [0..<n]) (take n x)"
    using assms(3) lx by (simp add: list_all2_conv_all_nth)
  ultimately show ?thesis
    using list_all2_appendI [of _ _ "take n x" _ "drop n x"] by (fastforce simp: in_domain_list_all2 joint_transform_def)
qed

lemma joint_values:
  fixes bounds :: "nat \<Rightarrow> index_interval"
  assumes sel: "joint_selection n sel t" and k: "k < input_rank t"
    and f: "IsFiniteIndex (map_position n sel x ! k)"
  defines "m \<equiv> output_index_maps (joint_transform n bounds sel t) ! k"
  shows "map_value m x = map_position n sel x ! k \<and> map_in_range m x"
proof -
  have kl: "k < length (number_maps n sel)" using k sel by (simp add: joint_selection_def)
  have val: "base_value m x = map_position n sel x ! k"
    using arg_cong [OF number_maps_value [of x n sel], of "\<lambda>l. l ! k"] kl
    by (simp add: map_position_def m_def joint_transform_def)
  have "m \<in> set (output_index_maps (joint_transform n bounds sel t))"
    using kl by (simp add: m_def joint_transform_def)
  then have "map_stride m = 1 \<and> map_offset m = 0 \<and> (\<forall>a. map_method m = Method_array a \<longrightarrow> index_range a = Infinite)"
    using joint_map_cases [OF sel, of m bounds] by (auto simp: identity_map_def joint_array_map_def)
  then show ?thesis
    using val f by (auto simp: map_value_def map_in_range_def Contains_index_Infinite split: output_index_method.splits)
qed

lemma slices_to_replaceI:
  assumes "output_rank s = input_rank t" "DebugCheckInvariants (replace_if_empty s)"
    and "\<And>x. \<lbrakk>length x = input_rank s; inside x; in_domain t (pos x)\<rbrakk> \<Longrightarrow> in_domain s x"
    and "\<And>x k. \<lbrakk>in_domain s x; k < input_rank t; IsFiniteIndex (pos x ! k)\<rbrakk> \<Longrightarrow>
           map_value (output_index_maps s ! k) x = pos x ! k \<and> map_in_range (output_index_maps s ! k) x"
  shows "slices_to (replace_if_empty s) t inside pos"
proof -
  have dom: "in_domain (replace_if_empty s) x \<longleftrightarrow> in_domain s x" for x
    by (rule in_domain_dims) (simp add: replace_if_empty_fields)
  have "replace_if_empty s = s" if "in_domain s x" for x
    using in_domain_not_empty [OF that] by (simp add: replace_if_empty_fields)
  moreover have "IsFiniteIndex (pos x ! k)" if "in_domain t (pos x)" "k < input_rank t" for x k
    using that by (simp add: in_domain_iff finite_vec_nth)
  ultimately show ?thesis using assms by (simp add: slices_to_def dom replace_if_empty_fields)
qed

lemma slices_to_joint:
  assumes sel: "joint_selection n sel t" and inv: "DebugCheckInvariants t"
    and fin: "\<And>i. i < n \<Longrightarrow> valid_interval (bounds i) \<and> IsFinite_interval (bounds i)"
    and pos: "\<And>x. length x = n + length (kept sel (input_dims t)) \<Longrightarrow> pos x = map_position n sel x"
  shows "slices_to (replace_if_empty (joint_transform n bounds sel t)) t (\<lambda>x. \<forall>i < n. Contains_index (bounds i) (x ! i)) pos"
proof (rule slices_to_replaceI)
  let ?s = "joint_transform n bounds sel t"
  show "output_rank ?s = input_rank t" using sel by (simp add: joint_transform_def output_rank_def joint_selection_def)
  show "DebugCheckInvariants (replace_if_empty ?s)" by (rule joint_invariants [OF sel inv fin])
  show "in_domain ?s x"
    if "length x = input_rank ?s" "\<forall>i < n. Contains_index (bounds i) (x ! i)" "in_domain t (pos x)" for x
    using joint_domain [OF sel] that pos [of x] by (simp add: rank_joint_transform)
  show "map_value (output_index_maps ?s ! k) x = pos x ! k \<and> map_in_range (output_index_maps ?s ! k) x"
    if "in_domain ?s x" "k < input_rank t" "IsFiniteIndex (pos x ! k)" for x k
    using joint_values [OF sel that(2), of x] pos [of x] that by (simp add: in_domain_def rank_joint_transform)
qed

lemma joint_builds:
  assumes r: "MakeTransformFromJointIndexArrays n t dims bounds array_base st = Inr (s, dims')"
    and v: "valid_selection (input_rank t) dims" and inv: "DebugCheckInvariants t"
    and e: "\<And>i. i < n \<Longrightarrow> \<exists>ext. valid_extent ext \<and> bounds i = UncheckedSized 0 ext"
  shows "slices_to s t (\<lambda>x. \<forall>i < n. Contains_index (bounds i) (x ! i))
           (joint_position n dims (\<lambda>k q. array_base k (InnerProduct q (map (st k) [0..<n]))) t)"
    and "valid_selection (input_rank s) dims'" "n \<le> input_rank s"
proof -
  define p where "p = input_rank t - length dims"
  define ms where "ms = map (\<lambda>k. joint_array_map n p (array_base k) (st k)) [0..<length dims]"
  define sel where "sel = selected_maps (input_rank t) dims ms"
  have l: "length sel = input_rank t" "length ms = length dims" by (simp_all add: sel_def selected_maps_def ms_def)
  have kp: "length (kept sel (input_dims t)) = p"
    using selected_maps_none [OF v l(2)] l by (simp add: length_kept input_rank_def sel_def p_def)
  have sel: "joint_selection n sel t"
    using l(1) by (auto simp: joint_selection_def kp dest!: selected_maps_mem [of _ "input_rank t" dims ms, folded sel_def])
      (auto simp: ms_def)
  have "preserve_dims n (input_dims t) (map (\<lambda>s. case s of None \<Rightarrow> identity_map 0 | Some m \<Rightarrow> m) sel) =
      (kept sel (input_dims t), number_maps n sel)"
    using sel by (intro preserve_dims_eq) (auto simp: joint_selection_def input_rank_def is_array_map_def joint_array_map_def)
  then have s: "s = replace_if_empty (joint_transform n bounds sel t)" "dims' = [0..<n]"
    using r scatter_selected [of dims ms "input_rank t"] v
    by (auto simp: MakeTransformFromJointIndexArrays_def Let_def bind_result_Inr_iff p_def ms_def sel_def
        joint_transform_def valid_selection_def)
  show "valid_selection (input_rank s) dims'" "n \<le> input_rank s"
    by (simp_all add: s valid_selection_def replace_if_empty_fields rank_joint_transform)
  have "joint_position n dims (\<lambda>k q. array_base k (InnerProduct q (map (st k) [0..<n]))) t x = map_position n sel x"
    if "length x = n + length (kept sel (input_dims t))" for x
  proof -
    have "map (\<lambda>m. base_value m x) ms = map (\<lambda>k. array_base k (InnerProduct (take n x) (map (st k) [0..<n]))) [0..<length dims]"
      using base_value_joint [of x n p] that kp by (simp add: ms_def)
    then show ?thesis
      using slice_position_drop [of n x 0] that selected_maps_values [OF v l(2), of "\<lambda>m. base_value m x"]
      by (simp add: joint_position_def index_slice_position_def sel_def map_position_def)
  qed
  moreover have "valid_interval (bounds i) \<and> IsFinite_interval (bounds i)" if "i < n" for i
    using e [OF that] extent_interval(1,2) by metis
  ultimately show "slices_to s t (\<lambda>x. \<forall>i < n. Contains_index (bounds i) (x ! i))
           (joint_position n dims (\<lambda>k q. array_base k (InnerProduct q (map (st k) [0..<n]))) t)"
    unfolding s(1) by (intro slices_to_joint [OF sel inv]) auto
qed

section \<open>IndexArraySlice\<close>

text \<open>The element of an array at an index of the common shape: dimensions of extent 1 are broadcast.\<close>

definition broadcast_at :: "index_array \<Rightarrow> int list \<Rightarrow> int" where
  "broadcast_at a q =
     array_pointer a (InnerProduct (map2 (\<lambda>n i. if n = 1 then 0 else i) (array_shape a) q) (array_strides a))"

text \<open>The common shape: along every dimension, an extent other than 1 of an array, or 1.\<close>

definition broadcasts_to :: "int list \<Rightarrow> int list \<Rightarrow> bool" where
  "broadcasts_to shape common \<longleftrightarrow> list_all2 (\<lambda>n c. n = 1 \<or> n = c) shape common"

lemma BroadcastShapes_True:
  assumes "BroadcastShapes source r = (True, r')"
  shows "broadcasts_to source r' \<and> broadcasts_to r r' \<and> set r' \<subseteq> set source \<union> set r"
proof -
  have "length ss = length rs \<Longrightarrow> broadcast_loop ss rs = (True, rs') \<Longrightarrow>
      broadcasts_to ss rs' \<and> broadcasts_to rs rs' \<and> set rs' \<subseteq> set ss \<union> set rs" for ss rs rs'
    by (induction ss rs arbitrary: rs' rule: list_induct2)
       (fastforce simp: broadcasts_to_def BroadcastSizes_def Let_def split: if_splits prod.splits)+
  then show ?thesis using assms by (auto simp: BroadcastShapes_def split: if_splits)
qed

lemma broadcasts_to_trans: "broadcasts_to a b \<Longrightarrow> broadcasts_to b c \<Longrightarrow> broadcasts_to a c"
  unfolding broadcasts_to_def by (rule list_all2_trans [of "\<lambda>n c. n = 1 \<or> n = c" "\<lambda>n c. n = 1 \<or> n = c"]) auto

lemma broadcast_all_error: "fst (broadcast_all as (True, r))"
  by (induction as arbitrary: r) (auto simp: split_beta)

lemma broadcast_all_shape:
  assumes "broadcast_all as (False, r) = (False, shape)"
  shows "broadcasts_to r shape \<and> (\<forall>a \<in> set as. broadcasts_to (array_shape a) shape) \<and>
    set shape \<subseteq> set r \<union> (\<Union>a \<in> set as. set (array_shape a))"
  using assms
proof (induction as arbitrary: r)
  case Nil
  then show ?case by (auto simp: broadcasts_to_def list_all2_refl)
next
  case (Cons a as)
  obtain ok r' where b: "BroadcastShapes (array_shape a) r = (ok, r')" by fastforce
  have ok: "ok" using Cons.prems b broadcast_all_error [of as r'] by (cases ok) auto
  then have *: "broadcasts_to (array_shape a) r'" "broadcasts_to r r'" "set r' \<subseteq> set (array_shape a) \<union> set r"
    using BroadcastShapes_True [of "array_shape a" r r'] b by auto
  have IH: "broadcasts_to r' shape \<and> (\<forall>a \<in> set as. broadcasts_to (array_shape a) shape) \<and>
      set shape \<subseteq> set r' \<union> (\<Union>a \<in> set as. set (array_shape a))"
    using Cons.IH [of r'] Cons.prems b ok by simp
  show ?case using IH * broadcasts_to_trans [of _ r' shape] by auto
qed

lemma broadcast_at_strides:
  assumes "valid_index_array a" "length q = array_rank a"
  shows "array_pointer a (InnerProduct q (map (\<lambda>i. broadcast_stride (array_shape a ! i) (array_strides a ! i)) [0..<array_rank a])) =
    broadcast_at a q"
proof -
  have "map2 (*) q (map (\<lambda>i. broadcast_stride (array_shape a ! i) (array_strides a ! i)) [0..<array_rank a]) =
      map2 (*) (map2 (\<lambda>n i. if n = 1 then 0 else i) (array_shape a) q) (array_strides a)"
    using assms by (intro nth_equalityI) (auto simp: valid_index_array_def array_rank_def broadcast_stride_def)
  then show ?thesis by (simp add: broadcast_at_def InnerProduct_eq)
qed

definition joint_shape :: "index_array list \<Rightarrow> int list" where
  "joint_shape as = snd (broadcast_all as (False, replicate (array_rank (as ! 0)) 1))"

definition inside_shape :: "int list \<Rightarrow> int list \<Rightarrow> bool" where
  "inside_shape shape x \<longleftrightarrow> (\<forall>i < length shape. 0 \<le> x ! i \<and> x ! i < shape ! i)"

definition index_array_position :: "nat list \<Rightarrow> index_array list \<Rightarrow> transform_rep \<Rightarrow> int list \<Rightarrow> int list" where
  "index_array_position dims as t x =
     joint_position (array_rank (as ! 0)) dims (\<lambda>k q. broadcast_at (as ! k) q) t x"

lemma joint_position_cong:
  "(\<And>k. k < length dims \<Longrightarrow> f k (take n x) = g k (take n x)) \<Longrightarrow> joint_position n dims f t x = joint_position n dims g t x"
  unfolding joint_position_def by (rule arg_cong [where f = "\<lambda>v. index_slice_position dims (IndexVector v) t (drop n x)"]) simp

lemma slices_to_cong:
  assumes "slices_to s t inside pos" "\<And>x. length x = input_rank s \<Longrightarrow> inside x = inside' x"
    and "\<And>x. length x = input_rank s \<Longrightarrow> pos x = pos' x"
  shows "slices_to s t inside' pos'"
  using assms by (simp add: slices_to_def in_domain_def [of s])

lemma MakeTransformFromIndexArrays_builds:
  assumes r: "MakeTransformFromIndexArrays t dims as = Inr (s, dims')"
    and v: "valid_selection (input_rank t) dims" "DebugCheckInvariants t" "\<forall>a \<in> set as. valid_index_array a"
  shows "slices_to s t (inside_shape (joint_shape as)) (index_array_position dims as t)"
    and "valid_selection (input_rank s) dims'"
proof -
  let ?n = "array_rank (as ! 0)"
  obtain shape where sh: "broadcast_all as (False, replicate ?n 1) = (False, shape)"
    and la: "length as = length dims"
    and m: "MakeTransformFromJointIndexArrays ?n t dims (\<lambda>i. UncheckedSized 0 (shape ! i)) (\<lambda>k. array_pointer (as ! k))
       (\<lambda>k i. broadcast_stride (array_shape (as ! k) ! i) (array_strides (as ! k) ! i)) = Inr (s, dims')"
    using r by (auto simp: MakeTransformFromIndexArrays_def Let_def split: if_splits prod.splits)
  note b = broadcast_all_shape [OF sh]
  have ls: "length shape = ?n" using b by (auto simp: broadcasts_to_def dest: list_all2_lengthD)
  have rk: "array_rank (as ! k) = ?n" if "k < length dims" for k
    using b that la ls by (auto simp: broadcasts_to_def array_rank_def dest!: list_all2_lengthD)
  have ext: "valid_extent (shape ! i)" if "i < ?n" for i
  proof -
    have "shape ! i \<in> set shape" using that ls by simp
    then have "shape ! i \<in> set (replicate ?n 1) \<union> (\<Union>a \<in> set as. set (array_shape a))" using b by blast
    then show ?thesis using v(3) by (auto simp: valid_index_array_def valid_extent_def index_consts)
  qed
  have e: "\<exists>ext. valid_extent ext \<and> UncheckedSized 0 (shape ! i) = UncheckedSized 0 ext" if "i < ?n" for i
    using ext [OF that] by blast
  note j = joint_builds [OF m v(1,2) e]
  show "valid_selection (input_rank s) dims'" by (rule j(2))
  show "slices_to s t (inside_shape (joint_shape as)) (index_array_position dims as t)"
  proof (rule slices_to_cong [OF j(1)])
    fix x :: "int list"
    assume "length x = input_rank s"
    show "(\<forall>i < ?n. Contains_index (UncheckedSized 0 (shape ! i)) (x ! i)) = inside_shape (joint_shape as) x"
      using ext extent_interval(3) by (auto simp: inside_shape_def joint_shape_def sh ls)
  next
    fix x :: "int list"
    assume x: "length x = input_rank s"
    have "?n \<le> length x" using j(3) x by simp
    then have "array_pointer (as ! k) (InnerProduct (take ?n x) (map (\<lambda>i. broadcast_stride
        (array_shape (as ! k) ! i) (array_strides (as ! k) ! i)) [0..<?n])) = broadcast_at (as ! k) (take ?n x)"
      if "k < length dims" for k
      using broadcast_at_strides [of "as ! k" "take ?n x"] v(3) rk [OF that] la that by simp
    then show "joint_position ?n dims (\<lambda>k q. array_pointer (as ! k) (InnerProduct q (map (\<lambda>i. broadcast_stride
        (array_shape (as ! k) ! i) (array_strides (as ! k) ! i)) [0..<?n]))) t x = index_array_position dims as t x"
      unfolding index_array_position_def by (intro joint_position_cong)
  qed
qed

interpretation joint: slice_builder
  "\<lambda>(dims, as) t. MakeTransformFromIndexArrays t dims as"
  "\<lambda>(dims, as) t. valid_selection (input_rank t) dims \<and> DebugCheckInvariants t \<and> (\<forall>a \<in> set as. valid_index_array a)"
  "\<lambda>(dims, as) t. inside_shape (joint_shape as)"
  "\<lambda>(dims, as) t. index_array_position dims as t"
  by unfold_locales (auto dest: MakeTransformFromIndexArrays_builds)

section \<open>IndexVectorArraySlice\<close>

text \<open>The shape of the array without its vector dimension, and the components of the vectors.\<close>

definition vector_shape :: "nat \<Rightarrow> index_array \<Rightarrow> int list" where
  "vector_shape vd a = take vd (array_shape a) @ drop (Suc vd) (array_shape a)"

definition index_vector_position :: "nat list \<Rightarrow> nat \<Rightarrow> index_array \<Rightarrow> transform_rep \<Rightarrow> int list \<Rightarrow> int list" where
  "index_vector_position dims vd a t x =
     joint_position (array_rank a - 1) dims (\<lambda>k q. broadcast_at a (take vd q @ int k # drop vd q)) t x"

lemma map_skip:
  assumes "vd < n"
  shows "map (\<lambda>i. f (if i \<ge> vd then i + 1 else i)) [0..<n - 1] = map f [0..<vd] @ map f [Suc vd..<n]"
  by (rule nth_equalityI) (use assms in \<open>auto simp: nth_append\<close>)

lemma vector_value:
  assumes a: "valid_index_array a" and vd: "vd < array_rank a" and q: "length q = array_rank a - 1"
    and k: "array_shape a ! vd = 1 \<longrightarrow> k = 0"
  defines "F \<equiv> \<lambda>i. broadcast_stride (array_shape a ! i) (array_strides a ! i)"
  shows "AddByteOffset (array_pointer a) (wrap_Multiply (array_strides a ! vd) k)
      (InnerProduct q (map (\<lambda>i. F (if i \<ge> vd then i + 1 else i)) [0..<array_rank a - 1])) =
    broadcast_at a (take vd q @ k # drop vd q)"
proof -
  let ?n = "array_rank a"
  have split: "[0..<?n] = [0..<vd] @ vd # [Suc vd..<?n]"
    using vd upt_add_eq_append [of 0 vd "?n - vd"] upt_conv_Cons [of vd ?n] by simp
  have "array_pointer a (InnerProduct (take vd q @ k # drop vd q) (map F [0..<?n])) =
      broadcast_at a (take vd q @ k # drop vd q)"
    using broadcast_at_strides [OF a, of "take vd q @ k # drop vd q"] vd q by (simp add: F_def)
  moreover have "map2 (*) (take vd q @ k # drop vd q) (map F [0..<?n]) =
      map2 (*) (take vd q) (map F [0..<vd]) @ k * F vd # map2 (*) (drop vd q) (map F [Suc vd..<?n])"
    using vd q by (simp add: split)
  moreover have "map2 (*) q (map F [0..<vd] @ map F [Suc vd..<?n]) =
      map2 (*) (take vd q) (map F [0..<vd]) @ map2 (*) (drop vd q) (map F [Suc vd..<?n])"
    using vd q zip_append2 [of q "map F [0..<vd]" "map F [Suc vd..<?n]"] by simp
  moreover have "k * F vd = array_strides a ! vd * k" using k by (simp add: F_def broadcast_stride_def)
  moreover have "wrap_index (wrap_index u + wrap_index v) = wrap_index (u + v)" for u v
    unfolding wrap_index_eq_weq by (intro weq_add weq_wrap)
  ultimately show ?thesis
    unfolding map_skip [OF vd]
    by (simp add: AddByteOffset_def wrap_Add_def wrap_Multiply_def InnerProduct_eq algebra_simps)
qed

lemma MakeTransformFromIndexVectorArray_builds:
  assumes r: "MakeTransformFromIndexVectorArray t dims vdim a = Inr (s, dims')"
    and v: "valid_selection (input_rank t) dims" "DebugCheckInvariants t" "valid_index_array a"
  shows "\<exists>vd < array_rank a. NormalizeDimensionIndex vdim (int (array_rank a)) = Inr (int vd) \<and>
      slices_to s t (inside_shape (vector_shape vd a)) (index_vector_position dims vd a t)"
    and "valid_selection (input_rank s) dims'"
proof -
  let ?n = "array_rank a"
  obtain vd where nd: "NormalizeDimensionIndex vdim (int ?n) = Inr (int vd)" and vd: "vd < ?n"
    and len: "array_shape a ! vd = int (length dims)"
    and m: "MakeTransformFromJointIndexArrays (?n - 1) t dims
       (\<lambda>i. UncheckedSized 0 (array_shape a ! (if i \<ge> vd then i + 1 else i)))
       (\<lambda>k. AddByteOffset (array_pointer a) (wrap_Multiply (array_strides a ! vd) (int k)))
       (\<lambda>k i. broadcast_stride (array_shape a ! (if i \<ge> vd then i + 1 else i))
                (array_strides a ! (if i \<ge> vd then i + 1 else i))) = Inr (s, dims')"
    using r by (auto simp: MakeTransformFromIndexVectorArray_def NormalizeDimensionIndex_def Let_def bind_result_Inr_iff
        split: if_splits intro: that [of "nat (vdim + int ?n)"] that [of "nat vdim"])
  have ext: "valid_extent (array_shape a ! (if i \<ge> vd then i + 1 else i))" if "i < ?n - 1" for i
    using v(3) that vd by (auto simp: valid_index_array_def array_rank_def)
  have e: "\<exists>ext. valid_extent ext \<and>
      UncheckedSized 0 (array_shape a ! (if i \<ge> vd then i + 1 else i)) = UncheckedSized 0 ext" if "i < ?n - 1" for i
    using ext [OF that] by blast
  note j = joint_builds [OF m v(1,2) e]
  show "valid_selection (input_rank s) dims'" by (rule j(2))
  have "slices_to s t (inside_shape (vector_shape vd a)) (index_vector_position dims vd a t)"
  proof (rule slices_to_cong [OF j(1)])
    fix x :: "int list"
    assume "length x = input_rank s"
    have "vector_shape vd a ! i = array_shape a ! (if i \<ge> vd then i + 1 else i)" if "i < ?n - 1" for i
      using that vd by (auto simp: vector_shape_def nth_append array_rank_def)
    moreover have "length (vector_shape vd a) = ?n - 1" using vd by (simp add: vector_shape_def array_rank_def)
    ultimately show "(\<forall>i < ?n - 1. Contains_index (UncheckedSized 0 (array_shape a ! (if i \<ge> vd then i + 1 else i))) (x ! i)) =
        inside_shape (vector_shape vd a) x"
      using ext extent_interval(3) by (auto simp: inside_shape_def)
  next
    fix x :: "int list"
    assume x: "length x = input_rank s"
    then have q: "length (take (?n - 1) x) = ?n - 1" using j(3) by simp
    show "joint_position (?n - 1) dims (\<lambda>k q. AddByteOffset (array_pointer a) (wrap_Multiply (array_strides a ! vd) (int k))
        (InnerProduct q (map (\<lambda>i. broadcast_stride (array_shape a ! (if i \<ge> vd then i + 1 else i))
                (array_strides a ! (if i \<ge> vd then i + 1 else i))) [0..<?n - 1]))) t x = index_vector_position dims vd a t x"
      unfolding index_vector_position_def
      by (rule joint_position_cong, rule vector_value [OF v(3) vd q]) (simp add: len)
  qed
  then show "\<exists>vd < ?n. NormalizeDimensionIndex vdim (int ?n) = Inr (int vd) \<and>
      slices_to s t (inside_shape (vector_shape vd a)) (index_vector_position dims vd a t)"
    using nd vd by blast
qed

text \<open>The normalized vector dimension.\<close>

definition vector_dim :: "int \<Rightarrow> index_array \<Rightarrow> nat" where
  "vector_dim vdim a = nat (if vdim < 0 then vdim + int (array_rank a) else vdim)"

interpretation vector: slice_builder
  "\<lambda>(dims, vdim, a) t. MakeTransformFromIndexVectorArray t dims vdim a"
  "\<lambda>(dims, vdim, a) t. valid_selection (input_rank t) dims \<and> DebugCheckInvariants t \<and> valid_index_array a"
  "\<lambda>(dims, vdim, a) t. inside_shape (vector_shape (vector_dim vdim a) a)"
  "\<lambda>(dims, vdim, a) t. index_vector_position dims (vector_dim vdim a) a t"
proof (unfold_locales, goal_cases)
  case (1 p t s dims)
  then show ?case
    by (force simp: vector_dim_def NormalizeDimensionIndex_def split: if_splits
        dest: MakeTransformFromIndexVectorArray_builds(1))
next
  case (2 p t s dims)
  then show ?case by (auto dest: MakeTransformFromIndexVectorArray_builds(2))
qed

end
