(* ===== verification/Outer_Index_Slice.thy ===== *)
theory Outer_Index_Slice
  imports Index_Array_Slice
begin

text \<open>
  \<^verbatim>\<open>MakeTransformFromOuterIndexArrays\<close> of \<^verbatim>\<open>index_array_slice_op.cc\<close>: every selected dimension is replaced,
  in place, by the dimensions of its own index array. The loop over the sorted selection is related
  to a recursion over the dimensions, the contract of the builders is interpreted, and the properties
  of the three index array slices are stated.
\<close>

section \<open>OuterIndexArraySlice\<close>

text \<open>The dimensions, maps and positions along a list that tells for every output dimension the
  array that indexes it.\<close>

fun outer_dims :: "index_array option list \<Rightarrow> index_domain_dimension list \<Rightarrow> index_domain_dimension list" where
  "outer_dims (Some a # sel) (d # ds) = array_domain_dims a @ outer_dims sel ds"
| "outer_dims (None # sel) (d # ds) = d # outer_dims sel ds"
| "outer_dims _ _ = []"

fun outer_maps :: "nat \<Rightarrow> nat \<Rightarrow> index_array option list \<Rightarrow> output_index_map list" where
  "outer_maps n i [] = []"
| "outer_maps n i (Some a # sel) = outer_array_map n i a # outer_maps n (i + array_rank a) sel"
| "outer_maps n i (None # sel) = identity_map i # outer_maps n (Suc i) sel"

definition array_at :: "index_array \<Rightarrow> int list \<Rightarrow> int" where
  "array_at a x = array_pointer a (InnerProduct x (array_strides a))"

fun outer_position :: "index_array option list \<Rightarrow> int list \<Rightarrow> int list" where
  "outer_position [] x = []"
| "outer_position (Some a # sel) x = array_at a (take (array_rank a) x) # outer_position sel (drop (array_rank a) x)"
| "outer_position (None # sel) x = hd x # outer_position sel (tl x)"

fun outer_inside :: "index_array option list \<Rightarrow> int list \<Rightarrow> bool" where
  "outer_inside [] x \<longleftrightarrow> True"
| "outer_inside (Some a # sel) x \<longleftrightarrow>
     list_all2 (\<lambda>n i. 0 \<le> i \<and> i < n) (array_shape a) (take (array_rank a) x) \<and> outer_inside sel (drop (array_rank a) x)"
| "outer_inside (None # sel) x \<longleftrightarrow> outer_inside sel (tl x)"

definition block_rank :: "index_array option \<Rightarrow> nat" where
  "block_rank s = (case s of None \<Rightarrow> 1 | Some a \<Rightarrow> array_rank a)"

definition outer_rank :: "index_array option list \<Rightarrow> nat" where
  "outer_rank sel = sum_list (map block_rank sel)"

lemma outer_rank_simps [simp]:
  "outer_rank [] = 0" "outer_rank (None # sel) = Suc (outer_rank sel)"
  "outer_rank (Some a # sel) = array_rank a + outer_rank sel"
  by (simp_all add: outer_rank_def block_rank_def)

lemma length_array_domain_dims [simp]: "length (array_domain_dims a) = array_rank a"
  by (simp add: array_domain_dims_def array_rank_def)

definition contains_dim :: "index_domain_dimension \<Rightarrow> int \<Rightarrow> bool" where
  "contains_dim d v \<longleftrightarrow> Contains_index (effective_interval (optionally_implicit_interval d)) v"

lemma array_domain_contains:
  assumes "valid_index_array a"
  shows "list_all2 contains_dim (array_domain_dims a) x \<longleftrightarrow> list_all2 (\<lambda>n i. 0 \<le> i \<and> i < n) (array_shape a) x"
  using assms extent_interval(3)
  by (auto simp: array_domain_dims_def list_all2_conv_all_nth contains_dim_def valid_index_array_def)

definition outer_selection :: "index_array option list \<Rightarrow> bool" where
  "outer_selection sel \<longleftrightarrow> (\<forall>a. Some a \<in> set sel \<longrightarrow> valid_index_array a)"

lemma outer_selection_simps [simp]:
  "outer_selection []" "outer_selection (None # sel) \<longleftrightarrow> outer_selection sel"
  "outer_selection (Some a # sel) \<longleftrightarrow> valid_index_array a \<and> outer_selection sel"
  by (auto simp: outer_selection_def)

text \<open>The new domain consists of the positions inside of the arrays and in the preserved dimensions.\<close>

lemma outer_dims_contains:
  assumes "length sel = length ds" "outer_selection sel" "length x = outer_rank sel"
  shows "list_all2 contains_dim (outer_dims sel ds) x \<Longrightarrow> outer_inside sel x"
    and "outer_inside sel x \<Longrightarrow> list_all2 contains_dim ds (outer_position sel x) \<Longrightarrow>
      list_all2 contains_dim (outer_dims sel ds) x"
  using assms
proof (induction sel ds arbitrary: x rule: list_induct2)
  case (Cons s sel d ds)
  { case 1
    then show ?case
    proof (cases s)
      case None
      then show ?thesis using 1 Cons.IH(1) [of "tl x"] by (cases x) auto
    next
      case (Some a)
      then have "list_all2 contains_dim (array_domain_dims a @ outer_dims sel ds)
          (take (array_rank a) x @ drop (array_rank a) x)"
        using 1 by simp
      moreover have "length (take (array_rank a) x) = length (array_domain_dims a)" using 1 Some by simp
      ultimately have "list_all2 contains_dim (array_domain_dims a) (take (array_rank a) x) \<and>
          list_all2 contains_dim (outer_dims sel ds) (drop (array_rank a) x)"
        by (subst (asm) list_all2_append) auto
      then show ?thesis
        using 1 Some Cons.IH(1) [of "drop (array_rank a) x"] array_domain_contains [of a "take (array_rank a) x"] by simp
    qed
  next
    case 2
    then show ?case
    proof (cases s)
      case None
      then show ?thesis using 2 Cons.IH(2) [of "tl x"] by (cases x) auto
    next
      case (Some a)
      then have "list_all2 contains_dim (array_domain_dims a @ outer_dims sel ds)
          (take (array_rank a) x @ drop (array_rank a) x)"
        using 2 Cons.IH(2) [of "drop (array_rank a) x"] array_domain_contains [of a "take (array_rank a) x"]
        by (intro list_all2_appendI) auto
      then show ?thesis using Some by simp
    qed
  }
qed simp_all

lemma singleton_array:
  assumes "valid_index_array a" "array_num_elements a = 1"
    and "list_all2 (\<lambda>n i. 0 \<le> i \<and> i < n) (array_shape a) x"
  shows "array_at a x = array_pointer a 0"
proof -
  have nn: "\<forall>n \<in> set (array_shape a). 0 \<le> n" using assms(1) by (auto simp: valid_index_array_def valid_extent_def)
  have "prod_list ns = 1 \<Longrightarrow> \<forall>n \<in> set ns. 0 \<le> n \<Longrightarrow> n \<in> set ns \<Longrightarrow> n = 1" for ns :: "int list" and n
  proof (induction ns)
    case (Cons m ns)
    then have "m * prod_list ns = 1" "0 \<le> m" by simp_all
    then have "m = 1 \<and> prod_list ns = 1" using pos_zmult_eq_1_iff [of m "prod_list ns"] by (cases "m = 0") auto
    then show ?case using Cons by auto
  qed simp
  moreover have "prod_list (array_shape a) = 1"
    using assms(2) ProductOfExtents_eq [OF nn] by (auto simp: array_num_elements_def index_consts min_def split: if_splits)
  ultimately have "array_shape a ! i = 1" if "i < array_rank a" for i
    using nn that by (auto simp: array_rank_def)
  then have "x ! i = 0" if "i < length x" for i
    using assms(3) that by (fastforce simp: list_all2_conv_all_nth array_rank_def)
  then have "sum_list (map2 (*) x (array_strides a)) = 0"
    using assms(1,3) by (intro dot_zero) (auto simp: valid_index_array_def array_rank_def list_all2_lengthD)
  then show ?thesis by (simp add: array_at_def InnerProduct_eq)
qed

lemma InnerProduct_block:
  assumes "length pre = i" "length x = length ss"
  shows "InnerProduct (pre @ x @ post) (replicate i 0 @ ss @ replicate (length post) 0) = InnerProduct x ss"
proof -
  have "sum_list (map2 (*) pre (replicate i 0)) = 0" "sum_list (map2 (*) post (replicate (length post) 0)) = 0"
    using assms(1) by (auto intro!: dot_zero)
  then show ?thesis using assms by (simp add: InnerProduct_eq)
qed

lemma outer_maps_values:
  assumes "outer_selection sel" "outer_inside sel x" "length x = outer_rank sel" "n = length pre + outer_rank sel"
    and "k < length sel" "IsFiniteIndex (outer_position sel x ! k)"
  shows "map_value (outer_maps n (length pre) sel ! k) (pre @ x) = outer_position sel x ! k \<and>
    map_in_range (outer_maps n (length pre) sel ! k) (pre @ x)"
  using assms
proof (induction sel arbitrary: pre x k)
  case (Cons s sel)
  show ?case
  proof (cases s)
    case None
    then obtain v y where x: "x = v # y" using Cons.prems by (cases x) auto
    show ?thesis
      using Cons.IH [of y "pre @ [v]" "k - 1"] Cons.prems None x
      by (cases k) (auto simp: map_value_def base_value_def map_in_range_def identity_map_def)
  next
    case (Some a)
    let ?b = "take (array_rank a) x" and ?r = "drop (array_rank a) x"
    have a: "valid_index_array a" "list_all2 (\<lambda>n i. 0 \<le> i \<and> i < n) (array_shape a) ?b" using Cons.prems Some by simp_all
    have l: "length ?b = length (array_strides a)" "length ?r = n - (length pre + array_rank a)"
      using a Cons.prems Some by (auto simp: valid_index_array_def)
    have "InnerProduct (pre @ x) (replicate (length pre) 0 @ array_strides a @ replicate (n - (length pre + array_rank a)) 0) =
        InnerProduct ?b (array_strides a)"
      using InnerProduct_block [of pre "length pre" ?b "array_strides a" ?r] l by simp
    then have "map_value (outer_array_map n (length pre) a) (pre @ x) = array_at a ?b \<and>
        map_in_range (outer_array_map n (length pre) a) (pre @ x)" if "IsFiniteIndex (array_at a ?b)"
      using that singleton_array [OF a(1) _ a(2)]
      by (auto simp: outer_array_map_def map_value_def base_value_def map_in_range_def constant_map_def
          Contains_index_Infinite array_at_def)
    moreover have "length (pre @ ?b) = length pre + array_rank a" using Cons.prems Some by simp
    ultimately show ?thesis
      using Cons.IH [of ?r "pre @ ?b" "k - 1"] Cons.prems Some by (cases k) auto
  qed
qed simp

lemma length_outer_dims: "length sel = length ds \<Longrightarrow> length (outer_dims sel ds) = outer_rank sel"
proof (induction sel ds rule: list_induct2)
  case (Cons s sel d ds)
  then show ?case by (cases s) simp_all
qed simp

lemma array_dims_ok_zero: "array_dims_ok ds (replicate (length ds) 0)"
  by (simp add: array_dims_ok_def list_all2_conv_all_nth)

lemma array_dims_ok_append:
  "array_dims_ok ds ss \<Longrightarrow> array_dims_ok es ts \<Longrightarrow> array_dims_ok (ds @ es) (ss @ ts)"
  by (simp add: array_dims_ok_def list_all2_appendI)

lemma outer_maps_cases:
  assumes "length sel = length ds" "outer_selection sel" "n = length pre + outer_rank sel"
    and "m \<in> set (outer_maps n (length pre) sel)"
  shows "(\<exists>c. m = constant_map c) \<or> (\<exists>j < n. m = identity_map j) \<or>
    (\<exists>a. map_method m = Method_array a \<and> map_stride m = 1 \<and> array_dims_ok (pre @ outer_dims sel ds) (byte_strides a))"
  using assms
proof (induction sel ds arbitrary: pre rule: list_induct2)
  case (Cons s sel d ds)
  show ?case
  proof (cases s)
    case None
    then show ?thesis using Cons.IH [of "pre @ [d]"] Cons.prems by (auto intro: exI [of _ "length pre"])
  next
    case (Some a)
    show ?thesis
    proof (cases "m = outer_array_map n (length pre) a")
      case True
      have "array_dims_ok (array_domain_dims a) (array_strides a)"
        using Cons.prems Some extent_interval
        by (auto simp: array_dims_ok_def array_domain_dims_def list_all2_conv_all_nth valid_index_array_def array_rank_def)
      then have "array_dims_ok (pre @ outer_dims (Some a # sel) (d # ds))
          (replicate (length pre) 0 @ array_strides a @ replicate (n - (length pre + array_rank a)) 0)"
        using array_dims_ok_zero [of pre] array_dims_ok_zero [of "outer_dims sel ds"] length_outer_dims [OF Cons.hyps]
          Cons.prems Some by (simp add: array_dims_ok_append)
      then show ?thesis using True Some by (auto simp: outer_array_map_def)
    next
      case False
      then show ?thesis using Cons.IH [of "pre @ array_domain_dims a"] Cons.prems Some by auto
    qed
  qed
qed simp

lemma outer_labels:
  assumes "length sel = length ds"
  shows "subseq (filter (\<lambda>s. s \<noteq> []) (map label (outer_dims sel ds))) (map label ds)"
  using assms
proof (induction sel ds rule: list_induct2)
  case (Cons s sel d ds)
  have "filter (\<lambda>s. s \<noteq> []) (map label (array_domain_dims a)) = []" for a
    by (simp add: array_domain_dims_def filter_empty_conv)
  then show ?case using Cons.IH by (cases s) (auto intro: list_emb_Cons)
qed simp

lemma outer_intervals:
  assumes "length sel = length ds" "outer_selection sel" "d \<in> set (outer_dims sel ds)"
  shows "d \<in> set ds \<or> valid_interval (interval (optionally_implicit_interval d))"
  using assms
proof (induction sel ds rule: list_induct2)
  case (Cons s sel e ds)
  have "valid_interval (interval (optionally_implicit_interval d'))"
    if "d' \<in> set (array_domain_dims a)" "valid_index_array a" for d' a
    using that extent_interval(1) by (auto simp: array_domain_dims_def valid_index_array_def)
  then show ?case using Cons by (cases s) auto
qed simp

definition outer_transform :: "nat \<Rightarrow> index_array option list \<Rightarrow> transform_rep \<Rightarrow> transform_rep" where
  "outer_transform n sel t = \<lparr>input_dims = outer_dims sel (input_dims t), output_index_maps = outer_maps n 0 sel\<rparr>"

lemma outer_invariants:
  assumes sel: "length sel = input_rank t" "outer_selection sel" and inv: "DebugCheckInvariants t"
  shows "DebugCheckInvariants (replace_if_empty (outer_transform (outer_rank sel) sel t))"
proof (rule replace_if_empty_invariants)
  let ?s = "outer_transform (outer_rank sel) sel t"
  have l: "length sel = length (input_dims t)" using sel by (simp add: input_rank_def)
  have "subseq (filter (\<lambda>s. s \<noteq> []) (map label (outer_dims sel (input_dims t)))) (map label (input_dims t))"
    by (rule outer_labels [OF l])
  then have "labels_unique (filter (\<lambda>s. s \<noteq> []) (map label (outer_dims sel (input_dims t))))"
    using inv by (meson invariants_iff labels_unique_sublist)
  then show "labels_unique (map label (input_dims ?s))" by (simp add: labels_unique_def outer_transform_def)
  show "valid_interval (interval (optionally_implicit_interval d))" if "d \<in> set (input_dims ?s)" for d
    using outer_intervals [OF l sel(2), of d] that inv by (auto simp: outer_transform_def invariants_iff)
  show "IsDomainExplicitlyEmpty ?s \<and> is_array_map m \<or> map_invariant ?s m" if "m \<in> set (output_index_maps ?s)" for m
    using outer_maps_cases [OF l sel(2), of "outer_rank sel" "[]" m] that length_outer_dims [OF l]
      map_invariant_array [of m _ ?s]
    by (auto simp: outer_transform_def map_invariant_def constant_map_def identity_map_def input_rank_def is_array_map_def)
qed

lemma length_outer_maps [simp]: "length (outer_maps n i sel) = length sel"
  by (induction n i sel rule: outer_maps.induct) simp_all

lemma slices_to_outer:
  assumes sel: "length sel = input_rank t" "outer_selection sel" and inv: "DebugCheckInvariants t"
  shows "slices_to (replace_if_empty (outer_transform (outer_rank sel) sel t)) t (outer_inside sel) (outer_position sel)"
proof (rule slices_to_replaceI)
  let ?s = "outer_transform (outer_rank sel) sel t"
  have l: "length sel = length (input_dims t)" using sel by (simp add: input_rank_def)
  have dom: "in_domain u x \<longleftrightarrow> list_all2 contains_dim (input_dims u) x" for u x
    by (simp add: in_domain_list_all2 contains_dim_def [abs_def])
  have rk: "input_rank ?s = outer_rank sel" by (simp add: input_rank_def outer_transform_def length_outer_dims [OF l])
  show "output_rank ?s = input_rank t" using sel by (simp add: outer_transform_def output_rank_def)
  show "DebugCheckInvariants (replace_if_empty ?s)" by (rule outer_invariants [OF sel inv])
  show "in_domain ?s x" if "length x = input_rank ?s" "outer_inside sel x" "in_domain t (outer_position sel x)" for x
    using outer_dims_contains(2) [OF l sel(2), of x] that rk by (simp add: dom outer_transform_def)
  show "map_value (output_index_maps ?s ! k) x = outer_position sel x ! k \<and> map_in_range (output_index_maps ?s ! k) x"
    if "in_domain ?s x" "k < input_rank t" "IsFiniteIndex (outer_position sel x ! k)" for x k
  proof -
    have "length x = outer_rank sel" using that(1) rk by (simp add: in_domain_def)
    moreover have "outer_inside sel x"
      using outer_dims_contains(1) [OF l sel(2) calculation] that(1) by (simp add: dom outer_transform_def)
    ultimately show ?thesis
      using outer_maps_values [OF sel(2), of x "outer_rank sel" "[]" k] that sel by (simp add: outer_transform_def)
  qed
qed

section \<open>The loop over the output dimensions\<close>

definition outer_arrays :: "nat list \<Rightarrow> index_array list \<Rightarrow> nat list \<Rightarrow> index_array option list" where
  "outer_arrays dims as os = map (map_of (zip dims as)) os"

lemma map_of_zip_dim:
  assumes "distinct dims" "length as = length dims" "k < length dims"
  shows "map_of (zip dims as) (dims ! k) = Some (as ! k)"
  using assms by (simp add: map_of_zip_nth)

definition pending :: "nat list \<Rightarrow> nat \<Rightarrow> nat list \<Rightarrow> bool" where
  "pending dims od order \<longleftrightarrow>
     sorted_wrt (\<lambda>a b. dims ! a < dims ! b) order \<and> (\<forall>k. k \<in> set order \<longleftrightarrow> k < length dims \<and> od \<le> dims ! k)"

lemma pending_found:
  assumes "pending dims od order" "order \<noteq> []" "dims ! hd order = od"
  shows "hd order < length dims" "pending dims (Suc od) (tl order)"
proof -
  obtain k os where o: "order = k # os" using assms(2) by (cases order) auto
  have mem: "j = k \<or> j \<in> set os \<longleftrightarrow> j < length dims \<and> od \<le> dims ! j" for j
    using assms(1) o by (simp add: pending_def)
  have lt: "od < dims ! j" if "j \<in> set os" for j using assms o that by (auto simp: pending_def)
  have k: "dims ! k = od" using assms(3) o by simp
  show "hd order < length dims" using mem [of k] o by simp
  have "j \<in> set os \<longleftrightarrow> j < length dims \<and> Suc od \<le> dims ! j" for j
    using mem [of j] lt [of j] k by (auto simp: Suc_le_eq)
  then show "pending dims (Suc od) (tl order)" using assms(1) o by (simp add: pending_def)
qed

lemma pending_not_found:
  assumes "pending dims od order" "\<not> (order \<noteq> [] \<and> dims ! hd order = od)"
  shows "od \<notin> set dims" "pending dims (Suc od) order"
proof -
  have "dims ! k \<noteq> od" if k: "k < length dims" for k
  proof
    assume e: "dims ! k = od"
    then have m: "k \<in> set order" using assms(1) k by (simp add: pending_def)
    then obtain j os where o: "order = j # os" by (cases order) auto
    have "j \<in> set order \<longleftrightarrow> j < length dims \<and> od \<le> dims ! j" using assms(1) by (simp add: pending_def)
    then have "od \<le> dims ! j" using o by simp
    moreover have "k \<in> set os" using m assms(2) e o by auto
    then have "dims ! j < dims ! k" using assms(1) o by (simp add: pending_def)
    ultimately show False using e by simp
  qed
  then show "od \<notin> set dims" "pending dims (Suc od) order"
    using assms(1) by (auto simp: in_set_conv_nth pending_def Suc_le_eq le_less)
qed

definition start_of :: "nat list \<Rightarrow> index_array list \<Rightarrow> nat \<Rightarrow> nat \<Rightarrow> nat" where
  "start_of dims as od d = outer_rank (outer_arrays dims as [od..<d])"

lemma start_of_Suc:
  assumes "od < d"
  shows "start_of dims as od d = block_rank (map_of (zip dims as) od) + start_of dims as (Suc od) d"
  using assms by (simp add: start_of_def outer_arrays_def outer_rank_def upt_conv_Cons)

lemma outer_loop_eq:
  assumes "distinct dims" "length as = length dims" "pending dims od order" "length starts = length dims"
  shows "\<exists>starts'. outer_loop n dims as od order i starts ds =
    (starts', outer_dims (outer_arrays dims as [od..<od + length ds]) ds,
     outer_maps n i (outer_arrays dims as [od..<od + length ds])) \<and>
    length starts' = length dims \<and>
    (\<forall>k < length dims. dims ! k < od + length ds \<longrightarrow>
       starts' ! k = (if od \<le> dims ! k then i + start_of dims as od (dims ! k) else starts ! k))"
  using assms(3,4)
proof (induction ds arbitrary: od order i starts)
  case Nil
  then show ?case by (auto simp: outer_arrays_def)
next
  case (Cons d ds)
  have upt: "[od..<od + length (d # ds)] = od # [Suc od..<Suc od + length ds]"
    by (simp add: upt_conv_Cons del: upt_Suc)
  show ?case
  proof (cases "order \<noteq> [] \<and> dims ! hd order = od")
    case True
    let ?k = "hd order"
    have p: "?k < length dims" "pending dims (Suc od) (tl order)" using pending_found [OF Cons.prems(1)] True by simp_all
    have m: "map_of (zip dims as) od = Some (as ! ?k)" using map_of_zip_dim [OF assms(1,2) p(1)] True by simp
    have inj: "dims ! k = od \<longleftrightarrow> k = ?k" if "k < length dims" for k
      using assms(1) p(1) True that by (auto simp: nth_eq_iff_index_eq)
    obtain starts' where r: "outer_loop n dims as (Suc od) (tl order) (i + array_rank (as ! ?k)) (starts[?k := i]) ds =
        (starts', outer_dims (outer_arrays dims as [Suc od..<Suc od + length ds]) ds,
         outer_maps n (i + array_rank (as ! ?k)) (outer_arrays dims as [Suc od..<Suc od + length ds]))"
      and s: "length starts' = length dims" "\<forall>k < length dims. dims ! k < Suc od + length ds \<longrightarrow>
        starts' ! k = (if Suc od \<le> dims ! k then i + array_rank (as ! ?k) + start_of dims as (Suc od) (dims ! k)
                       else starts[?k := i] ! k)"
      using Cons.IH [OF p(2), of "starts[?k := i]"] Cons.prems(2) by auto
    have "starts' ! k = (if od \<le> dims ! k then i + start_of dims as od (dims ! k) else starts ! k)"
      if "k < length dims" "dims ! k < od + length (d # ds)" for k
      using s(2) that inj [OF that(1)] m Cons.prems(2) start_of_Suc [of od "dims ! k"]
      by (auto simp: block_rank_def start_of_def outer_arrays_def le_less nth_list_update Suc_le_eq)
    then show ?thesis unfolding upt using r s(1) True m by (auto simp: outer_arrays_def Let_def)
  next
    case False
    have p: "od \<notin> set dims" "pending dims (Suc od) order" using pending_not_found [OF Cons.prems(1) False] by simp_all
    have m: "map_of (zip dims as) od = None" using p(1) assms(2) by (simp add: map_of_zip_is_None)
    obtain starts' where r: "outer_loop n dims as (Suc od) order (Suc i) starts ds =
        (starts', outer_dims (outer_arrays dims as [Suc od..<Suc od + length ds]) ds,
         outer_maps n (Suc i) (outer_arrays dims as [Suc od..<Suc od + length ds]))"
      and s: "length starts' = length dims" "\<forall>k < length dims. dims ! k < Suc od + length ds \<longrightarrow>
        starts' ! k = (if Suc od \<le> dims ! k then Suc i + start_of dims as (Suc od) (dims ! k) else starts ! k)"
      using Cons.IH [OF p(2) Cons.prems(2)] by auto
    have "starts' ! k = (if od \<le> dims ! k then i + start_of dims as od (dims ! k) else starts ! k)"
      if "k < length dims" "dims ! k < od + length (d # ds)" for k
    proof -
      have "dims ! k \<noteq> od" using p(1) that(1) by auto
      then show ?thesis
        using s(2) that m start_of_Suc [of od "dims ! k"] by (auto simp: block_rank_def le_less Suc_le_eq)
    qed
    then show ?thesis unfolding upt using r s(1) False m by (auto simp: outer_arrays_def Let_def)
  qed
qed

lemma outer_rank_arrays:
  assumes "valid_selection n dims" "length as = length dims"
  shows "outer_rank (outer_arrays dims as [0..<n]) = n - length dims + sum_list (map array_rank as)"
proof -
  have d: "distinct dims" "set dims \<subseteq> {0..<n}" using assms(1) by (auto simp: valid_selection_def)
  let ?f = "\<lambda>d. block_rank (map_of (zip dims as) d)"
  have bij: "bij_betw (nth dims) {..<length dims} (set dims)" using d(1) by (rule bij_betw_nth) simp_all
  have "(\<Sum>d \<in> set dims. ?f d) = (\<Sum>k < length dims. ?f (dims ! k))"
    using sum.reindex_bij_betw [OF bij, of ?f] by simp
  also have "\<dots> = (\<Sum>k < length as. array_rank (as ! k))"
    using map_of_zip_dim [OF d(1) assms(2)] assms(2) by (intro sum.cong) (auto simp: block_rank_def)
  also have "\<dots> = sum_list (map array_rank as)" by (simp add: sum_list_sum_nth lessThan_atLeast0)
  finally have s: "(\<Sum>d \<in> set dims. ?f d) = sum_list (map array_rank as)" .
  have "(\<Sum>d \<in> {0..<n} - set dims. ?f d) = (\<Sum>d \<in> {0..<n} - set dims. 1)"
    by (intro sum.cong) (simp_all add: block_rank_def iffD2 [OF map_of_zip_is_None [OF assms(2) [symmetric]]])
  also have "\<dots> = n - length dims" using d by (simp add: card_Diff_subset distinct_card)
  finally have "(\<Sum>d \<in> {0..<n}. ?f d) = n - length dims + sum_list (map array_rank as)"
    using s sum.subset_diff [OF d(2), of ?f] by simp
  then show ?thesis by (simp add: outer_rank_def outer_arrays_def interv_sum_list_conv_sum_set_nat o_def)
qed

lemma start_of_add: "a \<le> b \<Longrightarrow> b \<le> c \<Longrightarrow> start_of dims as a c = start_of dims as a b + start_of dims as b c"
  using upt_add_eq_append [of a b "c - b"] by (simp add: start_of_def outer_arrays_def outer_rank_def)

lemma start_of_block:
  assumes "distinct dims" "length as = length dims" "k < length dims" "dims ! k < e"
  shows "start_of dims as 0 (dims ! k) + array_rank (as ! k) \<le> start_of dims as 0 e"
  using start_of_add [of 0 "dims ! k" e dims as] start_of_Suc [OF assms(4), of dims as] assms
    map_of_zip_dim [OF assms(1-3)] by (simp add: block_rank_def)

lemma sort_key_strict:
  assumes "distinct dims"
  shows "sorted_wrt (\<lambda>a b. dims ! a < dims ! b) (sort_key (\<lambda>i. dims ! i) [0..<length dims])"
proof -
  let ?order = "sort_key (\<lambda>i. dims ! i) [0..<length dims]"
  have "distinct (map (nth dims) ?order)"
    using assms by (auto simp: distinct_map inj_on_def nth_eq_iff_index_eq)
  then have "sorted_wrt (<) (map (nth dims) ?order)"
    using sorted_sort_key [of "nth dims" "[0..<length dims]"] by (simp add: strict_sorted_iff)
  then show ?thesis by (simp add: sorted_wrt_map)
qed

lemma distinct_concat_blocks:
  assumes "distinct ks" "\<And>k. k \<in> set ks \<Longrightarrow> distinct (f k)"
    and "\<And>k l. k \<in> set ks \<Longrightarrow> l \<in> set ks \<Longrightarrow> k \<noteq> l \<Longrightarrow> set (f k) \<inter> set (f l) = {}"
  shows "distinct (concat (map f ks))"
  using assms by (induction ks) fastforce+

lemma MakeTransformFromOuterIndexArrays_builds:
  assumes r: "MakeTransformFromOuterIndexArrays t dims as = Inr (s, dims')"
    and v: "valid_selection (input_rank t) dims" "DebugCheckInvariants t" "\<forall>a \<in> set as. valid_index_array a"
  defines "sel \<equiv> outer_arrays dims as [0..<input_rank t]"
  shows "slices_to s t (outer_inside sel) (outer_position sel)" "valid_selection (input_rank s) dims'"
proof -
  have la: "length as = length dims" and d: "distinct dims" "\<forall>k < length dims. dims ! k < input_rank t"
    using r v(1) by (auto simp: MakeTransformFromOuterIndexArrays_def valid_selection_def split: if_splits)
  let ?order = "sort_key (\<lambda>i. dims ! i) [0..<length dims]"
  have p: "pending dims 0 ?order" using sort_key_strict [OF d(1)] by (simp add: pending_def)
  let ?rk = "input_rank t - length dims + sum_list (map array_rank as)"
  obtain starts where o: "outer_loop ?rk dims as 0 ?order 0 (replicate (length dims) 0) (input_dims t) =
      (starts, outer_dims sel (input_dims t), outer_maps ?rk 0 sel)"
    and st: "\<forall>k < length dims. starts ! k = start_of dims as 0 (dims ! k)"
    using outer_loop_eq [OF d(1) la p, of "replicate (length dims) 0" ?rk 0 "input_dims t"] d(2)
    by (auto simp: sel_def input_rank_def)
  have rk: "?rk = outer_rank sel" unfolding sel_def by (rule outer_rank_arrays [OF v(1) la, symmetric])
  have s: "s = replace_if_empty (outer_transform (outer_rank sel) sel t)"
    and d': "dims' = concat (map (\<lambda>k. [starts ! k..<starts ! k + array_rank (as ! k)]) [0..<length dims])"
    using r o la by (auto simp: MakeTransformFromOuterIndexArrays_def Let_def bind_result_Inr_iff outer_transform_def rk)
  have sel: "length sel = input_rank t" "outer_selection sel"
    using v(3) by (auto simp: sel_def outer_arrays_def outer_selection_def dest!: map_of_SomeD [OF sym] set_zip_rightD)
  show "slices_to s t (outer_inside sel) (outer_position sel)" unfolding s by (rule slices_to_outer [OF sel v(2)])
  have rs: "input_rank s = outer_rank sel"
    using sel(1) by (simp add: s replace_if_empty_fields outer_transform_def input_rank_def length_outer_dims)
  have blk: "starts ! k + array_rank (as ! k) \<le> start_of dims as 0 e" if "k < length dims" "dims ! k < e" for k e
    using start_of_block [OF d(1) la that] st that(1) by simp
  have "set [starts ! k..<starts ! k + array_rank (as ! k)] \<inter> set [starts ! l..<starts ! l + array_rank (as ! l)] = {}"
    if "k < length dims" "l < length dims" "k \<noteq> l" for k l
  proof -
    have "dims ! k < dims ! l \<or> dims ! l < dims ! k" using d(1) that by (metis nat_neq_iff nth_eq_iff_index_eq)
    then show ?thesis using blk [of k "dims ! l"] blk [of l "dims ! k"] st that by auto
  qed
  then have "distinct dims'" unfolding d' by (intro distinct_concat_blocks) auto
  moreover have "j < outer_rank sel" if j: "j \<in> set dims'" for j
  proof -
    obtain k where k: "k < length dims" "j < starts ! k + array_rank (as ! k)" using j by (auto simp: d')
    then show ?thesis using blk [of k "input_rank t"] d(2) by (simp add: start_of_def sel_def)
  qed
  ultimately show "valid_selection (input_rank s) dims'" by (simp add: valid_selection_def rs)
qed

interpretation outer: slice_builder
  "\<lambda>(dims, as) t. MakeTransformFromOuterIndexArrays t dims as"
  "\<lambda>(dims, as) t. valid_selection (input_rank t) dims \<and> DebugCheckInvariants t \<and> (\<forall>a \<in> set as. valid_index_array a)"
  "\<lambda>(dims, as) t. outer_inside (outer_arrays dims as [0..<input_rank t])"
  "\<lambda>(dims, as) t. outer_position (outer_arrays dims as [0..<input_rank t])"
  by unfold_locales (auto dest: MakeTransformFromOuterIndexArrays_builds)

section \<open>Index array slices evaluate as documented\<close>

text \<open>C5: a transform sliced by index arrays evaluates to what the existing transform evaluates to at
  the documented position, for every position inside of the arrays that is mapped into the existing
  domain. For joint indexing (broadcast arrays, or one array of index vectors) the position is the one
  of a slice at the single indices that the arrays hold; for outer indexing every array replaces
  its own dimension in place. The dimensions selected afterwards are distinct dimensions of the result.
  The bounds of the existing transform are explicit or unbounded.\<close>

theorem index_array_slices_evaluate:
  assumes t: "DebugCheckInvariants t" "plain_dims t" and d: "valid_selection (input_rank t) dims"
    and as: "\<forall>a \<in> set as. valid_index_array a" and a: "valid_index_array a"
  shows "(\<forall>u dims' x. ApplyIndexArraySlice t dims as False False = Inr (u, dims') \<longrightarrow> length x = input_rank u \<longrightarrow>
        inside_shape (joint_shape as) x \<longrightarrow> in_domain t (index_array_position dims as t x) \<longrightarrow>
        TransformIndices u x = TransformIndices t (index_array_position dims as t x) \<and>
        valid_selection (input_rank u) dims') \<and>
     (\<forall>vdim u dims' x. ApplyIndexVectorArraySlice t dims vdim a False = Inr (u, dims') \<longrightarrow> length x = input_rank u \<longrightarrow>
        inside_shape (vector_shape (vector_dim vdim a) a) x \<longrightarrow>
        in_domain t (index_vector_position dims (vector_dim vdim a) a t x) \<longrightarrow>
        TransformIndices u x = TransformIndices t (index_vector_position dims (vector_dim vdim a) a t x) \<and>
        valid_selection (input_rank u) dims') \<and>
     (\<forall>u dims' x. ApplyIndexArraySlice t dims as True False = Inr (u, dims') \<longrightarrow> length x = input_rank u \<longrightarrow>
        outer_inside (outer_arrays dims as [0..<input_rank t]) x \<longrightarrow>
        in_domain t (outer_position (outer_arrays dims as [0..<input_rank t]) x) \<longrightarrow>
        TransformIndices u x = TransformIndices t (outer_position (outer_arrays dims as [0..<input_rank t]) x) \<and>
        valid_selection (input_rank u) dims')"
proof (intro conjI allI impI, goal_cases)
  case (1 u dims' x)
  then show ?case using joint.slice_evaluates(1) [of "(dims, as)" t u dims' x] assms by (simp add: ApplyIndexArraySlice_def)
next
  case (2 u dims' x)
  then show ?case using joint.slice_evaluates(2) [of "(dims, as)" t u dims' x] assms by (simp add: ApplyIndexArraySlice_def)
next
  case (3 vdim u dims' x)
  then show ?case
    using vector.slice_evaluates(1) [of "(dims, vdim, a)" t u dims' x] assms by (simp add: ApplyIndexVectorArraySlice_def)
next
  case (4 vdim u dims' x)
  then show ?case
    using vector.slice_evaluates(2) [of "(dims, vdim, a)" t u dims' x] assms by (simp add: ApplyIndexVectorArraySlice_def)
next
  case (5 u dims' x)
  then show ?case using outer.slice_evaluates(1) [of "(dims, as)" t u dims' x] assms by (simp add: ApplyIndexArraySlice_def)
next
  case (6 u dims' x)
  then show ?case using outer.slice_evaluates(2) [of "(dims, as)" t u dims' x] assms by (simp add: ApplyIndexArraySlice_def)
qed

definition slice_example :: transform_rep where
  "slice_example = MakeIdentityTransform_shape [10, 20, 30] False"

text \<open>The elements 3, 4, 5, 6, \<open>\<dots>\<close>, stored every 8 bytes.\<close>

definition example_index_array :: "int list \<Rightarrow> int list \<Rightarrow> index_array" where
  "example_index_array shape strides = \<lparr>array_pointer = (\<lambda>p. 3 + p div 8), array_shape = shape, array_strides = strides\<rparr>"

definition example_column :: index_array where "example_column = example_index_array [2, 1] [8, 8]"
definition example_row :: index_array where "example_row = example_index_array [1, 3] [24, 8]"
definition example_matrix :: index_array where "example_matrix = example_index_array [2, 2] [16, 8]"

lemma example_slices:
  "\<exists>u. ApplyIndexArraySlice slice_example [2, 0] [example_column, example_row] False False = Inr (u, [0, 1]) \<and> input_rank u = 3"
  "\<exists>u. ApplyIndexVectorArraySlice slice_example [2, 0] (- 1) example_matrix False = Inr (u, [0]) \<and> input_rank u = 2"
  "\<exists>u. ApplyIndexArraySlice slice_example [2, 0] [example_column, example_row] True False = Inr (u, [3, 4, 0, 1]) \<and> input_rank u = 5"
proof -
  have "case ApplyIndexArraySlice slice_example [2, 0] [example_column, example_row] False False of
      Inr (u, d) \<Rightarrow> d = [0, 1] \<and> input_rank u = 3 | Inl _ \<Rightarrow> False" by code_simp
  then show "\<exists>u. ApplyIndexArraySlice slice_example [2, 0] [example_column, example_row] False False = Inr (u, [0, 1]) \<and>
    input_rank u = 3" by (auto split: sum.splits)
  have "case ApplyIndexVectorArraySlice slice_example [2, 0] (- 1) example_matrix False of
      Inr (u, d) \<Rightarrow> d = [0] \<and> input_rank u = 2 | Inl _ \<Rightarrow> False" by code_simp
  then show "\<exists>u. ApplyIndexVectorArraySlice slice_example [2, 0] (- 1) example_matrix False = Inr (u, [0]) \<and> input_rank u = 2"
    by (auto split: sum.splits)
  have "case ApplyIndexArraySlice slice_example [2, 0] [example_column, example_row] True False of
      Inr (u, d) \<Rightarrow> d = [3, 4, 0, 1] \<and> input_rank u = 5 | Inl _ \<Rightarrow> False" by code_simp
  then show "\<exists>u. ApplyIndexArraySlice slice_example [2, 0] [example_column, example_row] True False = Inr (u, [3, 4, 0, 1]) \<and>
    input_rank u = 5" by (auto split: sum.splits)
qed

theorem index_array_slices_evaluate_witness:
  "(\<exists>u. ApplyIndexArraySlice slice_example [2, 0] [example_column, example_row] False False = Inr (u, [0, 1]) \<and>
        TransformIndices u [1, 2, 7] = TransformIndices slice_example [5, 7, 4]) \<and>
   (\<exists>u. ApplyIndexVectorArraySlice slice_example [2, 0] (- 1) example_matrix False = Inr (u, [0]) \<and>
        TransformIndices u [1, 7] = TransformIndices slice_example [6, 7, 5]) \<and>
   (\<exists>u. ApplyIndexArraySlice slice_example [2, 0] [example_column, example_row] True False = Inr (u, [3, 4, 0, 1]) \<and>
        TransformIndices u [0, 2, 7, 1, 0] = TransformIndices slice_example [5, 7, 4])"
proof (intro conjI)
  have t: "DebugCheckInvariants slice_example" "plain_dims slice_example" "valid_selection (input_rank slice_example) [2, 0]"
    "\<forall>a \<in> set [example_column, example_row]. valid_index_array a" "valid_index_array example_matrix"
    by code_simp+
  note ev = index_array_slices_evaluate [OF t]
  obtain u where u: "ApplyIndexArraySlice slice_example [2, 0] [example_column, example_row] False False = Inr (u, [0, 1])"
    "input_rank u = 3" using example_slices(1) by blast
  have "index_array_position [2, 0] [example_column, example_row] slice_example [1, 2, 7] = [5, 7, 4]"
    "inside_shape (joint_shape [example_column, example_row]) [1, 2, 7]" "in_domain slice_example [5, 7, 4]" by code_simp+
  with u conjunct1 [OF ev, rule_format, OF u(1), of "[1, 2, 7]"]
  show "\<exists>u. ApplyIndexArraySlice slice_example [2, 0] [example_column, example_row] False False = Inr (u, [0, 1]) \<and>
        TransformIndices u [1, 2, 7] = TransformIndices slice_example [5, 7, 4]" by auto
  obtain v where v: "ApplyIndexVectorArraySlice slice_example [2, 0] (- 1) example_matrix False = Inr (v, [0])"
    "input_rank v = 2" using example_slices(2) by blast
  have "index_vector_position [2, 0] (vector_dim (- 1) example_matrix) example_matrix slice_example [1, 7] = [6, 7, 5]"
    "inside_shape (vector_shape (vector_dim (- 1) example_matrix) example_matrix) [1, 7]" "in_domain slice_example [6, 7, 5]"
    by code_simp+
  with v conjunct1 [OF conjunct2 [OF ev], rule_format, OF v(1), of "[1, 7]"]
  show "\<exists>u. ApplyIndexVectorArraySlice slice_example [2, 0] (- 1) example_matrix False = Inr (u, [0]) \<and>
        TransformIndices u [1, 7] = TransformIndices slice_example [6, 7, 5]" by auto
  obtain w where w: "ApplyIndexArraySlice slice_example [2, 0] [example_column, example_row] True False = Inr (w, [3, 4, 0, 1])"
    "input_rank w = 5" using example_slices(3) by blast
  have "outer_position (outer_arrays [2, 0] [example_column, example_row] [0..<input_rank slice_example]) [0, 2, 7, 1, 0] = [5, 7, 4]"
    "outer_inside (outer_arrays [2, 0] [example_column, example_row] [0..<input_rank slice_example]) [0, 2, 7, 1, 0]"
    "in_domain slice_example [5, 7, 4]" by code_simp+
  with w conjunct2 [OF conjunct2 [OF ev], rule_format, OF w(1), of "[0, 2, 7, 1, 0]"]
  show "\<exists>u. ApplyIndexArraySlice slice_example [2, 0] [example_column, example_row] True False = Inr (u, [3, 4, 0, 1]) \<and>
        TransformIndices u [0, 2, 7, 1, 0] = TransformIndices slice_example [5, 7, 4]" by auto
qed

end
