(* ===== verification/Intrusive_List.thy ===== *)
theory Intrusive_List
  imports Prelude
begin

text \<open>
  \<^verbatim>\<open>internal/container/intrusive_linked_list.h\<close>: a circular doubly-linked list threaded through the
  nodes themselves, on an explicit store of the two pointer fields. The list of nodes that a head
  node anchors is a relation between stores and lists; the operations are shown to be those of a
  first-in first-out queue, whose contract is a locale.
\<close>

section \<open>The contract of a queue\<close>

text \<open>\<open>represents s xs\<close>: the state \<open>s\<close> holds the elements \<open>xs\<close>, oldest first. \<open>can_insert\<close> is what an
  insertion needs.\<close>

locale fifo_queue =
  fixes represents :: "'s \<Rightarrow> 'a list \<Rightarrow> bool"
    and is_empty :: "'s \<Rightarrow> bool"
    and front :: "'s \<Rightarrow> 'a"
    and insert_back :: "'a \<Rightarrow> 's \<Rightarrow> 's"
    and remove_front :: "'s \<Rightarrow> 's"
    and can_insert :: "'a \<Rightarrow> 's \<Rightarrow> 'a list \<Rightarrow> bool"
  assumes empty_law: "represents s xs \<Longrightarrow> is_empty s \<longleftrightarrow> xs = []"
    and front_law: "represents s (x # xs) \<Longrightarrow> front s = x"
    and insert_law: "\<lbrakk>represents s xs; can_insert x s xs\<rbrakk> \<Longrightarrow> represents (insert_back x s) (xs @ [x])"
    and remove_law: "represents s (x # xs) \<Longrightarrow> represents (remove_front s) xs"
begin

text \<open>Draining a queue returns its elements in order of insertion, and empties it.\<close>

fun drain :: "nat \<Rightarrow> 's \<Rightarrow> 'a list \<times> 's" where
  "drain 0 s = ([], s)"
| "drain (Suc n) s = (let (ys, s') = drain n (remove_front s) in (front s # ys, s'))"

lemma drain_order:
  "represents s xs \<Longrightarrow> n \<le> length xs \<Longrightarrow> fst (drain n s) = take n xs \<and> represents (snd (drain n s)) (drop n xs)"
proof (induction n arbitrary: s xs)
  case (Suc n)
  then obtain x ys where xs: "xs = x # ys" by (cases xs) auto
  then show ?case
    using Suc.IH [OF remove_law] Suc.prems front_law by (auto simp: split_beta)
qed simp

lemma drain_all:
  "represents s xs \<Longrightarrow> fst (drain (length xs) s) = xs \<and> is_empty (snd (drain (length xs) s))"
  using drain_order [of s xs "length xs"] empty_law by auto

lemma represents_unique: "represents s xs \<Longrightarrow> represents s ys \<Longrightarrow> xs = ys"
proof (induction xs arbitrary: s ys)
  case Nil
  then show ?case using empty_law by blast
next
  case (Cons x xs)
  then obtain y zs where "ys = y # zs" using empty_law by (metis list.exhaust list.distinct(1))
  then show ?case using Cons front_law remove_law by metis
qed

end

section \<open>intrusive\_linked\_list.h\<close>

text \<open>Nodes are addresses; \<^verbatim>\<open>nullptr\<close> is \<open>0\<close>.\<close>

type_synonym addr = "64 word"

record node_store =
  prev_ptr :: "addr \<Rightarrow> addr"
  next_ptr :: "addr \<Rightarrow> addr"

definition SetPrev :: "addr \<Rightarrow> addr \<Rightarrow> node_store \<Rightarrow> node_store" where
  "SetPrev node prev s = s\<lparr>prev_ptr := (prev_ptr s)(node := prev)\<rparr>"

definition SetNext :: "addr \<Rightarrow> addr \<Rightarrow> node_store \<Rightarrow> node_store" where
  "SetNext node nxt s = s\<lparr>next_ptr := (next_ptr s)(node := nxt)\<rparr>"

definition Initialize :: "addr \<Rightarrow> node_store \<Rightarrow> node_store" where
  "Initialize node s = SetNext node node (SetPrev node node s)"

definition InsertBefore :: "addr \<Rightarrow> addr \<Rightarrow> node_store \<Rightarrow> node_store" where
  "InsertBefore existing_node new_node s =
     (let s = SetPrev new_node (prev_ptr s existing_node) s;
          s = SetNext new_node existing_node s;
          s = SetNext (prev_ptr s existing_node) new_node s
      in SetPrev existing_node new_node s)"

definition Remove :: "addr \<Rightarrow> node_store \<Rightarrow> node_store" where
  "Remove node s =
     (let s = SetPrev (next_ptr s node) (prev_ptr s node) s
      in SetNext (prev_ptr s node) (next_ptr s node) s)"

definition OnlyContainsNode :: "addr \<Rightarrow> node_store \<Rightarrow> bool" where
  "OnlyContainsNode node s \<longleftrightarrow> next_ptr s node = node"

section \<open>Lists in the store\<close>

text \<open>\<open>segment s a xs b\<close>: following \<^verbatim>\<open>next_\<close> from \<open>a\<close> visits \<open>xs\<close> and then \<open>b\<close>, and \<^verbatim>\<open>prev_\<close> leads
  back.\<close>

fun segment :: "node_store \<Rightarrow> addr \<Rightarrow> addr list \<Rightarrow> addr \<Rightarrow> bool" where
  "segment s a [] b \<longleftrightarrow> next_ptr s a = b \<and> prev_ptr s b = a"
| "segment s a (x # xs) b \<longleftrightarrow> next_ptr s a = x \<and> prev_ptr s x = a \<and> segment s x xs b"

definition anchors :: "node_store \<Rightarrow> addr \<Rightarrow> addr list \<Rightarrow> bool" where
  "anchors s head xs \<longleftrightarrow> segment s head xs head \<and> distinct (head # xs)"

lemma segment_append: "segment s a (xs @ y # ys) b \<longleftrightarrow> segment s a xs y \<and> segment s y ys b"
  by (induction xs arbitrary: a) auto

lemma segment_last: "segment s a xs b \<Longrightarrow> prev_ptr s b = last (a # xs) \<and> next_ptr s (last (a # xs)) = b"
  by (induction xs arbitrary: a) auto

text \<open>A segment survives changes elsewhere.\<close>

lemma segment_cong:
  assumes "segment s a xs b" "\<And>x. x \<in> set (a # xs) \<Longrightarrow> next_ptr s' x = next_ptr s x"
    and "\<And>x. x \<in> set (xs @ [b]) \<Longrightarrow> prev_ptr s' x = prev_ptr s x"
  shows "segment s' a xs b"
  using assms by (induction xs arbitrary: a) auto

text \<open>Redirecting the last link of a segment.\<close>

lemma segment_redirect:
  assumes "segment s a xs b" "distinct (a # xs)" "c \<notin> set xs"
    and "next_ptr s' (last (a # xs)) = c" "prev_ptr s' c = last (a # xs)"
    and "\<And>x. x \<in> set (a # xs) \<Longrightarrow> x \<noteq> last (a # xs) \<Longrightarrow> next_ptr s' x = next_ptr s x"
    and "\<And>x. x \<in> set xs \<Longrightarrow> prev_ptr s' x = prev_ptr s x"
  shows "segment s' a xs c"
  using assms
proof (induction xs arbitrary: a)
  case (Cons x xs)
  have "a \<noteq> last (x # xs)" using Cons.prems(2) last_in_set [of "x # xs"] by (metis distinct.simps(2) list.distinct(1))
  then show ?case using Cons by simp
qed simp

lemma anchors_Initialize: "anchors (Initialize head s) head []"
  by (simp add: anchors_def Initialize_def SetNext_def SetPrev_def)

lemma anchors_empty: "anchors s head xs \<Longrightarrow> OnlyContainsNode head s \<longleftrightarrow> xs = []"
  by (cases xs) (auto simp: anchors_def OnlyContainsNode_def)

lemma anchors_front: "anchors s head (x # xs) \<Longrightarrow> next_ptr s head = x"
  by (simp add: anchors_def)

lemma anchors_InsertBefore:
  assumes "anchors s head xs" "n \<notin> set (head # xs)"
  shows "anchors (InsertBefore head n s) head (xs @ [n])"
proof -
  let ?l = "last (head # xs)"
  have l: "prev_ptr s head = ?l" using assms(1) segment_last [of s head xs head] by (simp add: anchors_def)
  have ln: "?l \<in> set (head # xs)" by (rule last_in_set) simp
  then have ne: "?l \<noteq> n" "head \<noteq> n" using assms(2) by auto
  have lh: "xs \<noteq> [] \<Longrightarrow> ?l \<noteq> head" using assms(1) last_in_set [of xs] by (auto simp: anchors_def)
  have s': "next_ptr (InsertBefore head n s) = ((next_ptr s)(n := head))(?l := n)"
    "prev_ptr (InsertBefore head n s) = ((prev_ptr s)(n := ?l))(head := n)"
    using ne l by (simp_all add: InsertBefore_def Let_def SetNext_def SetPrev_def)
  have "segment (InsertBefore head n s) head xs n"
    by (rule segment_redirect) (use assms ne in \<open>auto simp: anchors_def s'\<close>)
  then show ?thesis
    using assms ne by (simp add: anchors_def segment_append s')
qed

lemma anchors_Remove:
  assumes "anchors s head (xs @ n # ys)"
  shows "anchors (Remove n s) head (xs @ ys)"
proof -
  have seg: "segment s head xs n" "segment s n ys head" and d: "distinct (head # xs @ n # ys)"
    using assms by (auto simp: anchors_def segment_append)
  let ?p = "last (head # xs)" and ?q = "next_ptr s n"
  have p: "prev_ptr s n = ?p" "next_ptr s ?p = n" using segment_last [OF seg(1)] by simp_all
  have q: "?q = hd (ys @ [head])" using seg(2) by (cases ys) auto
  have qn: "?q \<noteq> n" using d q by (cases ys) auto
  have pm: "?p \<in> set (head # xs)" by (rule last_in_set) simp
  then have pn: "?p \<noteq> n" "?p \<notin> set ys" using d by auto
  have s': "next_ptr (Remove n s) = (next_ptr s)(?p := ?q)" "prev_ptr (Remove n s) = (prev_ptr s)(?q := ?p)"
    using qn p by (simp_all add: Remove_def Let_def SetNext_def SetPrev_def)
  have "segment (Remove n s) head (xs @ ys) head"
  proof (cases ys)
    case Nil
    then have h: "?q = head" using q by simp
    have "segment (Remove n s) head xs head"
      by (rule segment_redirect [OF seg(1)]) (use d pm h in \<open>auto simp: s'\<close>)
    then show ?thesis using Nil by simp
  next
    case (Cons y zs)
    then have y: "?q = y" using q by simp
    have "segment (Remove n s) head xs y"
      by (rule segment_redirect [OF seg(1)]) (use d Cons y in \<open>auto simp: s'\<close>)
    moreover have "segment (Remove n s) y zs head"
      by (rule segment_cong [of s]) (use seg(2) d Cons y pm in \<open>auto simp: s'\<close>)
    ultimately show ?thesis by (simp add: Cons segment_append)
  qed
  then show ?thesis using d by (simp add: anchors_def)
qed

text \<open>The pointer fields of nodes that are not in the list do not matter.\<close>

lemma anchors_frame:
  assumes "anchors s head xs" "n \<notin> set (head # xs)"
  shows "anchors (SetPrev n b (SetNext n a s)) head xs"
proof -
  have "segment (SetPrev n b (SetNext n a s)) head xs head"
    by (rule segment_cong [of s]) (use assms in \<open>auto simp: anchors_def SetNext_def SetPrev_def\<close>)
  then show ?thesis using assms(1) by (simp add: anchors_def)
qed

text \<open>The operations change the fields of the nodes of the list only.\<close>

lemma InsertBefore_frame:
  assumes "anchors s head xs" "m \<notin> set (head # xs)" "m \<noteq> n"
  shows "next_ptr (InsertBefore head n s) m = next_ptr s m" "prev_ptr (InsertBefore head n s) m = prev_ptr s m"
proof -
  have "prev_ptr s head = last (head # xs)"
    using assms(1) segment_last [of s head xs head] by (simp add: anchors_def)
  then have "m \<noteq> prev_ptr s head" using assms(2) last_in_set [of "head # xs"] by (metis list.distinct(1))
  then show "next_ptr (InsertBefore head n s) m = next_ptr s m" "prev_ptr (InsertBefore head n s) m = prev_ptr s m"
    using assms(2,3) by (simp_all add: InsertBefore_def Let_def SetNext_def SetPrev_def)
qed

lemma Remove_front_frame:
  assumes "anchors s head (x # xs)" "m \<notin> set (head # x # xs)"
  shows "next_ptr (Remove x s) m = next_ptr s m" "prev_ptr (Remove x s) m = prev_ptr s m"
  using assms by (cases xs; auto simp: anchors_def Remove_def Let_def SetNext_def SetPrev_def)+

interpretation intrusive: fifo_queue
  "\<lambda>(head, s) xs. anchors s head xs"
  "\<lambda>(head, s). OnlyContainsNode head s"
  "\<lambda>(head, s). next_ptr s head"
  "\<lambda>n (head, s). (head, InsertBefore head n s)"
  "\<lambda>(head, s). (head, Remove (next_ptr s head) s)"
  "\<lambda>n (head, s) xs. n \<notin> set (head # xs)"
  by unfold_locales
     (auto simp: anchors_empty anchors_front anchors_InsertBefore intro: anchors_Remove [where xs = "[]", simplified])

end
