(* ===== verification/Admission_Queue.thy ===== *)
theory Admission_Queue
  imports Intrusive_List "HOL-Library.Multiset"
begin

text \<open>
  \<^verbatim>\<open>internal/rate_limiter/admission_queue.cc\<close> and \<^verbatim>\<open>rate_limiter.cc\<close>: at most \<^verbatim>\<open>limit\<close> operations
  run at a time, the others wait in an intrusive list. The sections that hold the mutex are
  functions on the state; the interleavings of the threads that call \<^verbatim>\<open>Admit\<close> and \<^verbatim>\<open>Finish\<close>,
  which release the mutex while a start function runs, are a step relation.
\<close>

section \<open>admission\_queue.cc and rate\_limiter.cc\<close>

text \<open>The fields \<^verbatim>\<open>next_\<close> and \<^verbatim>\<open>prev_\<close> of the nodes are the node store, \<^verbatim>\<open>start_fn_\<close> (a function
  pointer) is a map of its own.\<close>

record admission_queue =
  limit :: "64 word"
  in_flight :: "64 word"
  head :: addr
  nodes :: node_store
  start_fn :: "addr \<Rightarrow> addr"

definition AdmissionQueue :: "addr \<Rightarrow> node_store \<Rightarrow> (addr \<Rightarrow> addr) \<Rightarrow> 64 word \<Rightarrow> admission_queue" where
  "AdmissionQueue h s fns lim =
     \<lparr>limit = (if lim = 0 then - 1 else lim), in_flight = 0, head = h, nodes = Initialize h s, start_fn = fns\<rparr>"

text \<open>The assertions at the start of \<^verbatim>\<open>Admit\<close> and \<^verbatim>\<open>Finish\<close>.\<close>

definition Admit_asserts :: "addr \<Rightarrow> admission_queue \<Rightarrow> bool" where
  "Admit_asserts node q \<longleftrightarrow> next_ptr (nodes q) node = 0 \<and> prev_ptr (nodes q) node = 0 \<and> start_fn q node = 0"

definition Finish_asserts :: "addr \<Rightarrow> admission_queue \<Rightarrow> bool" where
  "Finish_asserts node q \<longleftrightarrow> next_ptr (nodes q) node = 0"

text \<open>\<^verbatim>\<open>Admit\<close> up to the call of \<^verbatim>\<open>RunStartFunction\<close>; the result tells whether that call follows.\<close>

definition Admit :: "addr \<Rightarrow> addr \<Rightarrow> admission_queue \<Rightarrow> admission_queue \<times> bool" where
  "Admit node fn q =
     (let q = q\<lparr>start_fn := (start_fn q)(node := fn)\<rparr>
      in if in_flight q + 1 > limit q
         then (q\<lparr>nodes := InsertBefore (head q) node (nodes q)\<rparr>, False)
         else (q\<lparr>in_flight := in_flight q + 1\<rparr>, True))"

text \<open>One iteration of the loop in \<^verbatim>\<open>Finish\<close>, up to the release of the mutex: the node to start, or
  \<open>None\<close> when the loop returns.\<close>

definition finish_iteration :: "admission_queue \<Rightarrow> admission_queue \<times> addr option" where
  "finish_iteration q =
     (let next_node = next_ptr (nodes q) (head q)
      in if next_node = head q then (q, None)
         else if in_flight q + 1 > limit q then (q, None)
         else (q\<lparr>in_flight := in_flight q + 1, nodes := Remove next_node (nodes q)\<rparr>, Some next_node))"

definition Finish :: "admission_queue \<Rightarrow> admission_queue \<times> addr option" where
  "Finish q = finish_iteration (q\<lparr>in_flight := in_flight q - 1\<rparr>)"

text \<open>\<^verbatim>\<open>RateLimiter::RunStartFunction\<close> clears the fields of the node, without the mutex, and returns
  the start function that it calls; the assertion is that there is one.\<close>

definition RunStartFunction :: "addr \<Rightarrow> admission_queue \<Rightarrow> admission_queue \<times> addr" where
  "RunStartFunction node q =
     (q\<lparr>nodes := SetPrev node 0 (SetNext node 0 (nodes q)), start_fn := (start_fn q)(node := 0)\<rparr>, start_fn q node)"

section \<open>Interleavings\<close>

text \<open>What the threads that released the mutex are about to do: run the start function of a node at
  the end of \<^verbatim>\<open>Admit\<close>, run it inside the loop of \<^verbatim>\<open>Finish\<close>, or lock the mutex for the next
  iteration of that loop. \<open>admitted\<close> and \<open>started\<close> record the order of the calls of \<^verbatim>\<open>Admit\<close> and of
  the decisions to start; \<open>running\<close> are the nodes whose start function was called and for which
  \<^verbatim>\<open>Finish\<close> was not.\<close>

datatype activity = Start_in_Admit addr | Start_in_Finish addr | Iterate

record limiter_state =
  queue :: admission_queue
  activities :: "activity multiset"
  running :: "addr set"
  admitted :: "addr list"
  started :: "addr list"

fun starting_nodes :: "activity \<Rightarrow> addr multiset" where
  "starting_nodes (Start_in_Admit n) = {#n#}"
| "starting_nodes (Start_in_Finish n) = {#n#}"
| "starting_nodes Iterate = {#}"

definition starting :: "activity multiset \<Rightarrow> addr multiset" where
  "starting A = sum_mset (image_mset starting_nodes A)"

definition waiting :: "limiter_state \<Rightarrow> addr list" where
  "waiting \<sigma> = drop (length (started \<sigma>)) (admitted \<sigma>)"

definition in_flight_nodes :: "limiter_state \<Rightarrow> addr multiset" where
  "in_flight_nodes \<sigma> = mset_set (running \<sigma>) + starting (activities \<sigma>)"

text \<open>A client admits a node that is neither waiting nor in flight, and finishes a running one.\<close>

definition idle :: "limiter_state \<Rightarrow> addr \<Rightarrow> bool" where
  "idle \<sigma> n \<longleftrightarrow> n \<noteq> 0 \<and> n \<noteq> head (queue \<sigma>) \<and> n \<notin> set (waiting \<sigma>) \<and> n \<notin># in_flight_nodes \<sigma>"

definition resume_Finish :: "addr option \<Rightarrow> limiter_state \<Rightarrow> limiter_state" where
  "resume_Finish r \<sigma> =
     (case r of
        None \<Rightarrow> \<sigma>
      | Some n \<Rightarrow> \<sigma>\<lparr>activities := add_mset (Start_in_Finish n) (activities \<sigma>), started := started \<sigma> @ [n]\<rparr>)"

inductive limiter_step :: "limiter_state \<Rightarrow> limiter_state \<Rightarrow> bool" where
  admit_now: "\<lbrakk>idle \<sigma> n; fn \<noteq> 0; Admit n fn (queue \<sigma>) = (q, True)\<rbrakk> \<Longrightarrow>
     limiter_step \<sigma> (\<sigma>\<lparr>queue := q, activities := add_mset (Start_in_Admit n) (activities \<sigma>),
                        admitted := admitted \<sigma> @ [n], started := started \<sigma> @ [n]\<rparr>)"
| admit_later: "\<lbrakk>idle \<sigma> n; fn \<noteq> 0; Admit n fn (queue \<sigma>) = (q, False)\<rbrakk> \<Longrightarrow>
     limiter_step \<sigma> (\<sigma>\<lparr>queue := q, admitted := admitted \<sigma> @ [n]\<rparr>)"
| start_admitted: "\<lbrakk>activities \<sigma> = add_mset (Start_in_Admit n) A; RunStartFunction n (queue \<sigma>) = (q, fn)\<rbrakk> \<Longrightarrow>
     limiter_step \<sigma> (\<sigma>\<lparr>queue := q, activities := A, running := insert n (running \<sigma>)\<rparr>)"
| start_finished: "\<lbrakk>activities \<sigma> = add_mset (Start_in_Finish n) A; RunStartFunction n (queue \<sigma>) = (q, fn)\<rbrakk> \<Longrightarrow>
     limiter_step \<sigma> (\<sigma>\<lparr>queue := q, activities := add_mset Iterate A, running := insert n (running \<sigma>)\<rparr>)"
| finish: "\<lbrakk>n \<in> running \<sigma>; Finish (queue \<sigma>) = (q, r)\<rbrakk> \<Longrightarrow>
     limiter_step \<sigma> (resume_Finish r (\<sigma>\<lparr>queue := q, running := running \<sigma> - {n}\<rparr>))"
| iterate: "\<lbrakk>activities \<sigma> = add_mset Iterate A; finish_iteration (queue \<sigma>) = (q, r)\<rbrakk> \<Longrightarrow>
     limiter_step \<sigma> (resume_Finish r (\<sigma>\<lparr>queue := q, activities := A\<rparr>))"

text \<open>The queue starts with nodes whose fields are null.\<close>

definition initial_limiter :: "addr \<Rightarrow> 64 word \<Rightarrow> limiter_state" where
  "initial_limiter h lim =
     \<lparr>queue = AdmissionQueue h \<lparr>prev_ptr = (\<lambda>_. 0), next_ptr = (\<lambda>_. 0)\<rparr> (\<lambda>_. 0) lim,
      activities = {#}, running = {}, admitted = [], started = []\<rparr>"

inductive limiter_reachable :: "addr \<Rightarrow> 64 word \<Rightarrow> limiter_state \<Rightarrow> bool" for h lim where
  reach_initial: "limiter_reachable h lim (initial_limiter h lim)"
| reach_step: "\<lbrakk>limiter_reachable h lim \<sigma>; limiter_step \<sigma> \<tau>\<rbrakk> \<Longrightarrow> limiter_reachable h lim \<tau>"

section \<open>The invariant\<close>

definition limiter_invariant :: "addr list \<Rightarrow> limiter_state \<Rightarrow> bool" where
  "limiter_invariant ws \<sigma> \<longleftrightarrow>
     (let q = queue \<sigma>; h = head q; M = in_flight_nodes \<sigma> in
       h \<noteq> 0 \<and> limit q \<noteq> 0 \<and>
       admitted \<sigma> = started \<sigma> @ ws \<and> anchors (nodes q) h ws \<and> 0 \<notin> set ws \<and>
       (ws \<noteq> [] \<longrightarrow> in_flight q = limit q) \<and> in_flight q \<le> limit q \<and>
       unat (in_flight q) = size M \<and> (\<forall>n. count M n \<le> 1) \<and> set_mset M \<inter> ({0, h} \<union> set ws) = {} \<and>
       (\<forall>n. n \<noteq> h \<longrightarrow> n \<notin> set ws \<longrightarrow> n \<notin># starting (activities \<sigma>) \<longrightarrow> Admit_asserts n q) \<and>
       (\<forall>n. n \<in> set ws \<or> n \<in># starting (activities \<sigma>) \<longrightarrow> start_fn q n \<noteq> 0))"

lemma starting_simps [simp]:
  "starting {#} = {#}"
  "starting (add_mset (Start_in_Admit n) A) = add_mset n (starting A)"
  "starting (add_mset (Start_in_Finish n) A) = add_mset n (starting A)"
  "starting (add_mset Iterate A) = starting A"
  by (simp_all add: starting_def)

lemma waiting_eq: "limiter_invariant ws \<sigma> \<Longrightarrow> waiting \<sigma> = ws"
  by (simp add: limiter_invariant_def Let_def waiting_def)

lemma size_distinct_mset: "(\<And>n. count M n \<le> 1) \<Longrightarrow> size M = card (set_mset M)"
proof (induction M)
  case (add x M)
  have "count M n \<le> 1" for n using add.prems [of n] by (simp split: if_splits)
  moreover have "x \<notin># M" using add.prems [of x] by (simp add: not_in_iff)
  ultimately show ?case using add.IH by simp
qed simp

text \<open>The nodes in flight are distinct addresses other than the null address and the head, so their
  number stays below the largest word: the increment in the admission test does not wrap.\<close>

lemma in_flight_no_wrap:
  assumes "limiter_invariant ws \<sigma>"
  shows "unat (in_flight (queue \<sigma>)) + 1 < 2 ^ 64"
proof -
  let ?M = "in_flight_nodes \<sigma>"
  have inv: "unat (in_flight (queue \<sigma>)) = size ?M" "\<And>n. count ?M n \<le> 1"
    "set_mset ?M \<subseteq> UNIV - {0, head (queue \<sigma>)}" "head (queue \<sigma>) \<noteq> 0"
    using assms by (auto simp: limiter_invariant_def Let_def)
  have "size ?M = card (set_mset ?M)" using inv(2) by (rule size_distinct_mset)
  also have "\<dots> \<le> card (UNIV - {0, head (queue \<sigma>)})" using inv(3) by (intro card_mono) auto
  also have "\<dots> = 2 ^ 64 - 2" using inv(4) by (subst card_Diff_subset) (auto simp: card_word)
  finally show ?thesis using inv(1) by simp
qed

lemma admission_test:
  assumes "limiter_invariant ws \<sigma>"
  shows "in_flight (queue \<sigma>) + 1 > limit (queue \<sigma>) \<longleftrightarrow> in_flight (queue \<sigma>) = limit (queue \<sigma>)"
    and "unat (in_flight (queue \<sigma>) + 1) = Suc (unat (in_flight (queue \<sigma>)))"
proof -
  show u: "unat (in_flight (queue \<sigma>) + 1) = Suc (unat (in_flight (queue \<sigma>)))"
    using in_flight_no_wrap [OF assms] by (simp add: unat_word_ariths(1))
  show "in_flight (queue \<sigma>) + 1 > limit (queue \<sigma>) \<longleftrightarrow> in_flight (queue \<sigma>) = limit (queue \<sigma>)"
    using assms u by (auto simp: limiter_invariant_def Let_def word_less_nat_alt word_le_nat_alt word_unat_eq_iff)
qed

section \<open>Every step keeps the invariant\<close>

lemma idle_iff:
  "limiter_invariant ws \<sigma> \<Longrightarrow>
   idle \<sigma> n \<longleftrightarrow> n \<noteq> 0 \<and> n \<noteq> head (queue \<sigma>) \<and> n \<notin> set ws \<and> n \<notin># in_flight_nodes \<sigma>"
  by (simp add: idle_def waiting_eq)

lemma invariant_initial: "h \<noteq> 0 \<Longrightarrow> limiter_invariant [] (initial_limiter h lim)"
  by (auto simp: limiter_invariant_def Let_def initial_limiter_def AdmissionQueue_def anchors_def
      in_flight_nodes_def Admit_asserts_def Initialize_def SetNext_def SetPrev_def)

lemma invariant_admit_now:
  assumes inv: "limiter_invariant ws \<sigma>" and n: "idle \<sigma> n" "fn \<noteq> 0" and "Admit n fn (queue \<sigma>) = (q, True)"
  shows "limiter_invariant ws (\<sigma>\<lparr>queue := q, activities := add_mset (Start_in_Admit n) (activities \<sigma>),
                                 admitted := admitted \<sigma> @ [n], started := started \<sigma> @ [n]\<rparr>)"
proof -
  have lt: "in_flight (queue \<sigma>) \<noteq> limit (queue \<sigma>)"
    and q: "q = (queue \<sigma>)\<lparr>start_fn := (start_fn (queue \<sigma>))(n := fn), in_flight := in_flight (queue \<sigma>) + 1\<rparr>"
    using assms(4) admission_test(1) [OF inv] by (auto simp: Admit_def Let_def split: if_splits)
  then have ws: "ws = []" using inv by (auto simp: limiter_invariant_def Let_def)
  show ?thesis
    using inv n lt idle_iff [OF inv] admission_test [OF inv]
    unfolding limiter_invariant_def Let_def ws q
    by (auto simp: in_flight_nodes_def Admit_asserts_def not_in_iff not_less)
qed

lemma invariant_admit_later:
  assumes inv: "limiter_invariant ws \<sigma>" and n: "idle \<sigma> n" "fn \<noteq> 0" and "Admit n fn (queue \<sigma>) = (q, False)"
  shows "limiter_invariant (ws @ [n]) (\<sigma>\<lparr>queue := q, admitted := admitted \<sigma> @ [n]\<rparr>)"
proof -
  have lt: "in_flight (queue \<sigma>) = limit (queue \<sigma>)"
    and q: "q = (queue \<sigma>)\<lparr>start_fn := (start_fn (queue \<sigma>))(n := fn),
                           nodes := InsertBefore (head (queue \<sigma>)) n (nodes (queue \<sigma>))\<rparr>"
    using assms(4) admission_test(1) [OF inv] by (auto simp: Admit_def Let_def split: if_splits)
  have "n \<notin> set (head (queue \<sigma>) # ws)" using n idle_iff [OF inv] by simp
  moreover have "anchors (nodes (queue \<sigma>)) (head (queue \<sigma>)) ws" using inv by (simp add: limiter_invariant_def Let_def)
  ultimately show ?thesis
    using inv n lt idle_iff [OF inv]
    unfolding limiter_invariant_def Let_def q
    by (auto simp: in_flight_nodes_def Admit_asserts_def anchors_InsertBefore InsertBefore_frame)
qed

text \<open>A start moves a node from the starting ones to the running ones.\<close>

lemma in_flight_nodes_start:
  assumes "limiter_invariant ws \<sigma>" "starting (activities \<sigma>) = add_mset n B" "starting A = B"
  shows "in_flight_nodes (\<sigma>\<lparr>queue := q, activities := A, running := insert n (running \<sigma>)\<rparr>) = in_flight_nodes \<sigma>"
proof -
  have "count (in_flight_nodes \<sigma>) n \<le> 1" using assms(1) by (auto simp: limiter_invariant_def Let_def)
  then have "n \<notin> running \<sigma>" using assms(2) by (auto simp: in_flight_nodes_def)
  then show ?thesis using assms by (simp add: in_flight_nodes_def)
qed

lemma invariant_start:
  assumes inv: "limiter_invariant ws \<sigma>" and st: "starting (activities \<sigma>) = add_mset n (starting A)"
    and "RunStartFunction n (queue \<sigma>) = (q, fn)"
  shows "limiter_invariant ws (\<sigma>\<lparr>queue := q, activities := A, running := insert n (running \<sigma>)\<rparr>)"
proof -
  have q: "q = (queue \<sigma>)\<lparr>nodes := SetPrev n 0 (SetNext n 0 (nodes (queue \<sigma>))),
                           start_fn := (start_fn (queue \<sigma>))(n := 0)\<rparr>"
    using assms(3) by (simp add: RunStartFunction_def)
  have "n \<in># in_flight_nodes \<sigma>" using st by (simp add: in_flight_nodes_def)
  then have n: "n \<notin> set (head (queue \<sigma>) # ws)" using inv by (auto simp: limiter_invariant_def Let_def)
  have "count (in_flight_nodes \<sigma>) n \<le> 1" using inv by (auto simp: limiter_invariant_def Let_def)
  then have n': "n \<notin># starting A" using st by (auto simp: in_flight_nodes_def not_in_iff)
  have "anchors (nodes (queue \<sigma>)) (head (queue \<sigma>)) ws" using inv by (simp add: limiter_invariant_def Let_def)
  then have anch: "anchors (nodes q) (head q) ws" using anchors_frame n by (simp add: q)
  show ?thesis
    unfolding limiter_invariant_def Let_def in_flight_nodes_start [OF inv st refl]
    using inv n n' st anch
    by (auto simp: limiter_invariant_def Let_def q Admit_asserts_def SetPrev_def SetNext_def)
qed

lemma invariant_iterate:
  assumes inv: "limiter_invariant ws \<sigma>" and "finish_iteration (queue \<sigma>) = (q, r)"
  shows "q = queue \<sigma> \<and> r = None"
proof (cases ws)
  case Nil
  then show ?thesis
    using assms by (auto simp: limiter_invariant_def Let_def finish_iteration_def anchors_def)
next
  case (Cons w us)
  then have "in_flight (queue \<sigma>) = limit (queue \<sigma>)" using inv by (simp add: limiter_invariant_def Let_def)
  then show ?thesis using assms(2) admission_test(1) [OF inv] by (auto simp: finish_iteration_def Let_def split: if_splits)
qed

lemma invariant_finish:
  assumes inv: "limiter_invariant ws \<sigma>" and n: "n \<in> running \<sigma>" and fin: "Finish (queue \<sigma>) = (q, r)"
  shows "limiter_invariant (tl ws) (resume_Finish r (\<sigma>\<lparr>queue := q, running := running \<sigma> - {n}\<rparr>))"
    and "r = (if ws = [] then None else Some (hd ws))"
proof -
  let ?f = "in_flight (queue \<sigma>)" and ?h = "head (queue \<sigma>)" and ?s = "nodes (queue \<sigma>)"
  define M where "M = mset_set (running \<sigma> - {n}) + starting (activities \<sigma>)"
  have M: "in_flight_nodes \<sigma> = add_mset n M"
    using n by (simp add: in_flight_nodes_def M_def mset_set.remove)
  have cnt: "\<forall>m. count (add_mset n M) m \<le> 1" using inv M by (simp add: limiter_invariant_def Let_def)
  then have cM: "count M m \<le> 1" for m by (metis count_add_mset le_SucI le_trans lessI less_imp_le_nat)
  have f0: "unat ?f \<noteq> 0" using inv M by (simp add: limiter_invariant_def Let_def)
  then have fpos: "?f \<noteq> 0" by auto
  have u: "unat (?f - 1) = unat ?f - 1" using fpos unat_minus_one by blast
  have anch: "anchors ?s ?h ws" using inv by (simp add: limiter_invariant_def Let_def)
  have lim: "\<not> limit (queue \<sigma>) < ?f" using inv by (simp add: limiter_invariant_def Let_def not_less)
  have nil: "q = (queue \<sigma>)\<lparr>in_flight := ?f - 1\<rparr> \<and> r = None" if "ws = []"
    using that fin anch by (auto simp: Finish_def finish_iteration_def anchors_def)
  have cons: "q = (queue \<sigma>)\<lparr>in_flight := ?f, nodes := Remove w ?s\<rparr> \<and> r = Some w" if "ws = w # us" for w us
    using that fin anch lim by (auto simp: Finish_def finish_iteration_def anchors_def Let_def)
  show "r = (if ws = [] then None else Some (hd ws))"
    using nil cons by (cases ws) auto
  show "limiter_invariant (tl ws) (resume_Finish r (\<sigma>\<lparr>queue := q, running := running \<sigma> - {n}\<rparr>))"
  proof (cases ws)
    case Nil
    let ?\<tau> = "\<sigma>\<lparr>queue := q, running := running \<sigma> - {n}\<rparr>"
    have "?f - 1 \<le> limit (queue \<sigma>)" using lim u by (simp add: word_le_nat_alt word_less_nat_alt)
    moreover have "in_flight_nodes ?\<tau> = M" by (simp add: in_flight_nodes_def M_def)
    ultimately show ?thesis
      using inv M u cM Nil nil [OF Nil]
      by (auto simp: limiter_invariant_def Let_def resume_Finish_def Admit_asserts_def)
  next
    case (Cons w us)
    let ?\<tau> = "resume_Finish (Some w) (\<sigma>\<lparr>queue := q, running := running \<sigma> - {n}\<rparr>)"
    have anch': "anchors (Remove w ?s) ?h us" using anchors_Remove [of ?s ?h "[]"] anch Cons by simp
    have M': "in_flight_nodes ?\<tau> = add_mset w M" by (simp add: in_flight_nodes_def M_def resume_Finish_def)
    have "w \<notin># M" "w \<notin> set us" "w \<noteq> ?h" "w \<noteq> 0"
      using inv M Cons anch by (auto simp: limiter_invariant_def Let_def anchors_def)
    then have "\<forall>m. count (add_mset w M) m \<le> 1" using cM by (auto simp: not_in_iff)
    then show ?thesis
      using inv M Cons anch anch' cons [OF Cons] M' \<open>w \<notin> set us\<close> \<open>w \<noteq> ?h\<close> \<open>w \<noteq> 0\<close>
      unfolding limiter_invariant_def Let_def
      by (auto simp: resume_Finish_def Admit_asserts_def Remove_front_frame)
  qed
qed

theorem invariant_step:
  assumes "limiter_step \<sigma> \<tau>" "limiter_invariant ws \<sigma>"
  shows "\<exists>ws'. limiter_invariant ws' \<tau>"
  using assms
proof (induction rule: limiter_step.induct)
  case (admit_now \<sigma> n fn q)
  then show ?case using invariant_admit_now by blast
next
  case (admit_later \<sigma> n fn q)
  then show ?case using invariant_admit_later by blast
next
  case (start_admitted \<sigma> n A q fn)
  then show ?case using invariant_start [of ws \<sigma> n A q fn] by auto
next
  case (start_finished \<sigma> n A q fn)
  then show ?case using invariant_start [of ws \<sigma> n "add_mset Iterate A" q fn] by auto
next
  case (finish n \<sigma> q r)
  then show ?case using invariant_finish(1) by blast
next
  case (iterate \<sigma> A q r)
  then have "q = queue \<sigma> \<and> r = None" using invariant_iterate [of ws \<sigma>] by auto
  then have "limiter_invariant ws (resume_Finish r (\<sigma>\<lparr>queue := q, activities := A\<rparr>))"
    using iterate by (auto simp: limiter_invariant_def Let_def resume_Finish_def in_flight_nodes_def)
  then show ?case ..
qed

lemma limiter_reachable_invariant:
  "limiter_reachable h lim \<sigma> \<Longrightarrow> h \<noteq> 0 \<Longrightarrow> \<exists>ws. limiter_invariant ws \<sigma>"
  by (induction rule: limiter_reachable.induct) (auto intro: invariant_initial dest: invariant_step)

lemma limiter_step_constants:
  "limiter_step \<sigma> \<tau> \<Longrightarrow> limit (queue \<tau>) = limit (queue \<sigma>) \<and> head (queue \<tau>) = head (queue \<sigma>)"
  by (induction rule: limiter_step.induct)
     (auto simp: Admit_def Let_def RunStartFunction_def Finish_def finish_iteration_def resume_Finish_def
       split: if_splits option.splits)

lemma limiter_reachable_constants:
  "limiter_reachable h lim \<sigma> \<Longrightarrow> limit (queue \<sigma>) = (if lim = 0 then - 1 else lim) \<and> head (queue \<sigma>) = h"
  by (induction rule: limiter_reachable.induct)
     (auto simp: initial_limiter_def AdmissionQueue_def dest: limiter_step_constants)

section \<open>Progress\<close>

text \<open>The steps other than calls of \<^verbatim>\<open>Admit\<close>, and the work that is left.\<close>

definition drain_step :: "limiter_state \<Rightarrow> limiter_state \<Rightarrow> bool" where
  "drain_step \<sigma> \<tau> \<longleftrightarrow> limiter_step \<sigma> \<tau> \<and> admitted \<tau> = admitted \<sigma>"

fun activity_work :: "activity \<Rightarrow> nat" where
  "activity_work (Start_in_Admit n) = 2"
| "activity_work (Start_in_Finish n) = 3"
| "activity_work Iterate = 1"

definition work :: "limiter_state \<Rightarrow> nat" where
  "work \<sigma> = 3 * length (waiting \<sigma>) + card (running \<sigma>) + sum_mset (image_mset activity_work (activities \<sigma>))"

lemma drain_step_work:
  assumes "drain_step \<sigma> \<tau>" "limiter_invariant ws \<sigma>"
  shows "work \<tau> < work \<sigma>"
proof -
  have "limiter_step \<sigma> \<tau>" "admitted \<tau> = admitted \<sigma>" using assms(1) by (simp_all add: drain_step_def)
  then show ?thesis using assms(2)
  proof (induction rule: limiter_step.induct)
    case (start_admitted \<sigma> n A q fn)
    then show ?case by (simp add: work_def waiting_def card_insert_if)
  next
    case (start_finished \<sigma> n A q fn)
    then show ?case by (simp add: work_def waiting_def card_insert_if)
  next
    case (finish n \<sigma> q r)
    have r: "r = (if ws = [] then None else Some (hd ws))" and
      inv: "limiter_invariant (tl ws) (resume_Finish r (\<sigma>\<lparr>queue := q, running := running \<sigma> - {n}\<rparr>))"
      using invariant_finish finish by blast+
    have "card (running \<sigma> - {n}) < card (running \<sigma>)" using finish(1) by (intro psubset_card_mono) auto
    then show ?case
      using waiting_eq [OF inv] waiting_eq [OF finish(4)] r
      by (cases ws) (auto simp: work_def resume_Finish_def)
  next
    case (iterate \<sigma> A q r)
    then have "q = queue \<sigma> \<and> r = None" using invariant_iterate [of ws \<sigma>] by auto
    then show ?case using iterate by (simp add: work_def waiting_def resume_Finish_def)
  qed simp_all
qed

text \<open>A state in which no such step is possible has no operation waiting or in flight.\<close>

lemma drained:
  assumes "limiter_invariant ws \<sigma>" "\<And>\<tau>. \<not> drain_step \<sigma> \<tau>"
  shows "running \<sigma> = {}" "activities \<sigma> = {#}" "started \<sigma> = admitted \<sigma>"
proof -
  have adm: "admitted (resume_Finish r \<rho>) = admitted \<rho>" for r \<rho>
    by (simp add: resume_Finish_def split: option.splits)
  show run: "running \<sigma> = {}"
  proof (rule ccontr)
    assume "running \<sigma> \<noteq> {}"
    then obtain n where "n \<in> running \<sigma>" by blast
    then have "\<exists>\<tau>. drain_step \<sigma> \<tau>"
      by (cases "Finish (queue \<sigma>)") (auto simp: drain_step_def adm intro!: exI limiter_step.finish)
    then show False using assms(2) by blast
  qed
  show act: "activities \<sigma> = {#}"
  proof (cases "activities \<sigma>")
    case (add a A)
    have "\<exists>\<tau>. drain_step \<sigma> \<tau>"
    proof (cases a)
      case (Start_in_Admit n)
      then show ?thesis using limiter_step.start_admitted [of \<sigma> n A] add
        by (cases "RunStartFunction n (queue \<sigma>)") (fastforce simp: drain_step_def)
    next
      case (Start_in_Finish n)
      then show ?thesis using limiter_step.start_finished [of \<sigma> n A] add
        by (cases "RunStartFunction n (queue \<sigma>)") (fastforce simp: drain_step_def)
    next
      case Iterate
      then show ?thesis using add
        by (cases "finish_iteration (queue \<sigma>)") (auto simp: drain_step_def adm intro!: exI limiter_step.iterate)
    qed
    then show ?thesis using assms(2) by blast
  qed
  have "in_flight_nodes \<sigma> = {#}" by (simp add: in_flight_nodes_def run act)
  then show "started \<sigma> = admitted \<sigma>" using assms(1) by (auto simp: limiter_invariant_def Let_def unat_eq_0)
qed

lemma drain_steps_invariant:
  "drain_step\<^sup>*\<^sup>* \<sigma> \<tau> \<Longrightarrow> limiter_invariant ws \<sigma> \<Longrightarrow> (\<exists>vs. limiter_invariant vs \<tau>) \<and> admitted \<tau> = admitted \<sigma>"
  by (induction rule: rtranclp_induct) (auto simp: drain_step_def dest: invariant_step)

lemma drain_steps_bounded:
  "(drain_step ^^ k) \<sigma> \<tau> \<Longrightarrow> limiter_invariant ws \<sigma> \<Longrightarrow> k + work \<tau> \<le> work \<sigma>"
proof (induction k arbitrary: \<tau>)
  case (Suc k)
  then obtain \<rho> where \<rho>: "(drain_step ^^ k) \<sigma> \<rho>" "drain_step \<rho> \<tau>" by auto
  then obtain vs where "limiter_invariant vs \<rho>"
    using drain_steps_invariant [OF relpowp_imp_rtranclp Suc.prems(2)] by blast
  then show ?case using Suc.IH [OF \<rho>(1) Suc.prems(2)] drain_step_work [OF \<rho>(2)] by fastforce
qed simp

lemma drain_terminates:
  "limiter_invariant ws \<sigma> \<Longrightarrow> \<exists>\<tau>. drain_step\<^sup>*\<^sup>* \<sigma> \<tau> \<and> (\<forall>\<upsilon>. \<not> drain_step \<tau> \<upsilon>)"
proof (induction "work \<sigma>" arbitrary: \<sigma> ws rule: less_induct)
  case less
  show ?case
  proof (cases "\<exists>\<tau>. drain_step \<sigma> \<tau>")
    case True
    then obtain \<tau> where \<tau>: "drain_step \<sigma> \<tau>" by blast
    then obtain vs where "limiter_invariant vs \<tau>"
      using invariant_step [OF _ less.prems] by (auto simp: drain_step_def)
    then show ?thesis
      using less.hyps [OF drain_step_work [OF \<tau> less.prems]] \<tau> by (meson converse_rtranclp_into_rtranclp)
  qed auto
qed

section \<open>Properties\<close>

text \<open>C12: in every interleaving of the threads that call \<^verbatim>\<open>Admit\<close> and \<^verbatim>\<open>Finish\<close>, the number of
  operations that run or are about to be started never exceeds the limit of the admission queue (the
  largest \<^verbatim>\<open>size_t\<close> for the limit 0) and is the value of \<^verbatim>\<open>in_flight_\<close>; no operation is in flight twice;
  and the assertions of the code hold: a node that a client may admit has null fields, so has the
  next field of a node that it may finish, and a node about to be started has a start function.\<close>

theorem limiter_bounds_parallelism:
  assumes "limiter_reachable h lim \<sigma>" "h \<noteq> 0"
  shows "card (running \<sigma>) + size (starting (activities \<sigma>)) \<le> (if lim = 0 then 2 ^ 64 - 1 else unat lim) \<and>
    unat (in_flight (queue \<sigma>)) = card (running \<sigma>) + size (starting (activities \<sigma>)) \<and>
    running \<sigma> \<inter> set_mset (starting (activities \<sigma>)) = {} \<and> (\<forall>n. count (starting (activities \<sigma>)) n \<le> 1) \<and>
    (\<forall>n. idle \<sigma> n \<longrightarrow> Admit_asserts n (queue \<sigma>)) \<and>
    (\<forall>n. n \<in> running \<sigma> \<longrightarrow> Finish_asserts n (queue \<sigma>)) \<and>
    (\<forall>n. n \<in># starting (activities \<sigma>) \<longrightarrow> snd (RunStartFunction n (queue \<sigma>)) \<noteq> 0)"
proof (intro conjI allI impI)
  obtain ws where inv: "limiter_invariant ws \<sigma>" using limiter_reachable_invariant assms by blast
  have lim: "unat (limit (queue \<sigma>)) = (if lim = 0 then 2 ^ 64 - 1 else unat lim)"
    using limiter_reachable_constants [OF assms(1)] by (simp add: unsigned_minus_1_eq_mask mask_eq_exp_minus_1)
  show sz: "unat (in_flight (queue \<sigma>)) = card (running \<sigma>) + size (starting (activities \<sigma>))"
    using inv by (simp add: limiter_invariant_def Let_def in_flight_nodes_def)
  have "unat (in_flight (queue \<sigma>)) \<le> unat (limit (queue \<sigma>))"
    using inv by (simp add: limiter_invariant_def Let_def word_le_nat_alt)
  then show "card (running \<sigma>) + size (starting (activities \<sigma>)) \<le> (if lim = 0 then 2 ^ 64 - 1 else unat lim)"
    using sz lim by simp
  have cnt: "count (mset_set (running \<sigma>)) n + count (starting (activities \<sigma>)) n \<le> 1" for n
    using inv by (simp add: limiter_invariant_def Let_def in_flight_nodes_def)
  then have dis: "n \<notin># starting (activities \<sigma>)" if "n \<in> running \<sigma>" for n
    using that cnt [of n] by (simp add: not_in_iff)
  then show "running \<sigma> \<inter> set_mset (starting (activities \<sigma>)) = {}" by blast
  show "count (starting (activities \<sigma>)) n \<le> 1" for n using cnt [of n] by simp
  show "Admit_asserts n (queue \<sigma>)" if "idle \<sigma> n" for n
    using inv that idle_iff [OF inv] by (simp add: limiter_invariant_def Let_def in_flight_nodes_def)
  show "Finish_asserts m (queue \<sigma>)" if "m \<in> running \<sigma>" for m
    using inv that dis [of m]
    by (auto simp: limiter_invariant_def Let_def in_flight_nodes_def Finish_asserts_def Admit_asserts_def
        disjoint_iff elim!: allE [of _ m])
  show "snd (RunStartFunction k (queue \<sigma>)) \<noteq> 0" if "k \<in># starting (activities \<sigma>)" for k
    using inv that by (simp add: limiter_invariant_def Let_def RunStartFunction_def)
qed

text \<open>C13: operations start in the order in which they were admitted, none is kept waiting while
  there is room, and every operation is eventually started: when no more operations are admitted and
  the running ones finish, the threads take boundedly many further steps, and when none of them can
  take one, all admitted operations have been started and finished, in the order of their admission.\<close>

theorem limiter_starts_all_in_order:
  assumes "limiter_reachable h lim \<sigma>" "h \<noteq> 0"
  shows "admitted \<sigma> = started \<sigma> @ waiting \<sigma> \<and> (waiting \<sigma> \<noteq> [] \<longrightarrow> in_flight (queue \<sigma>) = limit (queue \<sigma>)) \<and>
    (\<forall>k \<tau>. (drain_step ^^ k) \<sigma> \<tau> \<longrightarrow> k \<le> work \<sigma>) \<and>
    (\<forall>\<tau>. drain_step\<^sup>*\<^sup>* \<sigma> \<tau> \<and> (\<forall>\<upsilon>. \<not> drain_step \<tau> \<upsilon>) \<longrightarrow>
       started \<tau> = admitted \<sigma> \<and> running \<tau> = {} \<and> activities \<tau> = {#})"
proof -
  obtain ws where inv: "limiter_invariant ws \<sigma>" using limiter_reachable_invariant assms by blast
  have "admitted \<sigma> = started \<sigma> @ waiting \<sigma> \<and> (waiting \<sigma> \<noteq> [] \<longrightarrow> in_flight (queue \<sigma>) = limit (queue \<sigma>))"
    using inv waiting_eq [OF inv] by (simp add: limiter_invariant_def Let_def)
  moreover have "(drain_step ^^ k) \<sigma> \<tau> \<Longrightarrow> k \<le> work \<sigma>" for k \<tau> using drain_steps_bounded [OF _ inv] by fastforce
  moreover have "started \<tau> = admitted \<sigma> \<and> running \<tau> = {} \<and> activities \<tau> = {#}"
    if "drain_step\<^sup>*\<^sup>* \<sigma> \<tau>" "\<And>\<upsilon>. \<not> drain_step \<tau> \<upsilon>" for \<tau>
    using drain_steps_invariant [OF that(1) inv] drained [OF _ that(2)] by metis
  ultimately show ?thesis by blast
qed

section \<open>Examples\<close>

text \<open>A queue with limit 1 and its head at address 1: the operation at 2 is admitted and started,
  the one at 3 is admitted and waits.\<close>

definition example_admit :: "addr \<Rightarrow> limiter_state \<Rightarrow> limiter_state" where
  "example_admit n \<sigma> =
     (case Admit n 9 (queue \<sigma>) of (q, b) \<Rightarrow>
        if b then \<sigma>\<lparr>queue := q, activities := add_mset (Start_in_Admit n) (activities \<sigma>),
                    admitted := admitted \<sigma> @ [n], started := started \<sigma> @ [n]\<rparr>
        else \<sigma>\<lparr>queue := q, admitted := admitted \<sigma> @ [n]\<rparr>)"

lemma example_admit_reachable:
  "limiter_reachable h lim \<sigma> \<Longrightarrow> idle \<sigma> n \<Longrightarrow> limiter_reachable h lim (example_admit n \<sigma>)"
  by (cases "Admit n 9 (queue \<sigma>)")
     (auto simp: example_admit_def
       intro!: reach_step [OF _ admit_now [of _ _ 9]] reach_step [OF _ admit_later [of _ _ 9]])

definition example_waiting :: limiter_state where
  "example_waiting = example_admit 3 (example_admit 2 (initial_limiter 1 1))"

lemma example_waiting_fields:
  "running example_waiting = {}" "activities example_waiting = {#Start_in_Admit 2#}"
  "admitted example_waiting = [2, 3]" "started example_waiting = [2]" "head (queue example_waiting) = 1"
  by (simp_all add: example_waiting_def example_admit_def initial_limiter_def AdmissionQueue_def Admit_def)

lemma example_waiting_reachable: "limiter_reachable 1 1 example_waiting"
proof -
  have "limiter_reachable 1 1 (example_admit 2 (initial_limiter 1 1))"
    by (intro example_admit_reachable reach_initial)
       (simp add: idle_def initial_limiter_def AdmissionQueue_def waiting_def in_flight_nodes_def)
  then show ?thesis
    unfolding example_waiting_def
    by (rule example_admit_reachable)
       (simp add: idle_def initial_limiter_def AdmissionQueue_def waiting_def in_flight_nodes_def
         example_admit_def Admit_def)
qed

definition example_running :: limiter_state where
  "example_running =
     example_waiting\<lparr>queue := fst (RunStartFunction 2 (queue example_waiting)), activities := {#}, running := {2}\<rparr>"

lemma example_running_reachable: "limiter_reachable 1 1 example_running"
proof -
  have "limiter_step example_waiting example_running"
    using start_admitted [of example_waiting 2 "{#}"] example_waiting_fields
    by (cases "RunStartFunction 2 (queue example_waiting)") (auto simp: example_running_def)
  then show ?thesis using reach_step example_waiting_reachable by blast
qed

theorem limiter_bounds_parallelism_witness:
  "limiter_reachable 1 1 example_waiting \<and> limiter_reachable 1 1 example_running \<and>
   card (running example_running) + size (starting (activities example_running)) \<le> 1 \<and>
   unat (in_flight (queue example_running)) = 1 \<and>
   running example_running \<inter> set_mset (starting (activities example_running)) = {} \<and>
   Admit_asserts 4 (queue example_waiting) \<and> Finish_asserts 2 (queue example_running) \<and>
   snd (RunStartFunction 2 (queue example_waiting)) \<noteq> 0"
proof -
  note w = example_waiting_reachable and r = example_running_reachable
  have idle4: "idle example_waiting 4"
    by (simp add: idle_def waiting_def in_flight_nodes_def example_waiting_fields)
  show ?thesis
    using w r idle4 limiter_bounds_parallelism [OF w] limiter_bounds_parallelism [OF r]
    by (simp add: example_running_def example_waiting_fields)
qed

theorem limiter_starts_all_in_order_witness:
  "waiting example_waiting = [3] \<and> in_flight (queue example_waiting) = limit (queue example_waiting) \<and>
   (\<exists>\<tau>. drain_step\<^sup>*\<^sup>* example_waiting \<tau> \<and> started \<tau> = [2, 3] \<and> running \<tau> = {}) \<and>
   \<not> (\<exists>\<tau>. (drain_step ^^ 6) example_waiting \<tau>)"
proof -
  note w = example_waiting_reachable
  obtain ws where "limiter_invariant ws example_waiting" using limiter_reachable_invariant [OF w] by auto
  then obtain \<tau> where \<tau>: "drain_step\<^sup>*\<^sup>* example_waiting \<tau>" "\<And>\<upsilon>. \<not> drain_step \<tau> \<upsilon>" using drain_terminates by blast
  have wk: "work example_waiting = 5" by (simp add: work_def waiting_def example_waiting_fields)
  then show ?thesis
    using limiter_starts_all_in_order [OF w] \<tau>
    by (fastforce simp: waiting_def example_waiting_fields)
qed

end
