(* ===== verification/Bytes.thy ===== *)
theory Bytes
  imports Prelude
begin

unbundle bit_operations_syntax

text \<open>
  Byte strings: a \<^verbatim>\<open>std::string\<close> that holds binary data is a list of 8-bit words, an unsigned 64-bit
  number is a 64-bit word. \<open>Store64\<close> and \<open>Load64\<close> are the little-endian accessors the encodings use.
\<close>

type_synonym byte = "8 word"
type_synonym uint64 = "64 word"

fun little_endian_bytes :: "nat \<Rightarrow> uint64 \<Rightarrow> byte list" where
  "little_endian_bytes 0 w = []"
| "little_endian_bytes (Suc n) w = ucast w # little_endian_bytes n (drop_bit 8 w)"

fun from_little_endian :: "byte list \<Rightarrow> uint64" where
  "from_little_endian [] = 0"
| "from_little_endian (b # bs) = ucast b OR push_bit 8 (from_little_endian bs)"

definition Store64 :: "uint64 \<Rightarrow> byte list" where
  "Store64 w = little_endian_bytes 8 w"

definition Load64 :: "byte list \<Rightarrow> uint64" where
  "Load64 bs = from_little_endian (take 8 bs)"

lemma length_little_endian_bytes [simp]: "length (little_endian_bytes n w) = n"
  by (induction n arbitrary: w) simp_all

lemma length_Store64 [simp]: "length (Store64 w) = 8"
  by (simp add: Store64_def)

lemma from_little_endian_bytes: "from_little_endian (little_endian_bytes n w) = take_bit (8 * n) w"
proof (induction n arbitrary: w)
  case (Suc n)
  have "ucast (ucast w :: byte) OR push_bit 8 (take_bit (8 * n) (drop_bit 8 w)) = take_bit (8 * Suc n) w"
    by (rule bit_word_eqI) (auto simp: bit_simps)
  then show ?case using Suc by simp
qed simp

lemma Load64_Store64 [simp]: "Load64 (Store64 w @ rest) = w"
  by (simp add: Load64_def Store64_def from_little_endian_bytes take_bit_word_eq_self)

lemma bit_from_little_endian: "bit (from_little_endian bs) n \<Longrightarrow> n < 8 * length bs"
proof (induction bs arbitrary: n)
  case (Cons b bs)
  from Cons.prems have "bit b n \<or> 8 \<le> n \<and> bit (from_little_endian bs) (n - 8)" by (auto simp: bit_simps)
  then show ?case using Cons.IH [of "n - 8"] bit_imp_le_length [of b n] by auto
qed simp

lemma little_endian_bytes_from: "length bs \<le> 8 \<Longrightarrow> little_endian_bytes (length bs) (from_little_endian bs) = bs"
proof (induction bs)
  case (Cons b bs)
  have "ucast (ucast b OR push_bit 8 (from_little_endian bs) :: uint64) = b"
    by (rule bit_word_eqI) (auto simp: bit_simps)
  moreover have "drop_bit 8 (ucast b OR push_bit 8 (from_little_endian bs)) = from_little_endian bs"
    using Cons.prems by (intro bit_word_eqI) (auto simp: bit_simps dest: bit_imp_le_length bit_from_little_endian)
  ultimately show ?case using Cons by simp
qed simp

lemma Store64_Load64: "length bs = 8 \<Longrightarrow> Store64 (Load64 bs) = bs"
  using little_endian_bytes_from [of bs] by (simp add: Store64_def Load64_def)

end
