(* ===== verification/Generation.thy ===== *)
theory Generation
  imports Bytes
begin

text \<open>
  \<^verbatim>\<open>kvstore/generation.h\<close> and \<^verbatim>\<open>generation.cc\<close>: storage generations, a byte encoding of the uncommitted
  mutations of a key and the committed generation they are based on. Indices into the byte string
  are natural numbers; a read outside of the string is guarded as in the code. The specification is
  the stack of mutations with the base generation; every operation on the encoding is shown to
  be the operation on the stack.
\<close>

section \<open>generation.h and generation.cc\<close>

type_synonym storage_generation = "byte list"
type_synonym mutation_id = uint64

definition kDeletionMutationId :: mutation_id where "kDeletionMutationId = 0"
definition kAdditionalTags :: byte where "kAdditionalTags = 1"
definition kNoValue :: byte where "kNoValue = 2"
definition kMutation :: byte where "kMutation = 4"
definition kNewLayer :: byte where "kNewLayer = 8"
definition kInvalid :: byte where "kInvalid = 16"

lemmas indicator_defs = kAdditionalTags_def kNoValue_def kMutation_def kNewLayer_def kInvalid_def

definition has_flag :: "byte \<Rightarrow> byte \<Rightarrow> bool" where
  "has_flag indicator flag \<longleftrightarrow> indicator AND flag \<noteq> 0"

definition NoValue :: storage_generation where "NoValue = [kNoValue]"
definition Invalid :: storage_generation where "Invalid = [kInvalid]"
definition Unknown :: storage_generation where "Unknown = []"

definition IsUnknown :: "storage_generation \<Rightarrow> bool" where
  "IsUnknown g \<longleftrightarrow> g = []"

definition IsNoValue :: "storage_generation \<Rightarrow> bool" where
  "IsNoValue g \<longleftrightarrow> length g = 1 \<and> g ! 0 = kNoValue"

definition EqualOrUnspecified :: "storage_generation \<Rightarrow> storage_generation \<Rightarrow> bool" where
  "EqualOrUnspecified g if_equal \<longleftrightarrow> IsUnknown if_equal \<or> g = if_equal"

definition NotEqualOrUnspecified :: "storage_generation \<Rightarrow> storage_generation \<Rightarrow> bool" where
  "NotEqualOrUnspecified g if_not_equal \<longleftrightarrow> IsUnknown if_not_equal \<or> g \<noteq> if_not_equal"

definition IsCleanValidValue :: "storage_generation \<Rightarrow> bool" where
  "IsCleanValidValue g \<longleftrightarrow> g \<noteq> [] \<and> g ! 0 = 0"

text \<open>The loop of \<^verbatim>\<open>IsValid\<close> from index \<open>i\<close> on; \<open>s\<close> is the rest of the string from \<open>i\<close>.\<close>

fun valid_tags :: "byte list \<Rightarrow> bool" where
  "valid_tags [] = False"
| "valid_tags (indicator # s) =
     (let has_next = has_flag indicator kAdditionalTags; no_value = has_flag indicator kNoValue;
          has_mutation = has_flag indicator kMutation; new_layer = has_flag indicator kNewLayer
      in if has_next \<and> no_value then False
         else if has_next \<and> \<not> has_mutation then False
         else if new_layer \<and> \<not> has_mutation then False
         else if has_flag indicator 0xf0 then False
         else if has_mutation \<and> length s < 8 then False
         else
           let s' = (if has_mutation then drop 8 s else s)
           in if has_next then (if s' = [] then False else valid_tags s')
              else \<not> (no_value \<and> s' \<noteq> []))"

definition IsValid :: "storage_generation \<Rightarrow> bool" where
  "IsValid g \<longleftrightarrow> (if g = [] then True else if length g = 1 \<and> g ! 0 = 0 then False else valid_tags g)"

definition Equivalent :: "byte list \<Rightarrow> byte list \<Rightarrow> bool" where
  "Equivalent a b \<longleftrightarrow>
     (if a = [] \<or> b = [] then a = b
      else a ! 0 OR kNewLayer = b ! 0 OR kNewLayer \<and> drop 1 a = drop 1 b)"

text \<open>\<^verbatim>\<open>ParseBaseGeneration\<close> returns the rest after the last tag and the offset of that tag, or the
  offset -1, here \<open>None\<close>.\<close>

function parse_base_from :: "byte list \<Rightarrow> nat \<Rightarrow> (byte list \<times> nat) option" where
  "parse_base_from s i =
     (if i \<ge> length s then None
      else
        let indicator = s ! i; i' = (if has_flag indicator kMutation then i + 9 else i + 1)
        in if has_flag indicator kAdditionalTags then parse_base_from s i'
           else if i' > length s then None else Some (drop i' s, i))"
  by auto
termination by (relation "measure (\<lambda>(s, i). length s - i)") auto

declare parse_base_from.simps [simp del]

definition ParseBaseGeneration :: "byte list \<Rightarrow> (byte list \<times> nat) option" where
  "ParseBaseGeneration s = parse_base_from s 0"

text \<open>\<^verbatim>\<open>nullopt\<close> stands for the base generation \<open>NoValue\<close>, the empty string for an unspecified one.\<close>

definition BaseGeneration :: "storage_generation \<Rightarrow> byte list option" where
  "BaseGeneration g =
     (case ParseBaseGeneration g of
        None \<Rightarrow> Some []
      | Some (base_generation, indicator_i) \<Rightarrow>
          if has_flag (g ! indicator_i) kNoValue then None else Some base_generation)"

definition Clean :: "storage_generation \<Rightarrow> storage_generation" where
  "Clean g =
     (if g = [] \<or> \<not> has_flag (g ! 0) kMutation then g
      else
        case BaseGeneration g of
          None \<Rightarrow> NoValue
        | Some base_generation \<Rightarrow>
            if base_generation = [] then []
            else 0 # drop (length g - length base_generation) g)"

definition LastMutatedBy :: "storage_generation \<Rightarrow> mutation_id \<Rightarrow> bool" where
  "LastMutatedBy g i \<longleftrightarrow> length g \<ge> 9 \<and> has_flag (g ! 0) kMutation \<and> Load64 (drop 1 g) = i"

definition MarkDirty :: "storage_generation \<Rightarrow> mutation_id \<Rightarrow> storage_generation" where
  "MarkDirty g i =
     (if g = [] then kMutation # Store64 i
      else if has_flag (g ! 0) kMutation then (kMutation OR kAdditionalTags) # Store64 i @ g
      else (g ! 0 OR kMutation) # Store64 i @ drop 1 g)"

definition Dirty :: "storage_generation \<Rightarrow> mutation_id \<Rightarrow> storage_generation" where
  "Dirty g i = MarkDirty g i"

definition IsDirtyOf :: "storage_generation \<Rightarrow> storage_generation \<Rightarrow> mutation_id \<Rightarrow> bool" where
  "IsDirtyOf g base i \<longleftrightarrow> Equivalent g (Dirty base i)"

text \<open>\<^verbatim>\<open>FromUint64\<close> copies the host representation, here little-endian.\<close>

definition FromUint64 :: "uint64 \<Rightarrow> storage_generation" where
  "FromUint64 n = 0 # Store64 n"

definition IsUint64 :: "storage_generation \<Rightarrow> bool" where
  "IsUint64 g \<longleftrightarrow> length g = 9 \<and> g ! 0 = 0"

definition ToUint64 :: "storage_generation \<Rightarrow> uint64" where
  "ToUint64 g = (if IsUint64 g then Load64 (drop 1 g) else 0)"

definition FromString :: "byte list \<Rightarrow> storage_generation" where
  "FromString s = 0 # s"

definition DecodeString :: "storage_generation \<Rightarrow> byte list" where
  "DecodeString g = (if g = [] \<or> g ! 0 \<noteq> 0 then [] else drop 1 g)"

function strip_layer_from :: "storage_generation \<Rightarrow> nat \<Rightarrow> storage_generation" where
  "strip_layer_from g i =
     (if i < length g then
        let indicator = g ! i
        in if \<not> has_flag indicator kMutation then g
           else if has_flag indicator kNewLayer then (indicator - kNewLayer) # drop (i + 1) g
           else if \<not> has_flag indicator kAdditionalTags then
             (if i + 9 = length g then (if has_flag indicator kNoValue then NoValue else [])
              else if i + 9 > length g then g
              else (indicator - kMutation) # drop (i + 9) g)
           else strip_layer_from g (i + 9)
      else [])"
  by auto
termination by (relation "measure (\<lambda>(g, i). length g - i)") auto

declare strip_layer_from.simps [simp del]

definition StripLayer :: "storage_generation \<Rightarrow> storage_generation" where
  "StripLayer g = strip_layer_from g 0"

definition StripTag :: "storage_generation \<Rightarrow> storage_generation" where
  "StripTag g =
     (if length g < 9 \<or> \<not> has_flag (g ! 0) kMutation then g
      else if has_flag (g ! 0) kNoValue then NoValue
      else if \<not> has_flag (g ! 0) kAdditionalTags \<and> length g > 9 then 0 # drop 9 g
      else drop 9 g)"

definition IsDirty :: "storage_generation \<Rightarrow> bool" where
  "IsDirty g \<longleftrightarrow> g \<noteq> [] \<and> has_flag (g ! 0) kMutation"

definition IsClean :: "storage_generation \<Rightarrow> bool" where
  "IsClean g \<longleftrightarrow> g \<noteq> [] \<and> \<not> has_flag (g ! 0) kMutation"

definition IsInnerLayerDirty :: "storage_generation \<Rightarrow> bool" where
  "IsInnerLayerDirty g \<longleftrightarrow> (if g = [] then False else g ! 0 AND (kMutation OR kNewLayer) = kMutation)"

definition AddLayer :: "storage_generation \<Rightarrow> storage_generation" where
  "AddLayer g = (if g \<noteq> [] \<and> has_flag (g ! 0) kMutation then g[0 := g ! 0 OR kNewLayer] else g)"

definition IsConditional :: "storage_generation \<Rightarrow> bool" where
  "IsConditional g \<longleftrightarrow> BaseGeneration g \<noteq> Some []"

definition Condition :: "storage_generation \<Rightarrow> storage_generation \<Rightarrow> storage_generation" where
  "Condition g condition =
     (if g = [] then AddLayer (StripLayer condition)
      else if condition = [] then g
      else
        case ParseBaseGeneration g of
          None \<Rightarrow> g
        | Some (base_generation, last_tag_offset) \<Rightarrow>
            if has_flag (g ! last_tag_offset) kNoValue \<or> base_generation \<noteq> [] then g
            else
              let c = AddLayer (StripLayer condition)
              in if c = [] then g
                 else if has_flag (c ! 0) kMutation
                 then g[last_tag_offset := g ! last_tag_offset OR kAdditionalTags] @ c
                 else g[last_tag_offset := g ! last_tag_offset OR c ! 0] @ drop 1 c)"

section \<open>The stack of mutations\<close>

text \<open>A generation stands for the stack of the uncommitted mutations, the latest first, each with the
  flag of a new layer and its identifier, over a base generation.\<close>

datatype base_generation = Base_unknown | Base_no_value | Base_value "byte list"

type_synonym mutation = "bool \<times> mutation_id"

definition base_bytes :: "base_generation \<Rightarrow> byte list" where
  "base_bytes b = (case b of Base_value v \<Rightarrow> v | _ \<Rightarrow> [])"

definition tag_byte :: "bool \<Rightarrow> bool \<Rightarrow> bool \<Rightarrow> byte" where
  "tag_byte layer additional no_value =
     4 + (if layer then 8 else 0) + (if additional then 1 else 0) + (if no_value then 2 else 0)"

fun encode :: "mutation list \<Rightarrow> base_generation \<Rightarrow> storage_generation" where
  "encode [] b = (case b of Base_unknown \<Rightarrow> [] | Base_no_value \<Rightarrow> [2] | Base_value v \<Rightarrow> 0 # v)"
| "encode (m # ms) b =
     tag_byte (fst m) (ms \<noteq> []) (ms = [] \<and> b = Base_no_value) # Store64 (snd m) @
     (if ms = [] then base_bytes b else encode ms b)"

fun decode :: "storage_generation \<Rightarrow> mutation list \<times> base_generation" where
  "decode [] = ([], Base_unknown)"
| "decode (t # s) =
     (let base = (\<lambda>v. if has_flag t kNoValue then Base_no_value else if v = [] then Base_unknown else Base_value v);
          (ms, b) = (if has_flag t kAdditionalTags then decode (drop 8 s) else ([], base (drop 8 s)))
      in if has_flag t kMutation then ((has_flag t kNewLayer, Load64 s) # ms, b) else ([], base s))"

definition strip_layer :: "mutation list \<Rightarrow> mutation list" where
  "strip_layer ms = (case dropWhile (\<lambda>m. \<not> fst m) ms of [] \<Rightarrow> [] | m # ms' \<Rightarrow> (False, snd m) # ms')"

definition add_layer :: "mutation list \<Rightarrow> mutation list" where
  "add_layer ms = (case ms of [] \<Rightarrow> [] | m # ms' \<Rightarrow> (True, snd m) # ms')"

lemma tag_flags [simp]:
  "has_flag (tag_byte l a v) kMutation" "has_flag (tag_byte l a v) kNewLayer \<longleftrightarrow> l"
  "has_flag (tag_byte l a v) kAdditionalTags \<longleftrightarrow> a" "has_flag (tag_byte l a v) kNoValue \<longleftrightarrow> v"
  "\<not> has_flag (tag_byte l a v) 0xf0"
  by (cases l; cases a; cases v; simp add: has_flag_def tag_byte_def indicator_defs)+

lemma base_flags [simp]: "\<not> has_flag 0 f"
  "\<not> has_flag 2 kMutation" "\<not> has_flag 2 kNewLayer" "\<not> has_flag 2 kAdditionalTags" "has_flag 2 kNoValue"
  "\<not> has_flag 2 0xf0"
  by (simp_all add: has_flag_def indicator_defs)

lemma NoValue_eq: "NoValue = [2]"
  by (simp add: NoValue_def kNoValue_def)

lemma kMutation_tag: "kMutation = tag_byte False False False"
  by (simp add: tag_byte_def indicator_defs)

lemma tag_byte_updates:
  "kMutation OR kAdditionalTags = tag_byte False True False"
  "0 OR kMutation = tag_byte False False False" "2 OR kMutation = tag_byte False False True"
  "tag_byte l a v OR kNewLayer = tag_byte True a v" "tag_byte True a v - kNewLayer = tag_byte False a v"
  "tag_byte l a v OR kAdditionalTags = tag_byte l True v"
  "tag_byte l a v OR kNoValue = tag_byte l a True" "tag_byte l a v OR 0 = tag_byte l a v"
  "tag_byte False False False - kMutation = 0"
  by (cases l; cases a; cases v; simp add: tag_byte_def indicator_defs)+

lemma base_bytes_simps [simp]:
  "base_bytes Base_unknown = []" "base_bytes Base_no_value = []" "base_bytes (Base_value v) = v"
  by (simp_all add: base_bytes_def)

lemma encode_eq_Nil [simp]: "encode ms b = [] \<longleftrightarrow> ms = [] \<and> b = Base_unknown"
  by (cases ms) (auto split: base_generation.split)

lemma valid_tags_encode: "ms \<noteq> [] \<Longrightarrow> valid_tags (encode ms b)"
proof (induction ms)
  case (Cons m ms)
  then show ?case by (cases b) auto
qed simp

lemma IsValid_encode:
  assumes "b \<noteq> Base_value []"
  shows "IsValid (encode ms b)"
  using assms
proof (cases ms)
  case (Cons m ms')
  then show ?thesis using valid_tags_encode [of ms b] by (auto simp: IsValid_def simp del: valid_tags.simps)
qed (auto simp: IsValid_def split: base_generation.split)

lemma decode_encode: "b \<noteq> Base_value [] \<Longrightarrow> decode (encode ms b) = (ms, b)"
proof (induction ms)
  case Nil
  then show ?case by (cases b) (auto simp: Let_def)
next
  case (Cons m ms)
  then show ?case by (cases b) (auto simp: Let_def)
qed

lemma encode_inject:
  assumes "b \<noteq> Base_value []" "b' \<noteq> Base_value []" "encode ms b = encode ms' b'"
  shows "ms = ms' \<and> b = b'"
proof -
  have "(ms, b) = decode (encode ms b)" by (simp only: decode_encode [OF assms(1)])
  also have "\<dots> = (ms', b')" by (simp only: assms(3) decode_encode [OF assms(2)])
  finally show ?thesis by simp
qed

text \<open>An indicator byte without reserved bits is determined by its four flags; this is checked for the
  256 bytes.\<close>

definition flags_determine :: "byte \<Rightarrow> bool" where
  "flags_determine t \<longleftrightarrow> has_flag t 0xf0 \<or>
     t = (if has_flag t kMutation then 4 else 0) + (if has_flag t kNewLayer then 8 else 0) +
       (if has_flag t kAdditionalTags then 1 else 0) + (if has_flag t kNoValue then 2 else 0)"

lemma flags_determine: "flags_determine t"
proof -
  have all: "list_all (\<lambda>n. flags_determine (word_of_nat n)) [0..<256]" by code_simp
  have "unat t < 256" by (rule order.strict_trans2 [OF unsigned_less]) simp
  then have "flags_determine (word_of_nat (unat t))" using all by (auto simp only: list_all_iff set_upt atLeastLessThan_iff Ball_def)
  then show ?thesis by simp
qed

lemma tag_byte_of_flags:
  "has_flag t kMutation \<Longrightarrow> \<not> has_flag t 0xf0 \<Longrightarrow>
   tag_byte (has_flag t kNewLayer) (has_flag t kAdditionalTags) (has_flag t kNoValue) = t"
  using flags_determine [of t] by (simp add: flags_determine_def tag_byte_def)

lemma base_byte_of_flags:
  "\<not> has_flag t kMutation \<Longrightarrow> \<not> has_flag t kNewLayer \<Longrightarrow> \<not> has_flag t kAdditionalTags \<Longrightarrow> \<not> has_flag t 0xf0 \<Longrightarrow>
   t = (if has_flag t kNoValue then 2 else 0)"
  using flags_determine [of t] by (simp add: flags_determine_def)

text \<open>The validity check also accepts a base generation in a tag of its own behind the mutations,
  which no operation produces.\<close>

definition open_tags :: "mutation list \<Rightarrow> byte list" where
  "open_tags ms = concat (map (\<lambda>m. tag_byte (fst m) True False # Store64 (snd m)) ms)"

lemma open_tags_simps [simp]:
  "open_tags [] = []" "open_tags (m # ms) = tag_byte (fst m) True False # Store64 (snd m) @ open_tags ms"
  by (simp_all add: open_tags_def)

lemma open_tags_snoc: "open_tags (ms @ [m]) = open_tags ms @ tag_byte (fst m) True False # Store64 (snd m)"
  by (induction ms) simp_all

lemma valid_tags_open: "b \<noteq> Base_unknown \<Longrightarrow> valid_tags (open_tags ms @ encode [] b)"
proof (induction ms)
  case Nil
  then show ?case by (cases b) auto
next
  case (Cons m ms)
  then show ?case by (auto simp del: encode.simps)
qed

lemma Store64_Load64_take: "8 \<le> length s \<Longrightarrow> Store64 (Load64 s) @ drop 8 s = s"
  using Store64_Load64 [of "take 8 s"] by (simp add: Load64_def)

lemma valid_tags_cases:
  "valid_tags g \<Longrightarrow>
     (\<exists>ms b. ms \<noteq> [] \<and> b \<noteq> Base_value [] \<and> g = encode ms b) \<or>
     (\<exists>ms b. b \<noteq> Base_unknown \<and> g = open_tags ms @ encode [] b)"
proof (induction g rule: valid_tags.induct)
  case (2 t s)
  note valid = "2.prems" [unfolded valid_tags.simps Let_def]
  show ?case
  proof (cases "has_flag t kMutation")
    case False
    then have "t = (if has_flag t kNoValue then 2 else 0)" using valid base_byte_of_flags [of t] by (auto split: if_splits)
    then have "t # s = encode [] (if has_flag t kNoValue then Base_no_value else Base_value s)"
      using valid False by (auto split: if_splits)
    then show ?thesis
      by (intro disjI2 exI [of _ "[]"] exI [of _ "if has_flag t kNoValue then Base_no_value else Base_value s"]) auto
  next
    case True
    define m where "m = (has_flag t kNewLayer, Load64 s)"
    have t: "tag_byte (fst m) (has_flag t kAdditionalTags) (has_flag t kNoValue) = t"
      using True valid tag_byte_of_flags [of t] by (auto simp: m_def split: if_splits)
    have "8 \<le> length s" using True valid by (auto split: if_splits)
    then have s: "Store64 (snd m) @ drop 8 s = s" using Store64_Load64_take by (simp add: m_def)
    show ?thesis
    proof (cases "has_flag t kAdditionalTags")
      case False
      define b where "b = (if has_flag t kNoValue then Base_no_value else if drop 8 s = [] then Base_unknown
        else Base_value (drop 8 s))"
      have "base_bytes b = drop 8 s" using True False valid by (auto simp: b_def split: if_splits)
      then have "t # s = encode [m] b" using t s False by (auto simp: b_def)
      then show ?thesis by (intro disjI1 exI [of _ "[m]"] exI [of _ b]) (auto simp: b_def)
    next
      case next_tag: True
      have nv: "\<not> has_flag t kNoValue" and v: "valid_tags (drop 8 s)" using True next_tag valid by (auto split: if_splits)
      have IH: "(\<exists>ms b. ms \<noteq> [] \<and> b \<noteq> Base_value [] \<and> drop 8 s = encode ms b) \<or>
          (\<exists>ms b. b \<noteq> Base_unknown \<and> drop 8 s = open_tags ms @ encode [] b)"
        using "2.IH" True next_tag valid v by (auto split: if_splits)
      then show ?thesis
      proof (elim disjE exE conjE)
        fix ms b
        assume "ms \<noteq> []" "b \<noteq> Base_value []" "drop 8 s = encode ms b"
        then show ?thesis using t s nv next_tag by (intro disjI1 exI [of _ "m # ms"] exI [of _ b]) auto
      next
        fix ms b
        assume "b \<noteq> Base_unknown" "drop 8 s = open_tags ms @ encode [] b"
        then show ?thesis using t s nv next_tag by (intro disjI2 exI [of _ "m # ms"] exI [of _ b]) (auto simp del: encode.simps)
      qed
    qed
  qed
qed simp

lemma IsValid_iff:
  "IsValid g \<longleftrightarrow> (\<exists>ms b. b \<noteq> Base_value [] \<and> g = encode ms b) \<or>
     (\<exists>ms b. ms \<noteq> [] \<and> b \<noteq> Base_unknown \<and> g = open_tags ms @ encode [] b)" (is "_ \<longleftrightarrow> ?C \<or> ?O")
proof
  assume v: "IsValid g"
  show "?C \<or> ?O"
  proof (cases "g = []")
    case True
    then show ?thesis by (intro disjI1 exI [of _ "[]"] exI [of _ Base_unknown]) simp
  next
    case False
    have n0: "g \<noteq> [0]" and t: "valid_tags g" using v False by (auto simp: IsValid_def split: if_splits)
    from valid_tags_cases [OF t] show ?thesis
    proof (elim disjE exE conjE)
      fix ms b
      assume b: "b \<noteq> Base_unknown" "g = open_tags ms @ encode [] b"
      show ?thesis
      proof (cases "ms = []")
        case True
        then have "b \<noteq> Base_value []" using b n0 by auto
        then show ?thesis using True b by (intro disjI1 exI [of _ "[]"] exI [of _ b]) simp
      qed (use b in blast)
    qed blast
  qed
next
  assume "?C \<or> ?O"
  then show "IsValid g"
  proof (elim disjE exE conjE)
    fix ms b
    assume o: "ms \<noteq> []" "b \<noteq> Base_unknown" "g = open_tags ms @ encode [] b"
    then have "length g \<noteq> 1" by (cases ms) auto
    then show ?thesis using o valid_tags_open [of b ms] by (simp add: IsValid_def del: encode.simps)
  qed (use IsValid_encode in auto)
qed

section \<open>The operations on the stack\<close>

lemma parse_base_encode:
  "parse_base_from (p @ encode ms b) (length p) =
     (if ms = [] \<and> b = Base_unknown then None else Some (base_bytes b, length p + 9 * (length ms - 1)))"
proof (induction ms arbitrary: p)
  case Nil
  show ?case by (subst parse_base_from.simps) (auto simp: Let_def split: base_generation.split)
next
  case (Cons m ms)
  show ?case
  proof (cases "ms = []")
    case True
    then show ?thesis by (subst parse_base_from.simps) (auto simp: Let_def nth_append)
  next
    case False
    then obtain n where "length ms = Suc n" by (cases ms) auto
    then show ?thesis
      using Cons.IH [of "p @ tag_byte (fst m) True False # Store64 (snd m)"] False
      by (subst parse_base_from.simps) (auto simp: Let_def nth_append split: if_splits)
  qed
qed

lemma ParseBaseGeneration_encode:
  "ParseBaseGeneration (encode ms b) =
     (if ms = [] \<and> b = Base_unknown then None else Some (base_bytes b, 9 * (length ms - 1)))"
  using parse_base_encode [of "[]" ms b] by (simp add: ParseBaseGeneration_def)

text \<open>The last tag, at the offset that the parse returns.\<close>

lemma encode_last_tag:
  "ms \<noteq> [] \<Longrightarrow> encode ms b ! (9 * (length ms - 1)) = tag_byte (fst (last ms)) False (b = Base_no_value)"
proof (induction ms)
  case (Cons m ms)
  then show ?case by (cases ms) (auto simp: nth_append)
qed simp

lemma encode_update_last_tag:
  "ms \<noteq> [] \<Longrightarrow> (encode ms Base_unknown)[9 * (length ms - 1) := tag_byte (fst (last ms)) a v] =
     open_tags (butlast ms) @ tag_byte (fst (last ms)) a v # Store64 (snd (last ms))"
proof (induction ms)
  case (Cons m ms)
  then show ?case by (cases ms) (auto simp: list_update_append)
qed simp

lemma encode_open_tags: "ms' \<noteq> [] \<Longrightarrow> encode (ms @ ms') b = open_tags ms @ encode ms' b"
  by (induction ms) auto

lemma BaseGeneration_encode:
  "BaseGeneration (encode ms b) = (case b of Base_unknown \<Rightarrow> Some [] | Base_no_value \<Rightarrow> None | Base_value v \<Rightarrow> Some v)"
proof (cases "ms = []")
  case True
  then show ?thesis using ParseBaseGeneration_encode [of "[]" b]
    by (cases b) (simp_all add: BaseGeneration_def)
next
  case False
  then show ?thesis using encode_last_tag [of ms b]
    by (cases b) (simp_all add: BaseGeneration_def ParseBaseGeneration_encode)
qed

lemma encode_base_suffix: "ms \<noteq> [] \<Longrightarrow> drop (length (encode ms b) - length (base_bytes b)) (encode ms b) = base_bytes b"
proof -
  assume "ms \<noteq> []"
  then have "\<exists>p. encode ms b = p @ base_bytes b"
  proof (induction ms)
    case (Cons m ms)
    then show ?case
    proof (cases "ms = []")
      case True
      then show ?thesis by (auto intro: exI [of _ "tag_byte (fst m) False (b = Base_no_value) # Store64 (snd m)"])
    next
      case False
      then obtain p where "encode ms b = p @ base_bytes b" using Cons by auto
      then show ?thesis using False by (auto intro: exI [of _ "tag_byte (fst m) True False # Store64 (snd m) @ p"])
    qed
  qed simp
  then show ?thesis by auto
qed

lemma Clean_encode: "b \<noteq> Base_value [] \<Longrightarrow> Clean (encode ms b) = encode [] b"
proof (cases ms)
  case Nil
  then show ?thesis by (auto simp: Clean_def split: base_generation.split)
next
  case (Cons m ms')
  assume "b \<noteq> Base_value []"
  then show ?thesis using encode_base_suffix [of ms b] BaseGeneration_encode [of ms b] Cons
    by (cases b) (auto simp: Clean_def NoValue_eq)
qed

lemma MarkDirty_encode: "MarkDirty (encode ms b) i = encode ((False, i) # ms) b"
proof (cases ms)
  case Nil
  then show ?thesis by (auto simp: MarkDirty_def tag_byte_updates split: base_generation.split) (simp_all add: kMutation_tag)
qed (auto simp: MarkDirty_def tag_byte_updates)

lemma StripTag_encode: "b \<noteq> Base_value [] \<Longrightarrow> StripTag (encode ms b) = encode (tl ms) b"
  by (cases ms; cases b) (auto simp: StripTag_def NoValue_eq Suc_le_eq numeral_eq_Suc)

lemma AddLayer_encode: "AddLayer (encode ms b) = encode (add_layer ms) b"
  by (cases ms) (auto simp: AddLayer_def add_layer_def tag_byte_updates split: base_generation.split)

lemma strip_layer_encode:
  "ms \<noteq> [] \<Longrightarrow> b \<noteq> Base_value [] \<Longrightarrow> strip_layer_from (p @ encode ms b) (length p) = encode (strip_layer ms) b"
proof (induction ms arbitrary: p)
  case (Cons m ms)
  show ?case
  proof (cases "fst m \<or> ms = []")
    case True
    then show ?thesis using Cons.prems
      by (subst strip_layer_from.simps) (cases b; auto simp: Let_def nth_append strip_layer_def tag_byte_updates NoValue_eq)
  next
    case False
    then show ?thesis using Cons.IH [of "p @ tag_byte (fst m) True False # Store64 (snd m)"] Cons.prems
      by (subst strip_layer_from.simps) (auto simp: Let_def nth_append strip_layer_def)
  qed
qed simp

lemma StripLayer_encode: "b \<noteq> Base_value [] \<Longrightarrow> StripLayer (encode ms b) = encode (strip_layer ms) b"
proof (cases ms)
  case Nil
  then show ?thesis by (subst StripLayer_def, subst strip_layer_from.simps) (cases b; auto simp: Let_def strip_layer_def)
qed (use strip_layer_encode [of ms b "[]"] in \<open>simp add: StripLayer_def\<close>)

lemma Condition_encode:
  assumes "b \<noteq> Base_value []" "b' \<noteq> Base_value []"
  shows "Condition (encode ms b) (encode ms' b') =
     (if b = Base_unknown then encode (ms @ add_layer (strip_layer ms')) b' else encode ms b)"
proof -
  define cs where "cs = add_layer (strip_layer ms')"
  have c: "AddLayer (StripLayer (encode ms' b')) = encode cs b'"
    by (simp add: StripLayer_encode [OF assms(2)] AddLayer_encode cs_def)
  have nil: "strip_layer [] = []" "add_layer [] = []" by (simp_all add: strip_layer_def add_layer_def)
  show ?thesis
  proof (cases "ms = [] \<or> b \<noteq> Base_unknown")
    case True
    then show ?thesis using encode_last_tag [of ms b] ParseBaseGeneration_encode [of "[]" b] c assms
      by (cases "ms = []"; cases b) (auto simp: Condition_def ParseBaseGeneration_encode cs_def nil)
  next
    case False
    then have split: "ms = butlast ms @ [last ms]" by simp
    have upd: "encode ms Base_unknown ! (9 * (length ms - 1)) = tag_byte (fst (last ms)) False False"
      using encode_last_tag [of ms Base_unknown] False by simp
    have opened: "open_tags (butlast ms) @ tag_byte (fst (last ms)) True False # Store64 (snd (last ms)) = open_tags ms"
      using split by (metis open_tags_snoc)
    have closed: "encode ms b' = open_tags (butlast ms) @ tag_byte (fst (last ms)) False (b' = Base_no_value) #
        Store64 (snd (last ms)) @ base_bytes b'"
      using encode_open_tags [of "[last ms]" "butlast ms" b'] split by simp
    have cond: "Condition (encode ms Base_unknown) (encode ms' b') =
       (if encode cs b' = [] then encode ms Base_unknown
        else if has_flag (encode cs b' ! 0) kMutation
        then (encode ms Base_unknown)[9 * (length ms - 1) := tag_byte (fst (last ms)) True False] @ encode cs b'
        else (encode ms Base_unknown)[9 * (length ms - 1) := tag_byte (fst (last ms)) False False OR encode cs b' ! 0] @
          drop 1 (encode cs b'))"
    proof (cases "encode ms' b' = []")
      case True
      then have "cs = []" "b' = Base_unknown" by (simp_all add: cs_def nil)
      then show ?thesis using False True by (simp add: Condition_def)
    next
      case ne: False
      have "encode ms Base_unknown \<noteq> []" using False by simp
      then show ?thesis using ne False upd
        by (simp add: Condition_def ParseBaseGeneration_encode tag_byte_updates c Let_def del: encode_eq_Nil)
    qed
    show ?thesis
    proof (cases cs)
      case Nil
      have "Condition (encode ms Base_unknown) (encode ms' b') = encode ms b'"
        using False cond closed encode_update_last_tag [of ms False] Nil
        by (cases b') (auto simp: tag_byte_updates tag_byte_updates(7) [unfolded kNoValue_def])
      then show ?thesis using False Nil by (simp add: cs_def [symmetric])
    next
      case (Cons m cs')
      have "Condition (encode ms Base_unknown) (encode ms' b') = encode (ms @ cs) b'"
        using False cond encode_update_last_tag [of ms True False] opened encode_open_tags [of cs ms b'] Cons by simp
      then show ?thesis using False by (simp add: cs_def [symmetric])
    qed
  qed
qed

lemma layer_bit_of_base:
  "2 OR kNewLayer = 10" "kNewLayer \<noteq> 10" "kNewLayer \<noteq> tag_byte l a v" "10 \<noteq> tag_byte l a v"
  "0 \<noteq> tag_byte l a v" "2 \<noteq> tag_byte l a v"
  by (cases l; cases a; cases v; simp add: tag_byte_def indicator_defs)+

lemma encode_add_layer:
  assumes "encode ms b = h # t"
  obtains "ms = []" "h = 0 \<or> h = 2" "encode (add_layer ms) b = h # t"
  | l a v where "ms \<noteq> []" "h = tag_byte l a v" "encode (add_layer ms) b = tag_byte True a v # t"
proof (cases ms)
  case Nil
  then show thesis using assms that(1) by (cases b) (auto simp: add_layer_def)
next
  case (Cons m ms')
  then show thesis using assms that(2) [of "fst m" "ms' \<noteq> []" "ms' = [] \<and> b = Base_no_value"]
    by (auto simp: add_layer_def)
qed

lemma Equivalent_add_layer:
  "Equivalent (encode ms b) (encode ms' b') \<longleftrightarrow> encode (add_layer ms) b = encode (add_layer ms') b'"
proof (cases "encode ms b = [] \<or> encode ms' b' = []")
  case True
  have nil: "add_layer ms = [] \<longleftrightarrow> ms = []" for ms by (auto simp: add_layer_def split: list.split)
  from True have "Equivalent (encode ms b) (encode ms' b') \<longleftrightarrow> (ms = [] \<and> b = Base_unknown) = (ms' = [] \<and> b' = Base_unknown)"
    unfolding Equivalent_def by (metis encode_eq_Nil)
  also have "\<dots> \<longleftrightarrow> encode (add_layer ms) b = encode (add_layer ms') b'"
    using True encode_eq_Nil [of "add_layer ms" b] encode_eq_Nil [of "add_layer ms'" b'] nil by (metis encode_eq_Nil)
  finally show ?thesis .
next
  case False
  then obtain h t h' t' where e: "encode ms b = h # t" "encode ms' b' = h' # t'" by (meson neq_Nil_conv)
  then show ?thesis
    by (cases rule: encode_add_layer [OF e(1)]; cases rule: encode_add_layer [OF e(2)])
      (auto simp: Equivalent_def tag_byte_updates layer_bit_of_base layer_bit_of_base(2-6) [symmetric])
qed

lemma Equivalent_encode:
  assumes "b \<noteq> Base_value []" "b' \<noteq> Base_value []"
  shows "Equivalent (encode ms b) (encode ms' b') \<longleftrightarrow> add_layer ms = add_layer ms' \<and> b = b'"
  unfolding Equivalent_add_layer by (rule iffI, erule encode_inject [OF assms]) simp

text \<open>The tests on the first byte.\<close>

lemma IsDirty_encode: "IsDirty (encode ms b) \<longleftrightarrow> ms \<noteq> []"
  by (cases ms) (auto simp: IsDirty_def split: base_generation.split)

lemma IsClean_encode: "IsClean (encode ms b) \<longleftrightarrow> ms = [] \<and> b \<noteq> Base_unknown"
  by (cases ms) (auto simp: IsClean_def split: base_generation.split)

lemma IsInnerLayerDirty_encode: "IsInnerLayerDirty (encode ms b) \<longleftrightarrow> ms \<noteq> [] \<and> \<not> fst (hd ms)"
proof -
  have "tag_byte l a v AND 12 = 4 \<longleftrightarrow> \<not> l" for l a v
    by (cases l; cases a; cases v) (simp_all add: tag_byte_def)
  then show ?thesis by (cases ms) (auto simp: IsInnerLayerDirty_def indicator_defs split: base_generation.split)
qed

lemma IsConditional_encode: "b \<noteq> Base_value [] \<Longrightarrow> IsConditional (encode ms b) \<longleftrightarrow> b \<noteq> Base_unknown"
  by (auto simp: IsConditional_def BaseGeneration_encode split: base_generation.split)

lemma LastMutatedBy_encode: "LastMutatedBy (encode ms b) i \<longleftrightarrow> (\<exists>l ms'. ms = (l, i) # ms')"
proof (cases ms)
  case Nil
  then show ?thesis by (cases b) (simp_all add: LastMutatedBy_def)
next
  case (Cons m ms')
  have "LastMutatedBy (encode (m # ms') b) i \<longleftrightarrow> snd m = i" by (simp add: LastMutatedBy_def)
  then show ?thesis unfolding Cons by (metis list.inject prod.collapse snd_conv)
qed

lemma IsDirtyOf_encode:
  assumes "b \<noteq> Base_value []" "b' \<noteq> Base_value []"
  shows "IsDirtyOf (encode ms b) (encode ms' b') i \<longleftrightarrow> (\<exists>l. ms = (l, i) # ms') \<and> b = b'"
  using Equivalent_encode [OF assms, of ms "(False, i) # ms'"]
  by (auto simp: IsDirtyOf_def Dirty_def MarkDirty_encode add_layer_def simp del: encode.simps split: list.splits)

text \<open>Base generations made from numbers and from strings; the empty string does not give a valid
  generation.\<close>

lemma ToUint64_FromUint64: "IsUint64 (FromUint64 n) \<and> ToUint64 (FromUint64 n) = n"
  using Load64_Store64 [of n "[]"] by (simp add: ToUint64_def IsUint64_def FromUint64_def)

lemma DecodeString_FromString: "DecodeString (FromString s) = s"
  by (simp add: DecodeString_def FromString_def)

lemma FromString_encode: "FromString s = encode [] (Base_value s)"
  by (simp add: FromString_def)

lemma IsValid_FromString: "IsValid (FromString s) \<longleftrightarrow> s \<noteq> []"
  by (auto simp: FromString_def IsValid_def)

text \<open>\<open>Clean\<close> is the fixed point of \<open>StripTag\<close>.\<close>

lemma Clean_StripTag: "b \<noteq> Base_value [] \<Longrightarrow> (StripTag ^^ length ms) (encode ms b) = Clean (encode ms b)"
proof (induction ms)
  case (Cons m ms)
  then show ?case by (simp add: funpow_swap1 StripTag_encode Clean_encode del: encode.simps)
qed (simp add: Clean_encode del: encode.simps)

section \<open>Allocation of mutation identifiers\<close>

text \<open>The atomic counter of the process and the pair of bounds of the current block of every thread. Only
  the increment of the counter touches shared state, so an execution is a sequence of calls, each with the
  thread that makes it.\<close>

record mutation_ids =
  global_mutation_id :: uint64
  per_thread_mutation_id :: "nat \<Rightarrow> uint64 \<times> uint64"

definition initial_mutation_ids :: mutation_ids where
  "initial_mutation_ids = \<lparr>global_mutation_id = 1, per_thread_mutation_id = (\<lambda>t. (0, 0))\<rparr>"

definition kBlockSize :: uint64 where "kBlockSize = 1024"

definition AllocateMutationId :: "nat \<Rightarrow> mutation_ids \<Rightarrow> mutation_id \<times> mutation_ids" where
  "AllocateMutationId t st =
     (if fst (per_thread_mutation_id st t) = snd (per_thread_mutation_id st t)
      then let start = global_mutation_id st
           in (start, \<lparr>global_mutation_id = start + kBlockSize,
                       per_thread_mutation_id = (per_thread_mutation_id st)(t := (start + 1, start + kBlockSize))\<rparr>)
      else let i = fst (per_thread_mutation_id st t)
           in (i, st\<lparr>per_thread_mutation_id := (per_thread_mutation_id st)
                       (t := (i + 1, snd (per_thread_mutation_id st t)))\<rparr>))"

fun allocate_ids :: "nat list \<Rightarrow> mutation_ids \<Rightarrow> mutation_id list" where
  "allocate_ids [] st = []"
| "allocate_ids (t # ts) st = (case AllocateMutationId t st of (i, st') \<Rightarrow> i # allocate_ids ts st')"

text \<open>The identifiers that thread \<open>t\<close> still has to hand out.\<close>

definition reserved_ids :: "mutation_ids \<Rightarrow> nat \<Rightarrow> mutation_id set" where
  "reserved_ids st t = {i. fst (per_thread_mutation_id st t) \<le> i \<and> i < snd (per_thread_mutation_id st t)}"

definition ids_invariant :: "mutation_id set \<Rightarrow> mutation_ids \<Rightarrow> bool" where
  "ids_invariant issued st \<longleftrightarrow>
     0 \<notin> issued \<and> (\<forall>i \<in> issued. i < global_mutation_id st) \<and> 0 < global_mutation_id st \<and>
     (\<forall>t. fst (per_thread_mutation_id st t) \<le> snd (per_thread_mutation_id st t) \<and>
          snd (per_thread_mutation_id st t) \<le> global_mutation_id st) \<and>
     (\<forall>t. \<forall>i \<in> reserved_ids st t. i \<noteq> 0 \<and> i \<notin> issued \<and> (\<forall>t'. i \<in> reserved_ids st t' \<longrightarrow> t' = t))"

lemma word_block:
  assumes "unat g + 1024 < 2 ^ 64"
  shows "(g :: uint64) < g + kBlockSize \<and> g + 1 \<le> g + kBlockSize \<and> g < g + 1 \<and> unat (g + kBlockSize) = unat g + 1024"
  using assms unat_add_lem [of g kBlockSize] unat_add_lem [of g 1]
  by (auto simp: kBlockSize_def word_less_nat_alt word_le_nat_alt)

lemma AllocateMutationId_invariant:
  assumes inv: "ids_invariant issued st" and room: "unat (global_mutation_id st) + 1024 < 2 ^ 64"
    and alloc: "AllocateMutationId t st = (i, st')"
  shows "i \<notin> issued \<and> i \<noteq> 0 \<and> ids_invariant (insert i issued) st' \<and>
    unat (global_mutation_id st') \<le> unat (global_mutation_id st) + 1024"
proof -
  define g where "g = global_mutation_id st"
  define a b where ab: "a = fst (per_thread_mutation_id st t)" "b = snd (per_thread_mutation_id st t)"
  have g: "g < g + kBlockSize" "g + 1 \<le> g + kBlockSize" "g < g + 1" "unat (g + kBlockSize) = unat g + 1024"
    using word_block [of g] room by (auto simp: g_def)
  have I: "0 \<notin> issued" "0 < g" "\<And>j. j \<in> issued \<Longrightarrow> j < g"
    and B: "\<And>t'. fst (per_thread_mutation_id st t') \<le> snd (per_thread_mutation_id st t')"
      "\<And>t'. snd (per_thread_mutation_id st t') \<le> g"
    and R: "\<And>t' j. j \<in> reserved_ids st t' \<Longrightarrow> j \<noteq> 0 \<and> j \<notin> issued"
      "\<And>t' t'' j. j \<in> reserved_ids st t' \<Longrightarrow> j \<in> reserved_ids st t'' \<Longrightarrow> t'' = t'"
    using inv unfolding ids_invariant_def g_def by blast+
  have below: "j < g" if "j \<in> reserved_ids st t'" for j t' using B(2) [of t'] that by (auto simp: reserved_ids_def)
  show ?thesis
  proof (cases "a = b")
    case True
    have st': "i = g" "global_mutation_id st' = g + kBlockSize"
      "per_thread_mutation_id st' = (per_thread_mutation_id st)(t := (g + 1, g + kBlockSize))"
      using alloc True by (auto simp: AllocateMutationId_def ab g_def Let_def)
    have "reserved_ids st' t' = (if t' = t then {j. g + 1 \<le> j \<and> j < g + kBlockSize} else reserved_ids st t')" for t'
      by (simp add: st' reserved_ids_def)
    moreover have "j \<noteq> 0 \<and> j \<notin> insert g issued \<and> j \<notin> reserved_ids st t'" if "g + 1 \<le> j" for j t'
      using order.strict_trans2 [OF g(3) that] I(2,3) below by force
    moreover have "g \<notin> reserved_ids st t'" for t' using below [of g t'] by auto
    moreover have "j < g + kBlockSize" if "j \<le> g" for j using that g(1) by (rule order.strict_trans1)
    ultimately have "ids_invariant (insert i issued) st'"
      using I B R below g unfolding ids_invariant_def st' by (auto simp: less_imp_le)
    then show ?thesis using I g st' by (auto simp: g_def)
  next
    case False
    then have "a < b" using B(1) [of t] by (simp add: ab order_le_less)
    then have "a \<noteq> - 1" by auto
    then have a: "a + 1 \<le> b" "a < j \<longleftrightarrow> a + 1 \<le> j" for j
      using inc_le [OF \<open>a < b\<close>] by (simp_all add: inc_less_eq_iff)
    have st': "i = a" "global_mutation_id st' = g" "per_thread_mutation_id st' = (per_thread_mutation_id st)(t := (a + 1, b))"
      using alloc False by (auto simp: AllocateMutationId_def ab g_def Let_def)
    have "a + 1 \<le> j \<and> j < b \<longleftrightarrow> a \<le> j \<and> j < b \<and> j \<noteq> a" for j unfolding a(2) [symmetric] by auto
    then have r: "reserved_ids st' t' = (if t' = t then reserved_ids st t - {a} else reserved_ids st t')" for t'
      by (auto simp: st' reserved_ids_def ab [symmetric])
    have m: "a \<in> reserved_ids st t" using \<open>a < b\<close> by (simp add: reserved_ids_def ab [symmetric])
    have "b \<le> g" "a < g" "a \<notin> issued" "a \<noteq> 0" using B(2) [of t] below [OF m] R(1) [OF m] by (simp_all add: ab)
    moreover from this have "ids_invariant (insert i issued) st'"
      using I B R R(2) [OF m] R(1) [of 0] a(1) unfolding ids_invariant_def st' r by (auto simp: ab [symmetric])
    ultimately show ?thesis using st' by (simp add: g_def)
  qed
qed

lemma allocate_ids_unique:
  "ids_invariant issued st \<Longrightarrow> unat (global_mutation_id st) + 1024 * length ts < 2 ^ 64 \<Longrightarrow>
   distinct (allocate_ids ts st) \<and> 0 \<notin> set (allocate_ids ts st) \<and> set (allocate_ids ts st) \<inter> issued = {}"
proof (induction ts arbitrary: issued st)
  case (Cons t ts)
  obtain i st' where alloc: "AllocateMutationId t st = (i, st')" by fastforce
  have "i \<notin> issued" "i \<noteq> 0" "ids_invariant (insert i issued) st'"
    "unat (global_mutation_id st') \<le> unat (global_mutation_id st) + 1024"
    using AllocateMutationId_invariant [OF Cons.prems(1) _ alloc] Cons.prems(2) by auto
  then show ?case using Cons.IH [of "insert i issued" st'] Cons.prems(2) by (auto simp: alloc)
qed simp

lemma ids_invariant_initial: "ids_invariant {} initial_mutation_ids"
  by (simp add: ids_invariant_def initial_mutation_ids_def reserved_ids_def)

section \<open>Properties\<close>

text \<open>C24: \<open>IsValid\<close> accepts the encodings of stacks of mutations over a base generation, and besides them
  only strings that have the base generation in a tag of its own behind the mutations; the encoding
  determines the stack and the base generation.\<close>

theorem generation_validity:
  "(IsValid g \<longleftrightarrow> (\<exists>ms b. b \<noteq> Base_value [] \<and> g = encode ms b) \<or>
     (\<exists>ms b. ms \<noteq> [] \<and> b \<noteq> Base_unknown \<and> g = open_tags ms @ encode [] b)) \<and>
   (b \<noteq> Base_value [] \<longrightarrow> decode (encode ms b) = (ms, b))"
  using IsValid_iff [of g] decode_encode by blast

theorem generation_validity_witness:
  "decode (encode [(True, 3), (False, 7)] (Base_value [1])) = ([(True, 3), (False, 7)], Base_value [1])"
  using generation_validity [of "[]" "Base_value [1]" "[(True, 3), (False, 7)]"] by simp

text \<open>C23: the operations on storage generations are the operations on stacks of mutations: \<open>MarkDirty\<close>
  pushes a mutation and \<open>StripTag\<close> pops it, \<open>Clean\<close> leaves the base generation, \<open>AddLayer\<close> marks the
  latest mutation as the start of a layer, \<open>StripLayer\<close> pops the mutations of the latest layer and
  its mark, \<open>Condition\<close> puts a generation without a base on top of another one of which the latest
  layer is stripped, \<open>Equivalent\<close> compares up to the mark of the latest mutation, and the tests read
  the stack.\<close>

theorem generation_operations_refine:
  assumes "b \<noteq> Base_value []" and "b' \<noteq> Base_value []"
  shows "MarkDirty (encode ms b) i = encode ((False, i) # ms) b \<and>
    StripTag (encode ms b) = encode (tl ms) b \<and>
    Clean (encode ms b) = encode [] b \<and>
    AddLayer (encode ms b) = encode (add_layer ms) b \<and>
    StripLayer (encode ms b) = encode (strip_layer ms) b \<and>
    Condition (encode ms b) (encode ms' b') =
      (if b = Base_unknown then encode (ms @ add_layer (strip_layer ms')) b' else encode ms b) \<and>
    (Equivalent (encode ms b) (encode ms' b') \<longleftrightarrow> add_layer ms = add_layer ms' \<and> b = b') \<and>
    (IsDirtyOf (encode ms b) (encode ms' b') i \<longleftrightarrow> (\<exists>l. ms = (l, i) # ms') \<and> b = b') \<and>
    (LastMutatedBy (encode ms b) i \<longleftrightarrow> (\<exists>l ms'. ms = (l, i) # ms')) \<and>
    (IsDirty (encode ms b) \<longleftrightarrow> ms \<noteq> []) \<and> (IsClean (encode ms b) \<longleftrightarrow> ms = [] \<and> b \<noteq> Base_unknown) \<and>
    (IsInnerLayerDirty (encode ms b) \<longleftrightarrow> ms \<noteq> [] \<and> \<not> fst (hd ms)) \<and>
    (IsConditional (encode ms b) \<longleftrightarrow> b \<noteq> Base_unknown)"
  by (intro conjI MarkDirty_encode StripTag_encode [OF assms(1)] Clean_encode [OF assms(1)] AddLayer_encode
      StripLayer_encode [OF assms(1)] Condition_encode [OF assms] Equivalent_encode [OF assms] IsDirtyOf_encode [OF assms]
      LastMutatedBy_encode IsDirty_encode IsClean_encode IsInnerLayerDirty_encode IsConditional_encode [OF assms(1)])

theorem generation_operations_refine_witness:
  "Condition (encode [(False, 3)] Base_unknown) (encode [(False, 2), (True, 1)] (Base_value [65])) =
   encode [(False, 3), (True, 1)] (Base_value [65])"
  using generation_operations_refine [of Base_unknown "Base_value [65]" "[(False, 3)]" 0 "[(False, 2), (True, 1)]"]
  by (simp add: add_layer_def strip_layer_def)

text \<open>C25: the mutation identifiers that the threads of a process allocate, in any interleaving, are
  pairwise distinct and none is the identifier reserved for deletions, as long as the 64-bit counter
  does not wrap around.\<close>

theorem mutation_ids_unique:
  assumes "1024 * length ts < 2 ^ 64 - 1"
  shows "distinct (allocate_ids ts initial_mutation_ids) \<and>
    kDeletionMutationId \<notin> set (allocate_ids ts initial_mutation_ids)"
proof -
  have "unat (global_mutation_id initial_mutation_ids) = 1" by (simp add: initial_mutation_ids_def)
  then show ?thesis using allocate_ids_unique [OF ids_invariant_initial, of ts] assms by (simp add: kDeletionMutationId_def)
qed

theorem mutation_ids_unique_witness:
  "allocate_ids [0, 1, 0, 1] initial_mutation_ids = [1, 1025, 2, 1026] \<and>
   distinct (allocate_ids [0, 1, 0, 1] initial_mutation_ids)"
  using mutation_ids_unique [of "[0, 1, 0, 1]"]
  by (simp add: AllocateMutationId_def initial_mutation_ids_def kBlockSize_def Let_def)

end
