(* ===== verification/Byte_Range.thy ===== *)
theory Byte_Range
  imports Generation "HOL-Library.Product_Lexorder" "HOL-Library.Multiset"
begin

text \<open>
  \<^verbatim>\<open>kvstore/byte_range.h\<close>, \<^verbatim>\<open>byte_range.cc\<close>, \<^verbatim>\<open>kvstore/read_result.h\<close>, the generation conditions of
  \<^verbatim>\<open>kvstore/operations.h\<close> and \<^verbatim>\<open>kvstore/batch_util.h\<close>: requests for ranges of bytes of a value, and the
  coalescing of the requests of a batch into fewer reads. Offsets are \<^verbatim>\<open>int64_t\<close> values, here \<open>int\<close>: all
  sums and differences of the code are between non-negative offsets, or add a size to a
  negative one, and stay in range. A promise is a number; fulfilling it is a pair of the
  promise and its result.
\<close>

section \<open>byte\_range.h and byte\_range.cc\<close>

type_synonym bytes = "byte list"

text \<open>A status is its code and the operating system error it was made from, if any.\<close>

type_synonym status = "status_code \<times> int option"

record byte_range =
  br_inclusive_min :: int
  br_exclusive_max :: int

definition SatisfiesInvariants_range :: "byte_range \<Rightarrow> bool" where
  "SatisfiesInvariants_range r \<longleftrightarrow>
     br_inclusive_min r \<ge> 0 \<and> br_exclusive_max r \<ge> 0 \<and> br_exclusive_max r \<ge> br_inclusive_min r"

definition range_size :: "byte_range \<Rightarrow> int" where
  "range_size r = br_exclusive_max r - br_inclusive_min r"

text \<open>The same two members; a negative lower bound counts from the end of the value, and -1 as the upper
  bound stands for the end.\<close>

type_synonym OptionalByteRangeRequest = byte_range

definition full_byte_range :: OptionalByteRangeRequest where
  "full_byte_range = \<lparr>br_inclusive_min = 0, br_exclusive_max = - 1\<rparr>"

definition IsFull :: "OptionalByteRangeRequest \<Rightarrow> bool" where
  "IsFull r \<longleftrightarrow> br_inclusive_min r = 0 \<and> br_exclusive_max r = - 1"

definition IsRange :: "OptionalByteRangeRequest \<Rightarrow> bool" where
  "IsRange r \<longleftrightarrow> br_exclusive_max r \<noteq> - 1"

definition IsSuffixLength :: "OptionalByteRangeRequest \<Rightarrow> bool" where
  "IsSuffixLength r \<longleftrightarrow> br_inclusive_min r < 0"

definition IsSuffix :: "OptionalByteRangeRequest \<Rightarrow> bool" where
  "IsSuffix r \<longleftrightarrow> br_exclusive_max r = - 1 \<and> br_inclusive_min r > 0"

definition IsStat :: "OptionalByteRangeRequest \<Rightarrow> bool" where
  "IsStat r \<longleftrightarrow> br_inclusive_min r = 0 \<and> br_exclusive_max r = 0"

definition Range_request :: "int \<Rightarrow> int \<Rightarrow> OptionalByteRangeRequest" where
  "Range_request lo hi = \<lparr>br_inclusive_min = lo, br_exclusive_max = hi\<rparr>"

definition SuffixLength :: "int \<Rightarrow> OptionalByteRangeRequest" where
  "SuffixLength n = \<lparr>br_inclusive_min = - n, br_exclusive_max = - 1\<rparr>"

definition Suffix :: "int \<Rightarrow> OptionalByteRangeRequest" where
  "Suffix lo = \<lparr>br_inclusive_min = lo, br_exclusive_max = - 1\<rparr>"

definition Stat :: OptionalByteRangeRequest where
  "Stat = \<lparr>br_inclusive_min = 0, br_exclusive_max = 0\<rparr>"

definition request_size :: "OptionalByteRangeRequest \<Rightarrow> int" where
  "request_size r =
     (if br_inclusive_min r < 0 then - br_inclusive_min r
      else if br_exclusive_max r \<noteq> - 1 then br_exclusive_max r - br_inclusive_min r else - 1)"

definition SatisfiesInvariants :: "OptionalByteRangeRequest \<Rightarrow> bool" where
  "SatisfiesInvariants r \<longleftrightarrow>
     br_exclusive_max r = - 1 \<or> br_exclusive_max r \<ge> br_inclusive_min r \<and> br_inclusive_min r \<ge> 0"

definition Validate :: "OptionalByteRangeRequest \<Rightarrow> int \<Rightarrow> status + byte_range" where
  "Validate r n =
     (let exclusive_max = (if br_exclusive_max r = - 1 then n else br_exclusive_max r);
          inclusive_min = (if br_inclusive_min r < 0 then br_inclusive_min r + n else br_inclusive_min r)
      in if inclusive_min < 0 \<or> exclusive_max > n \<or> inclusive_min > exclusive_max then Inl (OutOfRange, None)
         else Inr \<lparr>br_inclusive_min = inclusive_min, br_exclusive_max = exclusive_max\<rparr>)"

text \<open>\<^verbatim>\<open>absl::Cord::Subcord\<close> clamps its arguments to the cord.\<close>

definition Subcord :: "bytes \<Rightarrow> int \<Rightarrow> int \<Rightarrow> bytes" where
  "Subcord s pos n = take (nat n) (drop (nat pos) s)"

definition GetSubCord :: "bytes \<Rightarrow> byte_range \<Rightarrow> bytes" where
  "GetSubCord s r =
     (if br_inclusive_min r = 0 \<and> range_size r = int (length s) then s
      else Subcord s (br_inclusive_min r) (range_size r))"

section \<open>read\_result.h and operations.h\<close>

datatype read_state = kUnspecified | kMissing | kValue

text \<open>The stamp is the generation with the time it is current for.\<close>

type_synonym stamp = "storage_generation \<times> int"

record read_result =
  rr_state :: read_state
  rr_value :: bytes
  rr_stamp :: stamp

definition ReadResult_Unspecified :: "stamp \<Rightarrow> read_result" where
  "ReadResult_Unspecified s = \<lparr>rr_state = kUnspecified, rr_value = [], rr_stamp = s\<rparr>"

definition ReadResult_Missing :: "int \<Rightarrow> read_result" where
  "ReadResult_Missing time = \<lparr>rr_state = kMissing, rr_value = [], rr_stamp = (NoValue, time)\<rparr>"

definition ReadResult_Value :: "bytes \<Rightarrow> stamp \<Rightarrow> read_result" where
  "ReadResult_Value v s = \<lparr>rr_state = kValue, rr_value = v, rr_stamp = s\<rparr>"

record read_generation_conditions =
  if_not_equal :: storage_generation
  if_equal :: storage_generation

definition Matches :: "read_generation_conditions \<Rightarrow> storage_generation \<Rightarrow> bool" where
  "Matches c g \<longleftrightarrow>
     \<not> Equivalent g (if_not_equal c) \<and> (IsUnknown (if_equal c) \<or> Equivalent g (if_equal c))"

section \<open>batch\_util.h\<close>

type_synonym promise = nat
type_synonym fulfilled = "promise \<times> (status + read_result)"

text \<open>The functions are templates over the type of requests, which has at least these two members:
  the record is open.\<close>

record request =
  req_promise :: promise
  req_byte_range :: OptionalByteRangeRequest

record generation_request = request +
  req_generation_conditions :: read_generation_conditions

definition SetCommonResult :: "(promise \<Rightarrow> bool) \<Rightarrow> 'a request_scheme list \<Rightarrow> status + read_result \<Rightarrow> fulfilled list" where
  "SetCommonResult result_needed requests result =
     (case requests of
        [] \<Rightarrow> []
      | r # rs \<Rightarrow>
          map (\<lambda>r. (req_promise r, result)) (filter (\<lambda>r. result_needed (req_promise r)) rs) @
          (if result_needed (req_promise r) then [(req_promise r, result)] else []))"

definition start_key :: "'a request_scheme \<Rightarrow> int \<times> int" where
  "start_key r = (br_inclusive_min (req_byte_range r), br_exclusive_max (req_byte_range r))"

text \<open>\<^verbatim>\<open>std::sort\<close> leaves the order of equal elements open; here they keep theirs.\<close>

definition SortRequestsByStartByte :: "'a request_scheme list \<Rightarrow> 'a request_scheme list" where
  "SortRequestsByStartByte requests = sort_key start_key requests"

definition resolve_request :: "byte_range \<Rightarrow> read_result \<Rightarrow> 'a request_scheme \<Rightarrow> fulfilled" where
  "resolve_request coalesced read_result r =
     (let br = req_byte_range r;
          inclusive_min = (if br_inclusive_min br \<ge> 0 then br_inclusive_min br
                           else br_exclusive_max coalesced + br_inclusive_min br);
          exclusive_max = (if br_exclusive_max br = - 1 then br_exclusive_max coalesced else br_exclusive_max br)
      in (req_promise r,
          if rr_state read_result = kValue
          then (if inclusive_min = exclusive_max
                then Inr \<lparr>rr_state = kValue, rr_value = [], rr_stamp = rr_stamp read_result\<rparr>
                else if inclusive_min < br_inclusive_min coalesced \<or> exclusive_max > br_exclusive_max coalesced \<or>
                        inclusive_min \<ge> br_exclusive_max coalesced
                then Inl (OutOfRange, None)
                else Inr \<lparr>rr_state = kValue,
                          rr_value = Subcord (rr_value read_result) (inclusive_min - br_inclusive_min coalesced)
                                       (exclusive_max - inclusive_min),
                          rr_stamp = rr_stamp read_result\<rparr>)
          else Inr \<lparr>rr_state = rr_state read_result, rr_value = [], rr_stamp = rr_stamp read_result\<rparr>))"

definition ResolveCoalescedRequests ::
  "byte_range \<Rightarrow> 'a request_scheme list \<Rightarrow> read_result \<Rightarrow> fulfilled list" where
  "ResolveCoalescedRequests coalesced requests read_result = map (resolve_request coalesced read_result) requests"

text \<open>The inner loop of \<^verbatim>\<open>ForEachCoalescedRequest\<close>: the coalesced range, the requests added to it and the
  remaining ones.\<close>

fun coalesce_extend :: "(byte_range \<Rightarrow> int \<Rightarrow> bool) \<Rightarrow> OptionalByteRangeRequest \<Rightarrow> 'a request_scheme list \<Rightarrow>
    OptionalByteRangeRequest \<times> 'a request_scheme list \<times> 'a request_scheme list" where
  "coalesce_extend predicate c [] = (c, [], [])"
| "coalesce_extend predicate c (r # rs) =
     (if br_exclusive_max c = - 1 then (c, r # rs, [])
      else if br_inclusive_min (req_byte_range r) \<ge> br_exclusive_max c \<and>
              \<not> predicate c (br_inclusive_min (req_byte_range r))
      then (c, [], r # rs)
      else
        let c' = (if IsRange (req_byte_range r)
                  then c\<lparr>br_exclusive_max := max (br_exclusive_max c) (br_exclusive_max (req_byte_range r))\<rparr>
                  else c\<lparr>br_exclusive_max := - 1\<rparr>);
            (c'', taken, rest) = coalesce_extend predicate c' rs
        in (c'', r # taken, rest))"

lemma coalesce_extend_append: "coalesce_extend predicate c rs = (c', taken, rest) \<Longrightarrow> rs = taken @ rest"
  by (induction predicate c rs arbitrary: c' taken rest rule: coalesce_extend.induct)
    (auto simp: Let_def split: if_splits prod.splits)

function coalesce_loop :: "(byte_range \<Rightarrow> int \<Rightarrow> bool) \<Rightarrow> 'a request_scheme list \<Rightarrow>
    (OptionalByteRangeRequest \<times> 'a request_scheme list) list" where
  "coalesce_loop predicate [] = []"
| "coalesce_loop predicate (r # rs) =
     (case coalesce_extend predicate (req_byte_range r) rs of
        (c, taken, rest) \<Rightarrow> (c, r # taken) # coalesce_loop predicate rest)"
  by pat_completeness auto
termination
  by (relation "measure (\<lambda>(p, rs). length rs)") (auto dest!: sym [THEN coalesce_extend_append])

text \<open>\<^verbatim>\<open>ForEachCoalescedRequest\<close>: the arguments of the calls of the callback, in order.\<close>

definition ForEachCoalescedRequest :: "'a request_scheme list \<Rightarrow> (byte_range \<Rightarrow> int \<Rightarrow> bool) \<Rightarrow>
    (OptionalByteRangeRequest \<times> 'a request_scheme list) list" where
  "ForEachCoalescedRequest requests predicate =
     (let rs = SortRequestsByStartByte requests;
          suffixes = takeWhile (\<lambda>r. IsSuffixLength (req_byte_range r)) rs;
          others = dropWhile (\<lambda>r. IsSuffixLength (req_byte_range r)) rs
      in if others \<noteq> [] \<and> IsFull (req_byte_range (hd others)) then [(full_byte_range, rs)]
         else (if suffixes \<noteq> [] then [(req_byte_range (hd suffixes), suffixes)] else []) @
              coalesce_loop predicate others)"

definition ValidateRequestGeneration ::
  "(promise \<Rightarrow> bool) \<Rightarrow> 'a generation_request_scheme \<Rightarrow> stamp \<Rightarrow> fulfilled list \<times> bool" where
  "ValidateRequestGeneration result_needed r s =
     (if \<not> result_needed (req_promise r) then ([], False)
      else if \<not> Matches (req_generation_conditions r) (fst s)
      then ([(req_promise r, Inr (ReadResult_Unspecified s))], False)
      else ([], True))"

text \<open>The request that proceeds has the validated byte range.\<close>

definition ValidateRequestGenerationAndByteRange ::
  "(promise \<Rightarrow> bool) \<Rightarrow> 'a generation_request_scheme \<Rightarrow> stamp \<Rightarrow> int \<Rightarrow>
   fulfilled list \<times> 'a generation_request_scheme option" where
  "ValidateRequestGenerationAndByteRange result_needed r s n =
     (case ValidateRequestGeneration result_needed r s of
        (f, False) \<Rightarrow> (f, None)
      | (f, True) \<Rightarrow>
          case Validate (req_byte_range r) n of
            Inl e \<Rightarrow> (f @ [(req_promise r, Inl e)], None)
          | Inr br \<Rightarrow> (f, Some (r\<lparr>req_byte_range := br\<rparr>)))"

definition ValidateGenerationsAndByteRanges ::
  "(promise \<Rightarrow> bool) \<Rightarrow> 'a generation_request_scheme list \<Rightarrow> stamp \<Rightarrow> int \<Rightarrow>
   fulfilled list \<times> 'a generation_request_scheme list" where
  "ValidateGenerationsAndByteRanges result_needed requests s n =
     (let rs = map (\<lambda>r. ValidateRequestGenerationAndByteRange result_needed r s n) requests
      in (concat (map fst rs), concat (map (\<lambda>p. case snd p of None \<Rightarrow> [] | Some r \<Rightarrow> [r]) rs)))"

record coalescing_options =
  max_extra_read_bytes :: int
  target_coalesced_size :: int

definition coalescing_predicate :: "coalescing_options \<Rightarrow> byte_range \<Rightarrow> int \<Rightarrow> bool" where
  "coalescing_predicate opts c next_inclusive_min \<longleftrightarrow>
     next_inclusive_min - br_exclusive_max c \<le> max_extra_read_bytes opts \<and>
     range_size c < target_coalesced_size opts"

definition kDefaultRemoteStorageCoalescingOptions :: coalescing_options where
  "kDefaultRemoteStorageCoalescingOptions =
     \<lparr>max_extra_read_bytes = 4095, target_coalesced_size = 128 * 1024 * 1024\<rparr>"

section \<open>generic\_coalescing\_batch\_util.h\<close>

text \<open>A coalesced read and its continuation; \<open>read\<close> is the read operation of the driver.\<close>

definition ProcessCoalescedRead :: "(promise \<Rightarrow> bool) \<Rightarrow> (byte_range \<Rightarrow> status + read_result) \<Rightarrow>
    byte_range \<Rightarrow> 'a request_scheme list \<Rightarrow> fulfilled list" where
  "ProcessCoalescedRead result_needed read coalesced requests =
     (case read coalesced of
        Inl e \<Rightarrow> SetCommonResult result_needed requests (Inl e)
      | Inr read_result \<Rightarrow> ResolveCoalescedRequests coalesced requests read_result)"

definition GenericProcessBatch :: "(promise \<Rightarrow> bool) \<Rightarrow> (byte_range \<Rightarrow> status + read_result) \<Rightarrow>
    coalescing_options \<Rightarrow> 'a request_scheme list \<Rightarrow> fulfilled list" where
  "GenericProcessBatch result_needed read opts requests =
     concat (map (\<lambda>(c, g). ProcessCoalescedRead result_needed read c g)
       (ForEachCoalescedRequest requests (coalescing_predicate opts)))"

section \<open>Ranges of a value\<close>

text \<open>A byte range inside of a value of size \<open>n\<close>.\<close>

definition range_within :: "int \<Rightarrow> byte_range \<Rightarrow> bool" where
  "range_within n r \<longleftrightarrow> 0 \<le> br_inclusive_min r \<and> br_inclusive_min r \<le> br_exclusive_max r \<and> br_exclusive_max r \<le> n"

lemma GetSubCord_eq:
  assumes "range_within (int (length v)) r"
  shows "GetSubCord v r = Subcord v (br_inclusive_min r) (range_size r)"
  using assms by (auto simp: GetSubCord_def Subcord_def range_within_def)

lemma Validate_within: "Validate r n = Inr br \<Longrightarrow> range_within n br"
  by (auto simp: Validate_def range_within_def Let_def split: if_splits)

lemma Subcord_0 [simp]: "Subcord v a 0 = []"
  by (simp add: Subcord_def)

lemma Subcord_Subcord:
  assumes "0 \<le> a" "a \<le> lo" "lo \<le> hi" "hi \<le> b"
  shows "Subcord (Subcord v a (b - a)) (lo - a) (hi - lo) = Subcord v lo (hi - lo)"
proof -
  have "nat a + nat (lo - a) = nat lo" "nat lo + nat (hi - lo) \<le> nat a + nat (b - a)" using assms by auto
  then show ?thesis by (simp add: Subcord_def take_drop add.commute min_def)
qed

text \<open>The bounds of a request for a value of size \<open>n\<close>.\<close>

definition lo_of :: "int \<Rightarrow> OptionalByteRangeRequest \<Rightarrow> int" where
  "lo_of n r = (if br_inclusive_min r < 0 then br_inclusive_min r + n else br_inclusive_min r)"

definition hi_of :: "int \<Rightarrow> OptionalByteRangeRequest \<Rightarrow> int" where
  "hi_of n r = (if br_exclusive_max r = - 1 then n else br_exclusive_max r)"

definition valid_request :: "int \<Rightarrow> OptionalByteRangeRequest \<Rightarrow> bool" where
  "valid_request n r \<longleftrightarrow> SatisfiesInvariants r \<and> 0 \<le> lo_of n r \<and> lo_of n r \<le> hi_of n r \<and> hi_of n r \<le> n"

definition resolved :: "int \<Rightarrow> OptionalByteRangeRequest \<Rightarrow> byte_range" where
  "resolved n r = \<lparr>br_inclusive_min = lo_of n r, br_exclusive_max = hi_of n r\<rparr>"

lemma resolved_simps [simp]:
  "br_inclusive_min (resolved n r) = lo_of n r" "br_exclusive_max (resolved n r) = hi_of n r"
  by (simp_all add: resolved_def)

lemma Validate_iff: "Validate r n = Inr br \<longleftrightarrow> 0 \<le> lo_of n r \<and> lo_of n r \<le> hi_of n r \<and> hi_of n r \<le> n \<and> br = resolved n r"
  by (auto simp: Validate_def lo_of_def hi_of_def resolved_def Let_def)

lemma Validate_valid: "valid_request n r \<Longrightarrow> Validate r n = Inr (resolved n r)"
  by (simp add: Validate_iff valid_request_def)

lemma resolved_within: "valid_request n r \<Longrightarrow> range_within n (resolved n r)"
  by (simp add: valid_request_def range_within_def resolved_def)

section \<open>Coalesced requests cover their requests\<close>

definition covers :: "int \<Rightarrow> OptionalByteRangeRequest \<Rightarrow> OptionalByteRangeRequest \<Rightarrow> bool" where
  "covers n c r \<longleftrightarrow> lo_of n c \<le> lo_of n r \<and> hi_of n r \<le> hi_of n c \<and>
     (br_inclusive_min r < 0 \<or> br_exclusive_max r = - 1 \<longrightarrow> hi_of n c = n)"

lemma resolve_covered:
  assumes v: "valid_request (int (length v)) c" "valid_request (int (length v)) (req_byte_range r)"
    and c: "covers (int (length v)) c (req_byte_range r)"
  shows "resolve_request (resolved (int (length v)) c) (ReadResult_Value (GetSubCord v (resolved (int (length v)) c)) s) r =
    (req_promise r, Inr (ReadResult_Value (GetSubCord v (resolved (int (length v)) (req_byte_range r))) s))"
proof -
  let ?n = "int (length v)" and ?r = "req_byte_range r"
  have lo: "(if br_inclusive_min ?r \<ge> 0 then br_inclusive_min ?r else hi_of ?n c + br_inclusive_min ?r) = lo_of ?n ?r"
    using c by (auto simp: covers_def lo_of_def)
  have hi: "(if br_exclusive_max ?r = - 1 then hi_of ?n c else br_exclusive_max ?r) = hi_of ?n ?r"
    using c by (auto simp: covers_def hi_of_def)
  have sub: "GetSubCord v (resolved ?n x) = Subcord v (lo_of ?n x) (hi_of ?n x - lo_of ?n x)" if "valid_request ?n x" for x
    using GetSubCord_eq [OF resolved_within [OF that]] by (simp add: resolved_def range_size_def)
  have "Subcord (Subcord v (lo_of ?n c) (hi_of ?n c - lo_of ?n c)) (lo_of ?n ?r - lo_of ?n c) (hi_of ?n ?r - lo_of ?n ?r) =
      Subcord v (lo_of ?n ?r) (hi_of ?n ?r - lo_of ?n ?r)"
    using v c by (intro Subcord_Subcord) (auto simp: valid_request_def covers_def)
  moreover have "lo_of ?n c \<le> lo_of ?n ?r" "lo_of ?n ?r \<le> hi_of ?n ?r" "hi_of ?n ?r \<le> hi_of ?n c"
    using v c by (simp_all add: valid_request_def covers_def)
  ultimately show ?thesis
    unfolding resolve_request_def Let_def resolved_simps lo hi sub [OF v(1)] sub [OF v(2)]
    by (simp add: ReadResult_Value_def)
qed

lemma covers_widen:
  assumes "covers n c r" "br_inclusive_min c' = br_inclusive_min c" "hi_of n c \<le> hi_of n c'" "valid_request n c'"
  shows "covers n c' r"
  using assms unfolding covers_def lo_of_def valid_request_def by auto

lemma coalesce_extend_covers:
  assumes "coalesce_extend p c rs = (c', taken, rest)" "valid_request n c" "0 \<le> br_inclusive_min c"
    and "\<forall>r \<in> set rs. valid_request n (req_byte_range r) \<and> br_inclusive_min c \<le> br_inclusive_min (req_byte_range r)"
  shows "valid_request n c' \<and> br_inclusive_min c' = br_inclusive_min c \<and> hi_of n c \<le> hi_of n c' \<and>
    (br_exclusive_max c = - 1 \<longrightarrow> br_exclusive_max c' = - 1) \<and> (\<forall>r \<in> set taken. covers n c' (req_byte_range r))"
  using assms
proof (induction rs arbitrary: c taken)
  case (Cons r rs)
  let ?r = "req_byte_range r"
  have r: "valid_request n ?r" "br_inclusive_min c \<le> br_inclusive_min ?r" using Cons.prems by auto
  consider "br_exclusive_max c = - 1" | "c' = c" "taken = []" "br_exclusive_max c \<noteq> - 1"
    | c1 t where "br_exclusive_max c \<noteq> - 1" "coalesce_extend p c1 rs = (c', t, rest)" "taken = r # t"
      "c1 = (if IsRange ?r then c\<lparr>br_exclusive_max := max (br_exclusive_max c) (br_exclusive_max ?r)\<rparr>
        else c\<lparr>br_exclusive_max := - 1\<rparr>)"
    using Cons.prems(1) by (auto simp: Let_def split: if_splits prod.splits)
  then show ?case
  proof cases
    case 1
    then have "c' = c" "taken = r # rs" using Cons.prems(1) by auto
    then show ?thesis using Cons.prems 1 by (auto simp: covers_def hi_of_def lo_of_def valid_request_def)
  next
    case 2
    then show ?thesis using Cons.prems by auto
  next
    case 3
    have c1: "valid_request n c1" "br_inclusive_min c1 = br_inclusive_min c" "covers n c1 ?r" "hi_of n c \<le> hi_of n c1"
      using 3(1,4) r Cons.prems(2,3)
      by (auto simp: covers_def hi_of_def lo_of_def valid_request_def IsRange_def SatisfiesInvariants_def)
    have "valid_request n c' \<and> br_inclusive_min c' = br_inclusive_min c1 \<and> hi_of n c1 \<le> hi_of n c' \<and>
        (br_exclusive_max c1 = - 1 \<longrightarrow> br_exclusive_max c' = - 1) \<and> (\<forall>r \<in> set t. covers n c' (req_byte_range r))"
      using Cons.IH [OF 3(2) c1(1)] Cons.prems(3,4) c1(2) by simp
    moreover from this have "covers n c' ?r" using c1(2,3,4) "3"(1) by (blast intro: covers_widen)
    ultimately show ?thesis using "3"(1,3) c1(2,4) by simp
  qed
qed simp

text \<open>The groups of the loop: each coalesced range is valid and covers the requests of its group, and the
  groups contain the requests.\<close>

lemma coalesce_loop_covers:
  assumes "sorted (map start_key rs)" "\<forall>r \<in> set rs. valid_request n (req_byte_range r) \<and> 0 \<le> br_inclusive_min (req_byte_range r)"
  shows "(\<forall>(c, g) \<in> set (coalesce_loop p rs). valid_request n c \<and> (\<forall>r \<in> set g. covers n c (req_byte_range r))) \<and>
    concat (map snd (coalesce_loop p rs)) = rs"
  using assms
proof (induction p rs rule: coalesce_loop.induct)
  case (2 p r rs)
  obtain c taken rest where e: "coalesce_extend p (req_byte_range r) rs = (c, taken, rest)" by (metis prod_cases3)
  have rs: "rs = taken @ rest" by (rule coalesce_extend_append [OF e])
  have le: "br_inclusive_min (req_byte_range r) \<le> br_inclusive_min (req_byte_range r')" if "r' \<in> set rs" for r'
    using "2.prems"(1) that by (auto simp: start_key_def less_eq_prod_def)
  have "valid_request n c" "br_inclusive_min c = br_inclusive_min (req_byte_range r)" "hi_of n (req_byte_range r) \<le> hi_of n c"
    "br_exclusive_max (req_byte_range r) = - 1 \<longrightarrow> br_exclusive_max c = - 1" "\<forall>r \<in> set taken. covers n c (req_byte_range r)"
    using coalesce_extend_covers [OF e, of n] "2.prems"(2) le by auto
  moreover from this have "covers n c (req_byte_range r)" using "2.prems"(2) by (auto simp: covers_def lo_of_def hi_of_def)
  moreover have "sorted (map start_key rest)" "\<forall>r \<in> set rest. valid_request n (req_byte_range r) \<and> 0 \<le> br_inclusive_min (req_byte_range r)"
    using "2.prems" rs by (auto simp: sorted_append)
  moreover have "coalesce_loop p (r # rs) = (c, r # taken) # coalesce_loop p rest" by (simp add: e)
  ultimately show ?case unfolding rs using "2.IH" [OF e [symmetric] refl] by simp
qed simp

lemma ForEachCoalescedRequest_covers:
  assumes valid: "\<forall>r \<in> set requests. valid_request n (req_byte_range r)"
  shows "(\<forall>(c, g) \<in> set (ForEachCoalescedRequest requests p). valid_request n c \<and> (\<forall>r \<in> set g. covers n c (req_byte_range r))) \<and>
    mset (concat (map snd (ForEachCoalescedRequest requests p))) = mset requests"
proof -
  define rs where "rs = SortRequestsByStartByte requests"
  have rs: "mset rs = mset requests" "sorted (map start_key rs)" "set rs = set requests"
    by (simp_all add: rs_def SortRequestsByStartByte_def)
  define suffixes where "suffixes = takeWhile (\<lambda>r. IsSuffixLength (req_byte_range r)) rs"
  define others where "others = dropWhile (\<lambda>r. IsSuffixLength (req_byte_range r)) rs"
  have split: "rs = suffixes @ others" by (simp add: suffixes_def others_def)
  have v: "\<forall>r \<in> set rs. valid_request n (req_byte_range r)" using valid rs(3) by simp
  have le: "br_inclusive_min (req_byte_range x) \<le> br_inclusive_min (req_byte_range y)"
    if "xs @ x # ys = rs" "y \<in> set ys" for x y xs ys
  proof -
    have "sorted (map start_key (xs @ x # ys))" unfolding that(1) by (rule rs(2))
    then show ?thesis using that(2) by (auto simp: sorted_append start_key_def less_eq_prod_def)
  qed
  have others: "0 \<le> br_inclusive_min (req_byte_range r)" if "r \<in> set others" for r
  proof (cases others)
    case (Cons x xs)
    have "0 \<le> br_inclusive_min (req_byte_range x)"
      using dropWhile_eq_Cons_conv [of "\<lambda>r. IsSuffixLength (req_byte_range r)" rs x xs] Cons
      by (simp add: others_def IsSuffixLength_def)
    then show ?thesis using le [of suffixes x xs r] split Cons that by (cases "r = x") auto
  qed (use that in simp)
  have loop: "(\<forall>(c, g) \<in> set (coalesce_loop p others). valid_request n c \<and> (\<forall>r \<in> set g. covers n c (req_byte_range r))) \<and>
      concat (map snd (coalesce_loop p others)) = others"
    using rs(2) v others split by (intro coalesce_loop_covers) (auto simp: sorted_append)
  have each: "ForEachCoalescedRequest requests p =
      (if others \<noteq> [] \<and> IsFull (req_byte_range (hd others)) then [(full_byte_range, rs)]
       else (if suffixes \<noteq> [] then [(req_byte_range (hd suffixes), suffixes)] else []) @ coalesce_loop p others)"
    unfolding ForEachCoalescedRequest_def Let_def rs_def [symmetric] others_def [symmetric] suffixes_def [symmetric] ..
  show ?thesis
  proof (cases "others \<noteq> [] \<and> IsFull (req_byte_range (hd others))")
    case True
    then have "ForEachCoalescedRequest requests p = [(full_byte_range, rs)]"
      unfolding each by (rule if_P)
    moreover have "hd others \<in> set rs" using True split by (metis Un_iff hd_in_set set_append)
    then have "0 \<le> n" using v by (auto simp: valid_request_def)
    then have "valid_request n full_byte_range \<and> (\<forall>r \<in> set rs. covers n full_byte_range (req_byte_range r))"
      using v
      by (auto simp: covers_def full_byte_range_def hi_of_def lo_of_def valid_request_def SatisfiesInvariants_def)
    ultimately show ?thesis using rs(1) by simp
  next
    case False
    have suf: "valid_request n (req_byte_range (hd suffixes)) \<and> (\<forall>r \<in> set suffixes. covers n (req_byte_range (hd suffixes)) (req_byte_range r))"
      if ne: "suffixes \<noteq> []"
    proof -
      have neg: "br_inclusive_min (req_byte_range r) < 0" if "r \<in> set suffixes" for r
        using set_takeWhileD [of r "\<lambda>r. IsSuffixLength (req_byte_range r)" rs] that
        by (simp add: suffixes_def IsSuffixLength_def)
      then have hi: "br_exclusive_max (req_byte_range r) = - 1" if "r \<in> set suffixes" for r
        using that v split by (force simp: valid_request_def SatisfiesInvariants_def)
      have "br_inclusive_min (req_byte_range (hd suffixes)) \<le> br_inclusive_min (req_byte_range r)" if "r \<in> set suffixes" for r
        using le [of "[]" "hd suffixes" "tl suffixes @ others" r] ne split that by (cases suffixes) auto
      then show ?thesis using neg hi ne v split hd_in_set [OF ne] by (auto simp: covers_def lo_of_def hi_of_def)
    qed
    have "ForEachCoalescedRequest requests p =
        (if suffixes \<noteq> [] then [(req_byte_range (hd suffixes), suffixes)] else []) @ coalesce_loop p others"
      unfolding each by (rule if_not_P [OF False])
    then show ?thesis using suf loop rs(1) split by auto
  qed
qed

section \<open>Batches of ranges inside of a value\<close>

lemma coalesce_extend_range:
  assumes "coalesce_extend p c rs = (c', taken, rest)" "0 \<le> br_exclusive_max c"
    and "\<forall>r \<in> set rs. 0 \<le> br_exclusive_max (req_byte_range r)"
  shows "0 \<le> br_exclusive_max c' \<and> br_inclusive_min c' = br_inclusive_min c"
  using assms
proof (induction rs arbitrary: c taken)
  case (Cons r rs)
  let ?c = "c\<lparr>br_exclusive_max := max (br_exclusive_max c) (br_exclusive_max (req_byte_range r))\<rparr>"
  from Cons.prems consider "c' = c" | t where "coalesce_extend p ?c rs = (c', t, rest)"
    by (auto simp: Let_def IsRange_def split: if_splits prod.splits)
  then show ?case
  proof cases
    case 2
    then show ?thesis using Cons.IH [OF 2] Cons.prems by simp
  qed (use Cons.prems in simp)
qed simp

lemma coalesce_loop_range:
  "\<forall>r \<in> set rs. 0 \<le> br_exclusive_max (req_byte_range r) \<and> 0 \<le> br_inclusive_min (req_byte_range r) \<Longrightarrow>
   (c, g) \<in> set (coalesce_loop p rs) \<Longrightarrow> 0 \<le> br_exclusive_max c \<and> 0 \<le> br_inclusive_min c"
proof (induction p rs rule: coalesce_loop.induct)
  case (2 p r rs)
  obtain c' taken rest where e: "coalesce_extend p (req_byte_range r) rs = (c', taken, rest)" by (metis prod_cases3)
  have "set rest \<subseteq> set rs" using coalesce_extend_append [OF e] by auto
  then show ?case
    using "2.IH" [OF e [symmetric] refl] coalesce_extend_range [OF e] "2.prems" by (auto simp: e)
qed simp

text \<open>Requests inside of the value are coalesced to ranges inside of it.\<close>

lemma ForEachCoalescedRequest_within:
  assumes w: "\<forall>r \<in> set requests. range_within n (req_byte_range r)"
    and g: "(c, g) \<in> set (ForEachCoalescedRequest requests p)"
  shows "range_within n c \<and> resolved n c = c"
proof -
  define rs where "rs = SortRequestsByStartByte requests"
  have ok: "\<forall>r \<in> set rs. 0 \<le> br_exclusive_max (req_byte_range r) \<and> 0 \<le> br_inclusive_min (req_byte_range r)"
    using w by (auto simp: rs_def SortRequestsByStartByte_def range_within_def)
  then have tw: "takeWhile (\<lambda>r. IsSuffixLength (req_byte_range r)) rs = []"
    "dropWhile (\<lambda>r. IsSuffixLength (req_byte_range r)) rs = rs"
    by (cases rs; force simp: IsSuffixLength_def)+
  have "\<not> (rs \<noteq> [] \<and> IsFull (req_byte_range (hd rs)))" using ok by (cases rs) (auto simp: IsFull_def)
  then have "(c, g) \<in> set (coalesce_loop p rs)"
    using g unfolding ForEachCoalescedRequest_def Let_def rs_def [symmetric] tw by auto
  then have c: "0 \<le> br_exclusive_max c" "0 \<le> br_inclusive_min c" using coalesce_loop_range [OF ok] by auto
  have "\<forall>r \<in> set requests. valid_request n (req_byte_range r)"
    using w by (auto simp: valid_request_def range_within_def SatisfiesInvariants_def lo_of_def hi_of_def)
  then have "valid_request n c" using ForEachCoalescedRequest_covers [of requests n p] g by auto
  then show ?thesis using c by (auto simp: valid_request_def range_within_def resolved_def lo_of_def hi_of_def)
qed

text \<open>What a reader of a value returns for a range inside of it.\<close>

definition reads_value :: "(byte_range \<Rightarrow> status + read_result) \<Rightarrow> bytes \<Rightarrow> stamp \<Rightarrow> byte_range \<Rightarrow> bool" where
  "reads_value read v s r \<longleftrightarrow> read r = Inr (ReadResult_Value (GetSubCord v r) s)"

lemma resolved_id: "range_within n r \<Longrightarrow> resolved n r = r \<and> valid_request n r"
  by (auto simp: valid_request_def range_within_def SatisfiesInvariants_def resolved_def lo_of_def hi_of_def)

lemma concat_map_cong: "(\<And>x. x \<in> set xs \<Longrightarrow> f x = g x) \<Longrightarrow> concat (map f xs) = concat (map g xs)"
  by (metis map_cong)

lemma coalesced_reads_exact:
  assumes w: "\<forall>r \<in> set requests. range_within (int (length v)) (req_byte_range r)"
    and reads: "\<And>c g. (c, g) \<in> set (ForEachCoalescedRequest requests p) \<Longrightarrow> reads_value read v s c"
  shows "mset (concat (map (\<lambda>(c, g). ProcessCoalescedRead needed read c g) (ForEachCoalescedRequest requests p))) =
    mset (map (\<lambda>r. (req_promise r, Inr (ReadResult_Value (GetSubCord v (req_byte_range r)) s))) requests)"
proof -
  let ?n = "int (length v)" and ?F = "ForEachCoalescedRequest requests p"
  let ?a = "\<lambda>r. (req_promise r, Inr (ReadResult_Value (GetSubCord v (req_byte_range r)) s))"
  have valid: "\<forall>r \<in> set requests. valid_request ?n (req_byte_range r)" using w resolved_id by blast
  note cov = ForEachCoalescedRequest_covers [OF valid, of p]
  have "ProcessCoalescedRead needed read c g = map ?a g" if cg: "(c, g) \<in> set ?F" for c g
  proof -
    have c: "resolved ?n c = c" "valid_request ?n c"
      using ForEachCoalescedRequest_within [OF w cg] resolved_id by blast+
    have "set g \<subseteq> set (concat (map snd ?F))" using cg by (auto intro: rev_image_eqI)
    also have "\<dots> = set requests" using cov by (metis set_mset_mset)
    finally have sub: "set g \<subseteq> set requests" .
    have "resolve_request c (ReadResult_Value (GetSubCord v c) s) r = ?a r" if "r \<in> set g" for r
      using resolve_covered [of v c r s] c cov cg that sub w valid resolved_id [of ?n "req_byte_range r"] by force
    then show ?thesis using reads [OF cg] by (simp add: ProcessCoalescedRead_def reads_value_def ResolveCoalescedRequests_def)
  qed
  then have "concat (map (\<lambda>(c, g). ProcessCoalescedRead needed read c g) ?F) = concat (map (map ?a) (map snd ?F))"
    unfolding map_map by (intro concat_map_cong) auto
  then show ?thesis using cov by (simp add: map_concat [symmetric] del: map_map mset_map) (simp add: mset_map)
qed

text \<open>The full request and a suffix of length 0 are the same request.\<close>

lemma SuffixLength_0: "SuffixLength 0 = full_byte_range \<and> IsFull (SuffixLength 0)"
  by (simp add: SuffixLength_def full_byte_range_def IsFull_def)

text \<open>A request that is not valid for the value takes the valid requests it is coalesced with along: alone, the
  read of the first two bytes of a value of three bytes succeeds.\<close>

definition ex_read :: "byte_range \<Rightarrow> status + read_result" where
  "ex_read r = (case Validate r 3 of Inl e \<Rightarrow> Inl e | Inr br \<Rightarrow> Inr (ReadResult_Value (GetSubCord [10, 20, 30] br) ([], 0)))"

definition ex_read_request :: "nat \<Rightarrow> OptionalByteRangeRequest \<Rightarrow> request" where
  "ex_read_request p r = \<lparr>req_promise = p, req_byte_range = r\<rparr>"

lemma coalescing_spreads_errors:
  "GenericProcessBatch (\<lambda>p. True) ex_read kDefaultRemoteStorageCoalescingOptions
     [ex_read_request 0 (Range_request 0 2), ex_read_request 1 (Range_request 5 9)] =
   [(1, Inl (OutOfRange, None)), (0, Inl (OutOfRange, None))] \<and>
   ex_read (Range_request 0 2) = Inr (ReadResult_Value [10, 20] ([], 0))"
  by code_simp

section \<open>Properties\<close>

text \<open>C15: a batch of requests for ranges that are valid for the value gets, whatever the coalescing options are,
  for every request exactly the bytes of its range: coalescing the requests into fewer reads is
  equivalent to reading each of them, if the reads of the driver return the bytes of the value.\<close>

theorem coalesced_batch_exact:
  assumes "\<forall>r \<in> set requests. range_within (int (length v)) (req_byte_range r)"
    and "\<forall>c. range_within (int (length v)) c \<longrightarrow> read c = Inr (ReadResult_Value (GetSubCord v c) s)"
  shows "mset (GenericProcessBatch needed read opts requests) =
    mset (map (\<lambda>r. (req_promise r, read (req_byte_range r))) requests)"
proof -
  have "reads_value read v s c" if "(c, g) \<in> set (ForEachCoalescedRequest requests (coalescing_predicate opts))" for c g
    using assms ForEachCoalescedRequest_within [OF assms(1) that] by (simp add: reads_value_def)
  from coalesced_reads_exact [OF assms(1) this]
  have "mset (GenericProcessBatch needed read opts requests) =
      mset (map (\<lambda>r. (req_promise r, Inr (ReadResult_Value (GetSubCord v (req_byte_range r)) s))) requests)"
    by (simp add: GenericProcessBatch_def)
  also have "map (\<lambda>r. (req_promise r, Inr (ReadResult_Value (GetSubCord v (req_byte_range r)) s))) requests =
      map (\<lambda>r. (req_promise r, read (req_byte_range r))) requests"
    using assms by simp
  finally show ?thesis .
qed

theorem coalesced_batch_exact_witness:
  "mset (GenericProcessBatch (\<lambda>p. True) ex_read kDefaultRemoteStorageCoalescingOptions
     [ex_read_request 0 (Range_request 1 3), ex_read_request 1 (Range_request 0 2)]) =
   {#(0, ex_read (Range_request 1 3)), (1, ex_read (Range_request 0 2))#}"
proof -
  have "ex_read c = Inr (ReadResult_Value (GetSubCord [10, 20, 30] c) ([], 0))" if "range_within 3 c" for c
    using that resolved_id [OF that] Validate_valid [of 3 c] by (simp add: ex_read_def)
  then show ?thesis
    using coalesced_batch_exact [of "[ex_read_request 0 (Range_request 1 3), ex_read_request 1 (Range_request 0 2)]"
        "[10, 20, 30]" ex_read "([], 0)" "\<lambda>p. True" kDefaultRemoteStorageCoalescingOptions]
    by (simp add: ex_read_request_def Range_request_def range_within_def)
qed

end
