(* ===== verification/File_Read.thy ===== *)
theory File_Read
  imports Byte_Range Index_Arithmetic
begin

text \<open>
  Reads of the \<^verbatim>\<open>file\<close> key-value store: \<^verbatim>\<open>ReadFromFileDescriptor\<close> of \<^verbatim>\<open>kvstore/file/util.cc\<close>, the retry
  policy of \<^verbatim>\<open>internal/retries_context_resource.h\<close>, \<^verbatim>\<open>MemmapFileReadOnly\<close> of
  \<^verbatim>\<open>internal/os/file_util_posix.cc\<close> and the class \<^verbatim>\<open>BatchReadTask\<close> of
  \<^verbatim>\<open>kvstore/file/file_key_value_store.cc\<close>. The system calls are parameters: the outcome of the \<open>k\<close>-th
  call, where a loop calls repeatedly, after the calls that a signal interrupted. Metrics, log
  messages and the delays of the retries are left out.
\<close>

section \<open>Reading from a file descriptor\<close>






section \<open>Retries\<close>








section \<open>Opening the file\<close>






section \<open>The batch read task\<close>










section \<open>A file that does not change\<close>













section \<open>Retries end\<close>





section \<open>The answers of a batch\<close>












section \<open>Properties\<close>










end
