(* ===== verification/Key_Range.thy ===== *)
theory Key_Range
  imports Bytes "HOL-Library.List_Lexorder"
begin

text \<open>
  \<^verbatim>\<open>kvstore/key_range.h\<close> and \<^verbatim>\<open>key_range.cc\<close>: ranges of keys in the unsigned lexicographic
  order. Keys are lists of bytes; the empty string as \<^verbatim>\<open>exclusive_max\<close> stands for no upper bound. The specification of a range is the set
  of keys it contains.
\<close>

type_synonym key = "byte list"

section \<open>key\_range.h and key\_range.cc\<close>

record key_range =
  inclusive_min_key :: key
  exclusive_max_key :: key

definition FullRange :: key_range where
  "FullRange = \<lparr>inclusive_min_key = [], exclusive_max_key = []\<rparr>"

definition EmptyRange :: key_range where
  "EmptyRange = \<lparr>inclusive_min_key = [0], exclusive_max_key = [0]\<rparr>"

definition range_empty :: "key_range \<Rightarrow> bool" where
  "range_empty r \<longleftrightarrow> exclusive_max_key r \<noteq> [] \<and> inclusive_min_key r \<ge> exclusive_max_key r"

definition range_full :: "key_range \<Rightarrow> bool" where
  "range_full r \<longleftrightarrow> exclusive_max_key r = [] \<and> inclusive_min_key r = []"

text \<open>\<^verbatim>\<open>PartialPrefix\<close> drops the trailing bytes 255; the loop removes from the back.\<close>

fun drop_ff :: "key \<Rightarrow> key" where
  "drop_ff [] = []"
| "drop_ff (b # bs) = (if b = - 1 then drop_ff bs else b # bs)"

definition PartialPrefix :: "key \<Rightarrow> key" where
  "PartialPrefix prefix = rev (drop_ff (rev prefix))"

definition PrefixExclusiveMax :: "key \<Rightarrow> key" where
  "PrefixExclusiveMax prefix =
     (let prefix_copy = PartialPrefix prefix
      in if prefix_copy \<noteq> [] then butlast prefix_copy @ [last prefix_copy + 1] else prefix_copy)"

definition Prefix :: "key \<Rightarrow> key_range" where
  "Prefix prefix = \<lparr>inclusive_min_key = prefix, exclusive_max_key = PrefixExclusiveMax prefix\<rparr>"

definition Successor :: "key \<Rightarrow> key" where
  "Successor k = k @ [0]"

definition Singleton :: "key \<Rightarrow> key_range" where
  "Singleton k = \<lparr>inclusive_min_key = k, exclusive_max_key = Successor k\<rparr>"

definition is_singleton_range :: "key_range \<Rightarrow> bool" where
  "is_singleton_range r \<longleftrightarrow>
     length (exclusive_max_key r) = length (inclusive_min_key r) + 1 \<and> last (exclusive_max_key r) = 0 \<and>
     take (length (inclusive_min_key r)) (exclusive_max_key r) = inclusive_min_key r"

text \<open>\<^verbatim>\<open>char\<close> is signed, and both operands of the comparison of the last bytes are promoted to
  \<^verbatim>\<open>int\<close>.\<close>

definition is_non_empty_prefix :: "key_range \<Rightarrow> bool" where
  "is_non_empty_prefix r \<longleftrightarrow>
     (let prefix = PartialPrefix (inclusive_min_key r)
      in \<not> range_full r \<and> length (exclusive_max_key r) = length prefix \<and>
         (prefix = [] \<or>
          sint (last (exclusive_max_key r)) = sint (last prefix) + 1 \<and>
          take (length prefix - 1) (exclusive_max_key r) = take (length prefix - 1) prefix))"

text \<open>Three-way comparisons return a negative, zero or positive \<^verbatim>\<open>weak_ordering\<close>, here -1, 0 or 1.\<close>

definition compare_keys :: "key \<Rightarrow> key \<Rightarrow> int" where
  "compare_keys a b = (if a < b then - 1 else if a = b then 0 else 1)"

definition CompareKeyAndExclusiveMax :: "key \<Rightarrow> key \<Rightarrow> int" where
  "CompareKeyAndExclusiveMax k bound = (if bound = [] then - 1 else compare_keys k bound)"

definition CompareExclusiveMaxAndKey :: "key \<Rightarrow> key \<Rightarrow> int" where
  "CompareExclusiveMaxAndKey bound k = - CompareKeyAndExclusiveMax k bound"

definition CompareExclusiveMax :: "key \<Rightarrow> key \<Rightarrow> int" where
  "CompareExclusiveMax a b =
     (if (a = []) \<noteq> (b = []) then (if a = [] then 1 else - 1) else compare_keys a b)"

definition MinExclusiveMax :: "key \<Rightarrow> key \<Rightarrow> key" where
  "MinExclusiveMax a b = (if CompareExclusiveMax a b < 0 then a else b)"

definition Contains_key :: "key_range \<Rightarrow> key \<Rightarrow> bool" where
  "Contains_key haystack needle \<longleftrightarrow>
     inclusive_min_key haystack \<le> needle \<and> CompareKeyAndExclusiveMax needle (exclusive_max_key haystack) < 0"

definition Intersect_keys :: "key_range \<Rightarrow> key_range \<Rightarrow> key_range" where
  "Intersect_keys a b =
     (let (a', b') = (if inclusive_min_key a > inclusive_min_key b then (b, a) else (a, b));
          result = \<lparr>inclusive_min_key = inclusive_min_key b',
                    exclusive_max_key = MinExclusiveMax (exclusive_max_key a') (exclusive_max_key b')\<rparr>
      in if range_empty result then result\<lparr>exclusive_max_key := inclusive_min_key result\<rparr> else result)"

definition Intersects_keys :: "key_range \<Rightarrow> key_range \<Rightarrow> bool" where
  "Intersects_keys a b \<longleftrightarrow> \<not> range_empty (Intersect_keys a b)"

definition Contains_range :: "key_range \<Rightarrow> key_range \<Rightarrow> bool" where
  "Contains_range haystack needle \<longleftrightarrow>
     inclusive_min_key haystack \<le> inclusive_min_key needle \<and>
     CompareExclusiveMax (exclusive_max_key needle) (exclusive_max_key haystack) \<le> 0"

fun count_ff :: "key \<Rightarrow> nat" where
  "count_ff [] = 0"
| "count_ff (b # bs) = (if b = - 1 then Suc (count_ff bs) else 0)"

fun common_length :: "key \<Rightarrow> key \<Rightarrow> nat" where
  "common_length (a # as) (b # bs) = (if a = b then Suc (common_length as bs) else 0)"
| "common_length _ _ = 0"

definition LongestPrefix :: "key_range \<Rightarrow> key" where
  "LongestPrefix r =
     (let lo = inclusive_min_key r; hi = exclusive_max_key r
      in if hi = [] then take (count_ff lo) lo
         else
           let min_length = min (length lo) (length hi);
               i = common_length lo hi
           in if i + 1 = min_length \<and> lo ! i \<noteq> - 1 \<and> unat (lo ! i) + 1 = unat (hi ! i)
              then take (i + 1 + count_ff (drop (i + 1) lo)) lo
              else take i lo)"

definition ContainsPrefix :: "key_range \<Rightarrow> key \<Rightarrow> bool" where
  "ContainsPrefix haystack prefix \<longleftrightarrow> Contains_range haystack (Prefix prefix)"

definition IntersectsPrefix :: "key_range \<Rightarrow> key \<Rightarrow> bool" where
  "IntersectsPrefix a prefix \<longleftrightarrow> Intersects_keys a (Prefix prefix)"

definition AddPrefix :: "key \<Rightarrow> key_range \<Rightarrow> key_range" where
  "AddPrefix prefix r =
     (if prefix = [] then r
      else \<lparr>inclusive_min_key = prefix @ inclusive_min_key r,
            exclusive_max_key = (if exclusive_max_key r = [] then PrefixExclusiveMax prefix
                                 else prefix @ exclusive_max_key r)\<rparr>)"

definition starts_with :: "key \<Rightarrow> key \<Rightarrow> bool" where
  "starts_with k prefix \<longleftrightarrow> take (length prefix) k = prefix"

definition RemovePrefix :: "key \<Rightarrow> key_range \<Rightarrow> key_range" where
  "RemovePrefix prefix r =
     (if prefix = [] then r
      else if \<not> prefix \<ge> inclusive_min_key r \<and> \<not> starts_with (inclusive_min_key r) prefix then EmptyRange
      else
        let lo = (if prefix \<ge> inclusive_min_key r then [] else drop (length prefix) (inclusive_min_key r))
        in if CompareKeyAndExclusiveMax prefix (exclusive_max_key r) < 0
           then \<lparr>inclusive_min_key = lo,
                 exclusive_max_key = (if starts_with (exclusive_max_key r) prefix
                                      then drop (length prefix) (exclusive_max_key r) else [])\<rparr>
           else EmptyRange)"

definition RemovePrefixLength :: "nat \<Rightarrow> key_range \<Rightarrow> key_range" where
  "RemovePrefixLength n r =
     \<lparr>inclusive_min_key = (if n < length (inclusive_min_key r) then drop n (inclusive_min_key r) else []),
      exclusive_max_key = (if n < length (exclusive_max_key r) then drop n (exclusive_max_key r) else [])\<rparr>"

section \<open>Ranges as sets of keys\<close>

definition keys_of :: "key_range \<Rightarrow> key set" where
  "keys_of r = {k. Contains_key r k}"

lemma Contains_key_iff:
  "Contains_key r k \<longleftrightarrow>
     inclusive_min_key r \<le> k \<and> (exclusive_max_key r = [] \<or> k < exclusive_max_key r)"
  by (auto simp: Contains_key_def CompareKeyAndExclusiveMax_def compare_keys_def)

lemma mem_keys_of:
  "k \<in> keys_of r \<longleftrightarrow> inclusive_min_key r \<le> k \<and> (exclusive_max_key r = [] \<or> k < exclusive_max_key r)"
  by (simp add: keys_of_def Contains_key_iff)

lemma Nil_least [simp]: "([] :: key) \<le> k"
  by simp

lemma range_empty_iff: "range_empty r \<longleftrightarrow> keys_of r = {}"
proof
  assume "keys_of r = {}"
  then have "inclusive_min_key r \<notin> keys_of r" by simp
  then show "range_empty r" by (auto simp: mem_keys_of range_empty_def)
qed (auto simp: range_empty_def mem_keys_of)

lemma range_full_iff: "range_full r \<longleftrightarrow> keys_of r = UNIV"
proof
  assume u: "keys_of r = UNIV"
  then have "[] \<in> keys_of r" "exclusive_max_key r \<in> keys_of r" by simp_all
  then show "range_full r" by (auto simp: mem_keys_of range_full_def)
qed (auto simp: range_full_def mem_keys_of)

lemma keys_EmptyRange [simp]: "keys_of EmptyRange = {}"
  using range_empty_iff [of EmptyRange] by (simp add: EmptyRange_def range_empty_def)

subsection \<open>Prefixes in the lexicographic order\<close>

lemma append_le_append [simp]: "p @ a \<le> p @ b \<longleftrightarrow> a \<le> (b :: key)"
  by (induction p) auto

lemma append_less_append [simp]: "p @ a < p @ b \<longleftrightarrow> a < (b :: key)"
  by (induction p) auto

lemma prefix_le: "(p :: key) \<le> p @ k"
  using append_le_append [of p "[]" k] by simp

lemma starts_with_iff: "starts_with k p \<longleftrightarrow> (\<exists>m. k = p @ m)"
  by (auto simp: starts_with_def) (metis append_take_drop_id)

lemma byte_le_max [simp]: "(b :: byte) \<le> - 1"
  by (rule word_n1_ge)

lemma byte_Suc_unat: "(b :: byte) \<noteq> - 1 \<Longrightarrow> unat (b + 1) = Suc (unat b)"
  using unatSuc [of b] by (simp add: add.commute [of 1 b] eq_neg_iff_add_eq_0)

lemma byte_Suc: "(b :: byte) \<noteq> - 1 \<Longrightarrow> c < b + 1 \<longleftrightarrow> c \<le> b"
  by (simp add: word_less_nat_alt word_le_nat_alt byte_Suc_unat less_Suc_eq_le)

text \<open>A key between two keys with a common prefix has that prefix.\<close>

lemma squeeze: "q @ x \<le> k \<Longrightarrow> k < q @ y \<Longrightarrow> \<exists>k'. (k :: key) = q @ k'"
proof (induction q arbitrary: k)
  case (Cons c q)
  then show ?case by (cases k) auto
qed simp

lemma ff_le_iff: "replicate n (- 1) \<le> (k :: key) \<longleftrightarrow> (\<exists>m. k = replicate n (- 1) @ m)"
proof (induction n arbitrary: k)
  case (Suc n)
  then show ?case by (cases k) (auto simp: less_le_not_le)
qed simp

lemma drop_ff_eq: "\<exists>n. k = replicate n (- 1) @ drop_ff k \<and> (drop_ff k = [] \<or> hd (drop_ff k) \<noteq> - 1)"
proof (induction k)
  case (Cons b k)
  then obtain n where "k = replicate n (- 1) @ drop_ff k" "drop_ff k = [] \<or> hd (drop_ff k) \<noteq> - 1" by blast
  then show ?case by (cases "b = - 1") (auto intro: exI [of _ "Suc n"] exI [of _ 0])
qed simp

lemma PartialPrefix_cases:
  obtains (all_ff) n where "p = replicate n (- 1)" "PartialPrefix p = []"
  | (last_byte) q b n where "p = q @ b # replicate n (- 1)" "PartialPrefix p = q @ [b]" "b \<noteq> - 1"
proof -
  obtain n where n: "rev p = replicate n (- 1) @ drop_ff (rev p)" "drop_ff (rev p) = [] \<or> hd (drop_ff (rev p)) \<noteq> - 1"
    using drop_ff_eq by blast
  have p: "p = rev (drop_ff (rev p)) @ replicate n (- 1)" using arg_cong [OF n(1), of rev] by simp
  show thesis
  proof (cases "drop_ff (rev p)")
    case Nil
    then show thesis using p all_ff by (simp add: PartialPrefix_def)
  next
    case (Cons b bs)
    then show thesis using p n(2) last_byte [of "rev bs" b n] by (simp add: PartialPrefix_def)
  qed
qed

lemma keys_Prefix: "keys_of (Prefix p) = {k. starts_with k p}"
proof (rule set_eqI)
  fix k
  show "k \<in> keys_of (Prefix p) \<longleftrightarrow> k \<in> {k. starts_with k p}"
  proof (cases rule: PartialPrefix_cases [of p])
    case (all_ff n)
    then show ?thesis by (auto simp: mem_keys_of Prefix_def PrefixExclusiveMax_def starts_with_iff ff_le_iff)
  next
    case (last_byte q b n)
    have "p \<le> k \<and> k < q @ [b + 1] \<longleftrightarrow> (\<exists>m. k = p @ m)"
    proof
      assume a: "p \<le> k \<and> k < q @ [b + 1]"
      then obtain k' where k': "k = q @ k'" using squeeze [of q "b # replicate n (- 1)" k] last_byte(1) by auto
      then have "b # replicate n (- 1) \<le> k'" using a last_byte(1) by simp
      then obtain c r where "k' = c # r" by (cases k') auto
      then show "\<exists>m. k = p @ m" using a k' last_byte byte_Suc [of b c] ff_le_iff [of n r] by auto
    next
      assume "\<exists>m. k = p @ m"
      then show "p \<le> k \<and> k < q @ [b + 1]" using last_byte byte_Suc [of b b] prefix_le [of p] by auto
    qed
    then show ?thesis using last_byte by (simp add: mem_keys_of Prefix_def PrefixExclusiveMax_def starts_with_iff)
  qed
qed

lemma keys_Singleton: "keys_of (Singleton k) = {k}"
proof -
  have "m = k" if m: "k \<le> m" "m < k @ [0]" for m
  proof -
    obtain k' where k': "m = k @ k'" using squeeze [of k "[]" m "[0]"] m by auto
    then have "k' < [0]" using m by simp
    then show ?thesis using k' by (cases k') auto
  qed
  moreover have "k < k @ [0]" using append_less_append [of k "[]" "[0]"] by simp
  ultimately show ?thesis by (auto simp: mem_keys_of Singleton_def Successor_def)
qed

lemma keys_Intersect: "keys_of (Intersect_keys a b) = keys_of a \<inter> keys_of b"
proof -
  define r where "r = \<lparr>inclusive_min_key = max (inclusive_min_key a) (inclusive_min_key b),
      exclusive_max_key = MinExclusiveMax (exclusive_max_key (if inclusive_min_key a > inclusive_min_key b then b else a))
        (exclusive_max_key (if inclusive_min_key a > inclusive_min_key b then a else b))\<rparr>"
  have r: "keys_of r = keys_of a \<inter> keys_of b"
    by (auto simp: mem_keys_of r_def MinExclusiveMax_def CompareExclusiveMax_def compare_keys_def split: if_splits)
  have i: "Intersect_keys a b = (if range_empty r then r\<lparr>exclusive_max_key := inclusive_min_key r\<rparr> else r)"
    by (auto simp: Intersect_keys_def r_def Let_def max_def)
  show ?thesis
  proof (cases "range_empty r")
    case True
    then have "inclusive_min_key r \<noteq> []" by (auto simp: range_empty_def)
    then have "range_empty (Intersect_keys a b)" using True i by (simp add: range_empty_def)
    then show ?thesis using True r range_empty_iff by metis
  qed (use i r in simp)
qed

lemma Contains_range_iff:
  assumes "keys_of needle \<noteq> {}"
  shows "Contains_range haystack needle \<longleftrightarrow> keys_of needle \<subseteq> keys_of haystack"
proof
  assume "Contains_range haystack needle"
  then show "keys_of needle \<subseteq> keys_of haystack"
    by (auto simp: Contains_range_def mem_keys_of CompareExclusiveMax_def compare_keys_def split: if_splits)
next
  assume s: "keys_of needle \<subseteq> keys_of haystack"
  have n: "\<not> range_empty needle" using assms range_empty_iff by blast
  then have "inclusive_min_key needle \<in> keys_of needle" by (auto simp: mem_keys_of range_empty_def)
  then have lo: "inclusive_min_key needle \<in> keys_of haystack" using s by blast
  then have "exclusive_max_key haystack \<notin> keys_of needle \<or> exclusive_max_key haystack = []"
    using s by (auto simp: mem_keys_of)
  then show "Contains_range haystack needle"
    using lo by (auto simp: Contains_range_def mem_keys_of CompareExclusiveMax_def compare_keys_def)
qed

lemma keys_AddPrefix: "keys_of (AddPrefix p r) = (\<lambda>k. p @ k) ` keys_of r"
proof (cases "p = []")
  case False
  have "k \<in> keys_of (AddPrefix p r) \<longleftrightarrow> k \<in> (\<lambda>k. p @ k) ` keys_of r" for k
  proof (cases "exclusive_max_key r = []")
    case True
    have "k \<in> keys_of (AddPrefix p r) \<longleftrightarrow> p @ inclusive_min_key r \<le> k \<and> k \<in> keys_of (Prefix p)"
      using True False order_trans [OF prefix_le [of p "inclusive_min_key r"], of k]
      by (auto simp: mem_keys_of AddPrefix_def Prefix_def)
    then show ?thesis using True by (auto simp: keys_Prefix starts_with_iff mem_keys_of)
  next
    case bounded: False
    have "k \<in> keys_of (AddPrefix p r) \<longleftrightarrow> p @ inclusive_min_key r \<le> k \<and> k < p @ exclusive_max_key r"
      using bounded False by (auto simp: mem_keys_of AddPrefix_def)
    moreover have "\<exists>k'. k = p @ k'" if "p @ inclusive_min_key r \<le> k" "k < p @ exclusive_max_key r"
      by (rule squeeze [OF that])
    ultimately show ?thesis using bounded by (fastforce simp: mem_keys_of [of _ r])
  qed
  then show ?thesis by blast
qed (simp add: AddPrefix_def)

lemma not_prefix_less: "p < l \<Longrightarrow> \<not> starts_with l p \<Longrightarrow> p @ k < (l :: key)"
proof (induction p arbitrary: l)
  case (Cons b p)
  then show ?case by (cases l) (auto simp: starts_with_def)
qed (simp add: starts_with_def)

lemma keys_RemovePrefix: "keys_of (RemovePrefix p r) = {k. p @ k \<in> keys_of r}"
proof (cases "p = []")
  case False
  let ?lo = "inclusive_min_key r" and ?hi = "exclusive_max_key r"
  have up: "p @ k < ?hi \<longleftrightarrow> p < ?hi \<and> (starts_with ?hi p \<longrightarrow> k < drop (length p) ?hi)" if "?hi \<noteq> []" for k
  proof (cases "p < ?hi")
    case True
    then show ?thesis
      using not_prefix_less [of p ?hi k] by (cases "starts_with ?hi p") (auto simp: starts_with_iff)
  next
    case False
    then show ?thesis using prefix_le [of p k] by (auto simp: not_less)
  qed
  have low: "?lo \<le> p @ k \<longleftrightarrow> ?lo \<le> p \<or> (starts_with ?lo p \<and> drop (length p) ?lo \<le> k)" for k
  proof (cases "?lo \<le> p")
    case True
    then show ?thesis using prefix_le [of p k] by (auto intro: order_trans)
  next
    case False
    then show ?thesis
      using not_prefix_less [of p ?lo k] by (cases "starts_with ?lo p") (auto simp: starts_with_iff not_le)
  qed
  have hi: "drop (length p) ?hi \<noteq> []" if "p < ?hi" "starts_with ?hi p"
    using that by (auto simp: starts_with_iff)
  have no: "\<not> starts_with [] p" using False by (simp add: starts_with_def)
  show ?thesis
    using False up low hi no
    by (auto simp: RemovePrefix_def Let_def mem_keys_of CompareKeyAndExclusiveMax_def compare_keys_def split: if_splits)
qed (simp add: RemovePrefix_def)

subsection \<open>The longest prefix of a range\<close>

lemma count_ff_eq:
  obtains rest where "k = replicate (count_ff k) (- 1) @ rest" "rest = [] \<or> hd rest \<noteq> - 1"
proof -
  have "\<exists>rest. k = replicate (count_ff k) (- 1) @ rest \<and> (rest = [] \<or> hd rest \<noteq> - 1)"
    by (induction k) auto
  then show thesis using that by blast
qed

lemma take_count_ff: "take (count_ff k) k = replicate (count_ff k) (- 1)"
  by (rule count_ff_eq [of k]) (metis append_eq_conv_conj length_replicate)

lemma common_length_cases:
  assumes "lo < hi"
  obtains (shorter) y where "hi = lo @ y" "y \<noteq> []" "common_length lo hi = length lo"
  | (differ) p a x b y where "lo = p @ a # x" "hi = p @ b # y" "a < b" "common_length lo hi = length p"
proof -
  have "(\<exists>y. hi = lo @ y \<and> y \<noteq> [] \<and> common_length lo hi = length lo) \<or>
      (\<exists>p a x b y. lo = p @ a # x \<and> hi = p @ b # y \<and> a < b \<and> common_length lo hi = length p)"
    using assms
  proof (induction lo hi rule: common_length.induct)
    case (1 a as b bs)
    show ?case
    proof (cases "a = b")
      case True
      then have "as < bs" using 1 by simp
      then consider (s) y where "bs = as @ y" "y \<noteq> []" "common_length as bs = length as"
        | (d) p a' x b' y where "as = p @ a' # x" "bs = p @ b' # y" "a' < b'" "common_length as bs = length p"
        using 1(1) [OF True] by blast
      then show ?thesis
      proof cases
        case s
        then show ?thesis using True by auto
      next
        case d
        then show ?thesis using True by (intro disjI2 exI [of _ "a # p"] exI) auto
      qed
    next
      case False
      then show ?thesis using 1 by (auto intro!: exI [of _ "[]"])
    qed
  qed auto
  then show thesis using that by blast
qed

definition common_prefix :: "key \<Rightarrow> key_range \<Rightarrow> bool" where
  "common_prefix p r \<longleftrightarrow> (\<forall>k \<in> keys_of r. starts_with k p)"

text \<open>The upper bound extends the lower bound with its last byte incremented.\<close>

definition overlong_bound :: "key_range \<Rightarrow> bool" where
  "overlong_bound r \<longleftrightarrow>
     inclusive_min_key r \<noteq> [] \<and> last (inclusive_min_key r) \<noteq> - 1 \<and>
     length (inclusive_min_key r) < length (exclusive_max_key r) \<and>
     take (length (inclusive_min_key r)) (exclusive_max_key r) =
       butlast (inclusive_min_key r) @ [last (inclusive_min_key r) + 1]"

lemma common_prefixI:
  assumes "lo = p @ x" and "\<And>k. lo \<le> k \<Longrightarrow> hi = [] \<or> k < hi \<Longrightarrow> starts_with k p"
    and "\<And>a x'. x = a # x' \<Longrightarrow> \<exists>k. lo \<le> k \<and> (hi = [] \<or> k < hi) \<and> \<not> starts_with k (p @ [a])"
    and "inclusive_min_key r = lo" "exclusive_max_key r = hi" "keys_of r \<noteq> {}"
  shows "common_prefix p r \<and> (\<forall>q. common_prefix q r \<longrightarrow> length q \<le> length p)"
proof (intro conjI allI impI)
  show "common_prefix p r" using assms(2,4,5) by (auto simp: common_prefix_def mem_keys_of)
  fix q
  assume q: "common_prefix q r"
  have "lo \<in> keys_of r" using assms(4-6) range_empty_iff [of r] by (auto simp: mem_keys_of range_empty_def)
  then obtain m where m: "lo = q @ m" using q by (auto simp: common_prefix_def starts_with_iff)
  show "length q \<le> length p"
  proof (rule ccontr)
    assume "\<not> length q \<le> length p"
    then obtain a x' where x: "x = a # x'" using m assms(1) by (cases x) auto
    then obtain k where k: "lo \<le> k" "hi = [] \<or> k < hi" "\<not> starts_with k (p @ [a])" using assms(3) by blast
    then have "starts_with k q" using q assms(4,5) by (auto simp: common_prefix_def mem_keys_of)
    moreover have "\<exists>q'. q = (p @ [a]) @ q'"
      using m assms(1) x \<open>\<not> length q \<le> length p\<close> by (auto simp: append_eq_append_conv2 Cons_eq_append_conv)
    ultimately show False using k(3) by (auto simp: starts_with_iff)
  qed
qed

text \<open>Keys at least \<open>ff ff \<dots> rest\<close>: all of them start with the bytes 255, and nothing longer is common.\<close>

lemma ff_prefix:
  assumes "rest = [] \<or> hd rest \<noteq> - 1"
  shows "replicate c (- 1) @ rest \<le> k \<Longrightarrow> starts_with (k :: key) (replicate c (- 1))"
    and "rest = a # rest' \<Longrightarrow> replicate c (- 1) @ rest \<le> replicate (Suc c) (- 1) \<and>
      \<not> starts_with (replicate (Suc c) (- 1)) (replicate c (- 1) @ [a])"
proof -
  show "starts_with k (replicate c (- 1))" if "replicate c (- 1) @ rest \<le> k"
  proof -
    have "replicate c (- 1) \<le> k" using that prefix_le [of "replicate c (- 1)" rest] by (rule order_trans [rotated])
    then show ?thesis by (simp add: ff_le_iff starts_with_iff)
  qed
  show "replicate c (- 1) @ rest \<le> replicate (Suc c) (- 1) \<and>
      \<not> starts_with (replicate (Suc c) (- 1)) (replicate c (- 1) @ [a])" if "rest = a # rest'"
  proof -
    have "a < - 1" using that assms byte_le_max [of a] by (auto simp: less_le)
    then have "replicate c (- 1) @ rest \<le> replicate c (- 1) @ [- 1]" using that by simp
    moreover have "replicate (Suc c) (- 1) = replicate c (- 1 :: byte) @ [- 1]" by (simp add: replicate_append_same)
    ultimately show ?thesis using \<open>a < - 1\<close> by (auto simp: starts_with_iff)
  qed
qed

text \<open>The bounds differ at a byte that is incremented, where the upper bound ends.\<close>

lemma incremented_prefix:
  assumes lo: "inclusive_min_key r = p @ a # x" and hi: "exclusive_max_key r = p @ [a + 1]" and a: "a \<noteq> - 1"
    and ne: "keys_of r \<noteq> {}"
  defines "q \<equiv> p @ a # replicate (count_ff x) (- 1)"
  shows "common_prefix q r \<and> (\<forall>q'. common_prefix q' r \<longrightarrow> length q' \<le> length q)"
proof -
  define c where "c = count_ff x"
  obtain rest where rest: "x = replicate c (- 1) @ rest" "rest = [] \<or> hd rest \<noteq> - 1"
    unfolding c_def by (rule count_ff_eq)
  have q: "q = p @ a # replicate c (- 1)" by (simp add: q_def c_def)
  show ?thesis
  proof (rule common_prefixI [OF _ _ _ lo hi ne, of _ rest])
    show "p @ a # x = q @ rest" using rest by (simp add: q)
    fix k
    assume k: "p @ a # x \<le> k" "p @ [a + 1] = [] \<or> k < p @ [a + 1]"
    then obtain k' where k': "k = p @ k'" using squeeze [of p "a # x" k "[a + 1]"] by auto
    then have sq: "a # x \<le> k'" "k' < [a + 1]" using k by auto
    then obtain e m where m: "k' = e # m" by (cases k') auto
    then have "e = a \<and> x \<le> m" using sq byte_Suc [OF a, of e] by auto
    then have m: "k' = a # m" "x \<le> m" using m by simp_all
    then have "starts_with m (replicate c (- 1))" using ff_prefix(1) [OF rest(2), of c m] by (simp add: rest(1))
    then show "starts_with k q" using k' m by (auto simp: starts_with_iff q)
  next
    fix d x'
    assume d: "rest = d # x'"
    let ?k = "p @ a # replicate (Suc c) (- 1)"
    note ff = ff_prefix(2) [OF rest(2) d, of c]
    have "x \<le> replicate (Suc c) (- 1)" using ff by (simp add: rest(1) del: replicate_Suc)
    then have "p @ a # x \<le> ?k" by simp
    moreover have "?k < p @ [a + 1]" using byte_Suc [OF a, of a] by simp
    moreover have "\<not> starts_with ?k (q @ [d])" using ff by (auto simp: starts_with_iff q)
    ultimately show "\<exists>k. p @ a # x \<le> k \<and> (p @ [a + 1] = [] \<or> k < p @ [a + 1]) \<and> \<not> starts_with k (q @ [d])" by blast
  qed
qed

text \<open>Otherwise only the common part of the bounds is a prefix.\<close>

lemma differing_prefix:
  assumes lo: "inclusive_min_key r = p @ a # x" and hi: "exclusive_max_key r = p @ b # y" and ab: "a < b"
    and y: "y = [] \<Longrightarrow> b \<noteq> a + 1" and ne: "keys_of r \<noteq> {}"
  shows "common_prefix p r \<and> (\<forall>q. common_prefix q r \<longrightarrow> length q \<le> length p)"
proof (rule common_prefixI [OF refl _ _ lo hi ne])
  have na: "a \<noteq> - 1" using ab byte_le_max [of b] by auto
  show "starts_with k p" if "p @ a # x \<le> k" "p @ b # y = [] \<or> k < p @ b # y" for k
    using squeeze [of p "a # x" k "b # y"] that by (auto simp: starts_with_iff)
  fix c x'
  assume "a # x = c # x'"
  then have c: "c = a" by simp
  let ?k = "if y \<noteq> [] then p @ [b] else p @ [a + 1]"
  have lt: "a < a + 1" using byte_Suc [OF na, of a] by simp
  have "a + 1 \<le> b" using ab byte_Suc_unat [OF na] by (simp add: word_le_nat_alt word_less_nat_alt)
  then have "y = [] \<Longrightarrow> a + 1 < b" using y by (auto simp: less_le)
  then have "p @ a # x \<le> ?k" "?k < p @ b # y" using ab lt by (cases y; auto)+
  moreover have "\<not> starts_with ?k (p @ [c])" using c ab lt by (auto simp: starts_with_iff)
  ultimately show "\<exists>k. p @ a # x \<le> k \<and> (p @ b # y = [] \<or> k < p @ b # y) \<and> \<not> starts_with k (p @ [c])" by blast
qed

lemma LongestPrefix_common:
  assumes ne: "keys_of r \<noteq> {}" and ok: "\<not> overlong_bound r"
  shows "common_prefix (LongestPrefix r) r \<and> (\<forall>q. common_prefix q r \<longrightarrow> length q \<le> length (LongestPrefix r))"
proof (cases "exclusive_max_key r = []")
  case True
  obtain rest where rest: "inclusive_min_key r = replicate (count_ff (inclusive_min_key r)) (- 1) @ rest"
    "rest = [] \<or> hd rest \<noteq> - 1" by (rule count_ff_eq)
  have "LongestPrefix r = replicate (count_ff (inclusive_min_key r)) (- 1)"
    using True by (simp add: LongestPrefix_def Let_def take_count_ff)
  then show ?thesis
    using True ff_prefix [OF rest(2)] rest(1) by (intro common_prefixI [OF _ _ _ refl refl ne]) (simp, metis, metis)
next
  case hi: False
  let ?lo = "inclusive_min_key r" and ?hi = "exclusive_max_key r"
  have "?lo < ?hi" using ne hi range_empty_iff [of r] by (auto simp: range_empty_def)
  then show ?thesis
  proof (cases rule: common_length_cases)
    case (shorter y)
    then have "LongestPrefix r = ?lo" using hi by (simp add: LongestPrefix_def Let_def)
    then show ?thesis
      using squeeze [of ?lo "[]"] shorter hi
      by (intro common_prefixI [OF _ _ _ refl refl ne, of _ "[]"]) (auto simp: starts_with_iff)
  next
    case (differ p a x b y)
    have na: "a \<noteq> - 1" using differ(3) byte_le_max [of b] by auto
    then have inc: "unat a + 1 = unat b \<longleftrightarrow> b = a + 1" using byte_Suc_unat [OF na] by (auto simp: word_unat_eq_iff)
    have L: "LongestPrefix r = (if (x = [] \<or> y = []) \<and> b = a + 1 then p @ a # replicate (count_ff x) (- 1) else p)"
      using hi differ na inc by (auto simp: LongestPrefix_def Let_def nth_append take_count_ff min_def split: if_splits)
    have "y = []" if "x = [] \<or> y = []" "b = a + 1"
      using ok that differ na by (cases y) (auto simp: overlong_bound_def butlast_append)
    then show ?thesis
      using incremented_prefix [OF differ(1) _ na ne] differing_prefix [OF differ(1-3) _ ne] differ(2) L by auto
  qed
qed

text \<open>With such an upper bound the lower bound itself is returned, which the upper bound without its
  extension does not start with.\<close>

lemma LongestPrefix_overlong:
  assumes "overlong_bound r"
  shows "\<not> common_prefix (LongestPrefix r) r"
proof -
  define p a where pa: "p = butlast (inclusive_min_key r)" "a = last (inclusive_min_key r)"
  define y where "y = drop (length (inclusive_min_key r)) (exclusive_max_key r)"
  have lo: "inclusive_min_key r = p @ [a]" and a: "a \<noteq> - 1" using assms by (simp_all add: overlong_bound_def pa)
  have hi: "exclusive_max_key r = p @ (a + 1) # y" and y: "y \<noteq> []"
    using assms append_take_drop_id [of "length (inclusive_min_key r)" "exclusive_max_key r"]
    by (auto simp: overlong_bound_def pa y_def)
  have "common_length (p @ [a]) (p @ (a + 1) # y) = length p" by (induction p) auto
  then have L: "LongestPrefix r = p @ [a]"
    using lo hi a y byte_Suc_unat [OF a] by (simp add: LongestPrefix_def nth_append Let_def)
  have lt: "a < a + 1" using byte_Suc [OF a, of a] by simp
  have "p @ [a + 1] \<in> keys_of r" using lo hi lt y by (cases y) (auto simp: mem_keys_of)
  moreover have "\<not> starts_with (p @ [a + 1]) (LongestPrefix r)" using L lt by (auto simp: starts_with_def)
  ultimately show ?thesis by (auto simp: common_prefix_def)
qed

subsection \<open>Recognising singletons and prefixes\<close>

lemma is_singleton_range_iff: "is_singleton_range r \<longleftrightarrow> r = Singleton (inclusive_min_key r)"
proof
  assume s: "is_singleton_range r"
  then have ne: "exclusive_max_key r \<noteq> []" by (auto simp: is_singleton_range_def)
  have "butlast (exclusive_max_key r) = inclusive_min_key r" "last (exclusive_max_key r) = 0"
    using s by (auto simp: is_singleton_range_def butlast_conv_take)
  then have "exclusive_max_key r = inclusive_min_key r @ [0]"
    using append_butlast_last_id [OF ne] by simp
  then show "r = Singleton (inclusive_min_key r)" by (simp add: Singleton_def Successor_def)
next
  assume "r = Singleton (inclusive_min_key r)"
  then have "exclusive_max_key r = inclusive_min_key r @ [0]"
    by (metis Singleton_def Successor_def key_range.select_convs(2))
  then show "is_singleton_range r" by (simp add: is_singleton_range_def)
qed

text \<open>The test of a prefix compares two \<open>char\<close> values after promotion to \<open>int\<close>, so the increment of the
  last byte is an increment of signed numbers: it agrees with the increment of bytes except at
  \<open>0x7f\<close>.\<close>

lemma sint_Suc: "(b :: byte) \<noteq> 127 \<Longrightarrow> sint c = sint b + 1 \<longleftrightarrow> c = b + 1"
proof -
  assume b: "b \<noteq> 127"
  have r: "- 128 \<le> sint x \<and> sint x < 128" for x :: byte
    using sint_ge [of x] sint_lt [of x] by simp
  have "sint (127 :: byte) = 127" by simp
  then have nb: "sint b \<noteq> 127" using b by (metis signed_word_eqI)
  have "sint (b + 1) = sint b + 1"
    using r [of b] nb by (simp add: sint_word_ariths signed_take_bit_int_eq_self)
  then show ?thesis using signed_word_eqI by metis
qed

lemma is_non_empty_prefix_iff:
  assumes "PartialPrefix (inclusive_min_key r) = [] \<or> last (PartialPrefix (inclusive_min_key r)) \<noteq> 127"
  shows "is_non_empty_prefix r \<longleftrightarrow> inclusive_min_key r \<noteq> [] \<and> r = Prefix (inclusive_min_key r)"
proof -
  let ?p = "PartialPrefix (inclusive_min_key r)" and ?hi = "exclusive_max_key r"
  have r: "r = Prefix (inclusive_min_key r) \<longleftrightarrow> ?hi = PrefixExclusiveMax (inclusive_min_key r)"
    by (cases r) (simp add: Prefix_def)
  show ?thesis
  proof (cases "?p = []")
    case True
    then show ?thesis unfolding r by (auto simp: is_non_empty_prefix_def PrefixExclusiveMax_def range_full_def)
  next
    case False
    then have lo: "inclusive_min_key r \<noteq> []" by (auto simp: PartialPrefix_def)
    have "length ?hi = length ?p \<and> last ?hi = last ?p + 1 \<and> butlast ?hi = butlast ?p \<longleftrightarrow>
          ?hi = butlast ?p @ [last ?p + 1]"
      using False append_butlast_last_id [of ?hi] by (cases "?hi = []") (simp, metis butlast_snoc last_snoc length_append_singleton length_butlast Suc_pred' length_greater_0_conv)
    moreover have "length ?hi = length ?p \<Longrightarrow> take (length ?p - 1) ?hi = butlast ?hi"
      by (simp add: butlast_conv_take)
    ultimately show ?thesis
      unfolding r using False lo assms sint_Suc [of "last ?p" "last ?hi"]
      by (auto simp: is_non_empty_prefix_def PrefixExclusiveMax_def range_full_def Let_def butlast_conv_take [of ?p])
  qed
qed

lemma is_non_empty_prefix_7f: "\<not> is_non_empty_prefix (Prefix [0x7f])"
  by (simp add: is_non_empty_prefix_def Prefix_def PrefixExclusiveMax_def PartialPrefix_def Let_def)

section \<open>Properties\<close>

text \<open>C21: the operations on key ranges are the operations on the sets of keys: \<open>Prefix\<close> is the set of the
  keys that start with the prefix, \<open>Singleton\<close> has one key, \<open>Intersect\<close> is the intersection and
  \<open>Intersects\<close> tells whether it is empty, \<open>AddPrefix\<close> prepends the prefix to every key,
  \<open>RemovePrefix\<close> is the preimage of that, \<open>empty\<close> and \<open>full\<close> recognise the empty and the full set,
  and \<open>Contains\<close> and \<open>ContainsPrefix\<close> decide inclusion of a range that is not empty.\<close>

theorem key_range_algebra:
  "keys_of FullRange = UNIV \<and> keys_of EmptyRange = {} \<and>
   (range_empty r \<longleftrightarrow> keys_of r = {}) \<and> (range_full r \<longleftrightarrow> keys_of r = UNIV) \<and>
   keys_of (Prefix p) = {k. starts_with k p} \<and> keys_of (Singleton k) = {k} \<and>
   keys_of (Intersect_keys r s) = keys_of r \<inter> keys_of s \<and>
   (Intersects_keys r s \<longleftrightarrow> keys_of r \<inter> keys_of s \<noteq> {}) \<and>
   (\<not> range_empty s \<longrightarrow> (Contains_range r s \<longleftrightarrow> keys_of s \<subseteq> keys_of r)) \<and>
   (ContainsPrefix r p \<longleftrightarrow> {k. starts_with k p} \<subseteq> keys_of r) \<and>
   (IntersectsPrefix r p \<longleftrightarrow> (\<exists>k \<in> keys_of r. starts_with k p)) \<and>
   keys_of (AddPrefix p r) = (\<lambda>k. p @ k) ` keys_of r \<and>
   keys_of (RemovePrefix p r) = {k. p @ k \<in> keys_of r}"
proof -
  have "keys_of FullRange = UNIV" using range_full_iff [of FullRange] by (simp add: range_full_def FullRange_def)
  moreover have "p \<in> keys_of (Prefix p)" by (simp add: keys_Prefix starts_with_def)
  then have "ContainsPrefix r p \<longleftrightarrow> {k. starts_with k p} \<subseteq> keys_of r"
    using Contains_range_iff [of "Prefix p" r] keys_Prefix [of p] by (auto simp: ContainsPrefix_def)
  ultimately show ?thesis
    by (auto simp: Intersects_keys_def IntersectsPrefix_def range_empty_iff range_full_iff keys_Intersect
        keys_Prefix keys_Singleton Contains_range_iff keys_AddPrefix keys_RemovePrefix)
qed

theorem key_range_algebra_witness:
  "\<not> range_empty \<lparr>inclusive_min_key = [97], exclusive_max_key = [98, 99]\<rparr> \<and>
   Contains_range FullRange \<lparr>inclusive_min_key = [97], exclusive_max_key = [98, 99]\<rparr>"
  using key_range_algebra [of FullRange "[]" "[]" "\<lparr>inclusive_min_key = [97], exclusive_max_key = [98, 99]\<rparr>"]
  by (simp add: range_empty_def)

text \<open>C22: \<open>LongestPrefix\<close> of a range with a key returns a prefix of all keys of the range, and no prefix
  of all keys is longer, unless the upper bound extends the increment of the lower bound by further
  bytes. In that case what it returns is not a prefix of all keys.\<close>

theorem longest_prefix_exact:
  assumes "keys_of r \<noteq> {}"
  shows "if overlong_bound r then \<exists>k \<in> keys_of r. \<not> starts_with k (LongestPrefix r)
         else (\<forall>k \<in> keys_of r. starts_with k (LongestPrefix r)) \<and>
              (\<forall>q. (\<forall>k \<in> keys_of r. starts_with k q) \<longrightarrow> length q \<le> length (LongestPrefix r))"
  using LongestPrefix_common [OF assms] LongestPrefix_overlong [of r] by (auto simp: common_prefix_def)

theorem longest_prefix_exact_witness:
  "(\<exists>k \<in> keys_of \<lparr>inclusive_min_key = [97], exclusive_max_key = [98, 99]\<rparr>. \<not> starts_with k [97]) \<and>
   starts_with [97, 255, 9] (LongestPrefix \<lparr>inclusive_min_key = [97, 255, 5], exclusive_max_key = [98]\<rparr>)"
proof -
  let ?r = "\<lparr>inclusive_min_key = [97], exclusive_max_key = [98, 99]\<rparr>"
  let ?s = "\<lparr>inclusive_min_key = [97, 255, 5], exclusive_max_key = [98]\<rparr>"
  have "keys_of ?r \<noteq> {}" "keys_of ?s \<noteq> {}" unfolding range_empty_iff [symmetric] by (simp_all add: range_empty_def)
  moreover have "overlong_bound ?r" "\<not> overlong_bound ?s" by (simp_all add: overlong_bound_def)
  moreover have "LongestPrefix ?r = [97]" "[97, 255, 9] \<in> keys_of ?s" by (simp_all add: LongestPrefix_def mem_keys_of)
  ultimately show ?thesis using longest_prefix_exact [of ?r] longest_prefix_exact [of ?s] by simp
qed

end
