(* ===== verification/Memory_Store.thy ===== *)
theory Memory_Store
  imports Key_Range Byte_Range
begin

text \<open>
  \<^verbatim>\<open>kvstore/memory/memory_key_value_store.cc\<close>, the key-value store in memory, with the write conditions of
  \<^verbatim>\<open>kvstore/operations.h\<close> and the prefixing of \<^verbatim>\<open>kvstore/operations.cc\<close>. Each operation holds the
  mutex of the store throughout, so an execution is a sequence of operations. The B-tree map is the list of
  its entries in the order of the keys; an iterator is an index into it. The specification of a store is the finite map from keys to
  values with their generations. \<open>now\<close> is the time of a call.
\<close>

section \<open>The stored pairs\<close>

record stored_value =
  sv_value :: bytes
  sv_generation_number :: uint64

definition sv_generation :: "stored_value \<Rightarrow> storage_generation" where
  "sv_generation e = FromUint64 (sv_generation_number e)"

type_synonym value_map = "(key \<times> stored_value) list"

record stored_pairs =
  next_generation_number :: uint64
  stored_values :: value_map

text \<open>\<^verbatim>\<open>absl::btree_map\<close>: \<open>find\<close> is \<open>map_of\<close>.\<close>

definition lower_bound :: "value_map \<Rightarrow> key \<Rightarrow> nat" where
  "lower_bound xs k = length (takeWhile (\<lambda>e. fst e < k) xs)"

definition map_put :: "key \<Rightarrow> stored_value \<Rightarrow> value_map \<Rightarrow> value_map" where
  "map_put k v xs = takeWhile (\<lambda>e. fst e < k) xs @ (k, v) # dropWhile (\<lambda>e. fst e \<le> k) xs"

definition map_erase :: "key \<Rightarrow> value_map \<Rightarrow> value_map" where
  "map_erase k xs = filter (\<lambda>e. fst e \<noteq> k) xs"

definition map_erase_range :: "nat \<times> nat \<Rightarrow> value_map \<Rightarrow> value_map" where
  "map_erase_range ij xs = take (fst ij) xs @ drop (snd ij) xs"

definition Find :: "value_map \<Rightarrow> key \<Rightarrow> key \<Rightarrow> nat \<times> nat" where
  "Find xs inclusive_min exclusive_max =
     (lower_bound xs inclusive_min, if exclusive_max = [] then length xs else lower_bound xs exclusive_max)"

section \<open>Operations of the driver\<close>

definition MemoryRead :: "int \<Rightarrow> stored_pairs \<Rightarrow> key \<Rightarrow> read_generation_conditions \<Rightarrow> OptionalByteRangeRequest \<Rightarrow>
    status + read_result" where
  "MemoryRead now data k conditions r =
     (case map_of (stored_values data) k of
        None \<Rightarrow> Inr (ReadResult_Missing now)
      | Some e \<Rightarrow>
          if \<not> Matches conditions (sv_generation e) then Inr (ReadResult_Unspecified (sv_generation e, now))
          else case Validate r (int (length (sv_value e))) of
                 Inl st \<Rightarrow> Inl st
               | Inr br \<Rightarrow> Inr (ReadResult_Value (GetSubCord (sv_value e) br) (sv_generation e, now)))"

text \<open>The conditions of a write are a generation \<open>if_equal\<close>.\<close>

definition MatchesWrite :: "storage_generation \<Rightarrow> storage_generation \<Rightarrow> bool" where
  "MatchesWrite cond g \<longleftrightarrow> IsUnknown cond \<or> Equivalent g cond"

definition MatchesNoValue :: "storage_generation \<Rightarrow> bool" where
  "MatchesNoValue cond \<longleftrightarrow> IsUnknown cond \<or> IsNoValue cond"

definition next_value :: "bytes \<Rightarrow> stored_pairs \<Rightarrow> stored_value" where
  "next_value v data = \<lparr>sv_value = v, sv_generation_number = next_generation_number data\<rparr>"

definition store_value :: "key \<Rightarrow> bytes \<Rightarrow> stored_pairs \<Rightarrow> stored_pairs" where
  "store_value k v data =
     \<lparr>next_generation_number = next_generation_number data + 1,
      stored_values = map_put k (next_value v data) (stored_values data)\<rparr>"

definition MemoryWrite :: "int \<Rightarrow> key \<Rightarrow> bytes option \<Rightarrow> storage_generation \<Rightarrow> stored_pairs \<Rightarrow> stamp \<times> stored_pairs" where
  "MemoryWrite now k value cond data =
     (case map_of (stored_values data) k of
        None \<Rightarrow>
          if \<not> MatchesNoValue cond then ((Unknown, now), data)
          else (case value of
                  None \<Rightarrow> ((NoValue, now), data)
                | Some v \<Rightarrow> ((sv_generation (next_value v data), now), store_value k v data))
      | Some e \<Rightarrow>
          if \<not> MatchesWrite cond (sv_generation e) then ((Unknown, now), data)
          else (case value of
                  None \<Rightarrow> ((NoValue, now), data\<lparr>stored_values := map_erase k (stored_values data)\<rparr>)
                | Some v \<Rightarrow> ((sv_generation (next_value v data), now), store_value k v data)))"

definition MemoryDeleteRange :: "key_range \<Rightarrow> stored_pairs \<Rightarrow> stored_pairs" where
  "MemoryDeleteRange r data =
     (if \<not> range_empty r
      then data\<lparr>stored_values := map_erase_range
        (Find (stored_values data) (inclusive_min_key r) (exclusive_max_key r)) (stored_values data)\<rparr>
      else data)"

text \<open>The loop from one iterator to another. The result is \<open>None\<close> if it steps over the end of the map, where
  reading an entry is undefined. Cancellation by the receiver is left out.\<close>

function list_between :: "value_map \<Rightarrow> nat \<Rightarrow> nat \<Rightarrow> value_map option" where
  "list_between xs i j =
     (if i = j then Some []
      else if i < length xs then map_option (\<lambda>es. xs ! i # es) (list_between xs (i + 1) j)
      else None)"
  by auto
termination by (relation "measure (\<lambda>(xs, i, j). length xs - i)") auto

declare list_between.simps [simp del]

definition list_entry :: "nat \<Rightarrow> key \<times> stored_value \<Rightarrow> key \<times> int" where
  "list_entry strip_prefix_length e =
     (drop (min strip_prefix_length (length (fst e))) (fst e), int (length (sv_value (snd e))))"

definition MemoryList :: "stored_pairs \<Rightarrow> key_range \<Rightarrow> nat \<Rightarrow> (key \<times> int) list option" where
  "MemoryList data r strip_prefix_length =
     (let ij = Find (stored_values data) (inclusive_min_key r) (exclusive_max_key r)
      in map_option (map (list_entry strip_prefix_length)) (list_between (stored_values data) (fst ij) (snd ij)))"

section \<open>Transactions\<close>

record rmw_entry =
  rmw_key :: key
  rmw_stamp :: stamp
  rmw_value_state :: read_state
  rmw_value :: bytes
  orig_generation :: storage_generation

datatype mutation_entry = ReadModifyWriteEntry rmw_entry | DeleteRangeEntry key key "rmw_entry list"

definition ValidateRmwConditions :: "stored_pairs \<Rightarrow> int \<Rightarrow> rmw_entry \<Rightarrow> bool \<times> rmw_entry" where
  "ValidateRmwConditions data commit_time e =
     (let cond = Clean (fst (rmw_stamp e)); stamped = e\<lparr>rmw_stamp := (fst (rmw_stamp e), commit_time)\<rparr>
      in if IsUnknown cond then (True, e)
         else case map_of (stored_values data) (rmw_key e) of
                None \<Rightarrow> if IsNoValue cond then (True, stamped) else (False, e)
              | Some v \<Rightarrow> if Equivalent cond (sv_generation v) then (True, stamped) else (False, e))"

definition ValidateEntryConditions :: "stored_pairs \<Rightarrow> int \<Rightarrow> mutation_entry \<Rightarrow> bool \<times> mutation_entry" where
  "ValidateEntryConditions data commit_time m =
     (case m of
        ReadModifyWriteEntry e \<Rightarrow>
          (case ValidateRmwConditions data commit_time e of (ok, e') \<Rightarrow> (ok, ReadModifyWriteEntry e'))
      | DeleteRangeEntry k exclusive_max superseded \<Rightarrow>
          (let rs = map (ValidateRmwConditions data commit_time) superseded
           in (list_all fst rs, DeleteRangeEntry k exclusive_max (map snd rs))))"

definition ApplyEntry :: "int \<Rightarrow> mutation_entry \<Rightarrow> stored_pairs \<Rightarrow> mutation_entry \<times> stored_pairs" where
  "ApplyEntry commit_time m data =
     (case m of
        ReadModifyWriteEntry e \<Rightarrow>
          (let g = fst (rmw_stamp e)
           in if \<not> IsDirty g
              then (ReadModifyWriteEntry (e\<lparr>rmw_stamp := (g, commit_time), orig_generation := g\<rparr>), data)
              else if rmw_value_state e = kMissing
              then (ReadModifyWriteEntry (e\<lparr>rmw_stamp := (NoValue, commit_time), orig_generation := g\<rparr>),
                    data\<lparr>stored_values := map_erase (rmw_key e) (stored_values data)\<rparr>)
              else (ReadModifyWriteEntry (e\<lparr>rmw_stamp := (sv_generation (next_value (rmw_value e) data), commit_time),
                      orig_generation := g\<rparr>),
                    store_value (rmw_key e) (rmw_value e) data))
      | DeleteRangeEntry k exclusive_max superseded \<Rightarrow>
          (m, data\<lparr>stored_values := map_erase_range (Find (stored_values data) k exclusive_max) (stored_values data)\<rparr>))"

fun ApplyMutation :: "int \<Rightarrow> mutation_entry list \<Rightarrow> stored_pairs \<Rightarrow> mutation_entry list \<times> stored_pairs" where
  "ApplyMutation commit_time [] data = ([], data)"
| "ApplyMutation commit_time (m # ms) data =
     (let (m', data') = ApplyEntry commit_time m data;
          (ms', data'') = ApplyMutation commit_time ms data'
      in (m' # ms', data''))"

datatype commit_outcome = RetryAtomicWriteback | AtomicCommitWritebackSuccess | WritebackError

definition AllEntriesDone :: "bool \<Rightarrow> int \<Rightarrow> mutation_entry list \<Rightarrow> stored_pairs \<Rightarrow>
    commit_outcome \<times> mutation_entry list \<times> stored_pairs" where
  "AllEntriesDone has_error commit_time entries data =
     (if \<not> has_error then
        let rs = map (ValidateEntryConditions data commit_time) entries
        in if \<not> list_all fst rs then (RetryAtomicWriteback, map snd rs, data)
           else (AtomicCommitWritebackSuccess, ApplyMutation commit_time (map snd rs) data)
      else (WritebackError, entries, data))"

section \<open>operations.cc\<close>

text \<open>A store is a driver with a path that is the prefix of its keys; \<open>list_impl\<close> and \<open>delete_range\<close> are the operations of the
  driver.\<close>

definition kvstore_List :: "(key_range \<Rightarrow> nat \<Rightarrow> (key \<times> int) list option) \<Rightarrow> key \<Rightarrow> key_range \<Rightarrow> nat \<Rightarrow> (key \<times> int) list option" where
  "kvstore_List list_impl path r strip_prefix_length = list_impl (AddPrefix path r) (strip_prefix_length + length path)"

definition kvstore_DeleteRange :: "(key_range \<Rightarrow> 's \<Rightarrow> 's) \<Rightarrow> key \<Rightarrow> key_range \<Rightarrow> 's \<Rightarrow> 's" where
  "kvstore_DeleteRange delete_range path r = delete_range (AddPrefix path r)"

section \<open>The map of a store\<close>

definition ordered :: "value_map \<Rightarrow> bool" where
  "ordered xs \<longleftrightarrow> sorted_wrt (<) (map fst xs)"

definition store_map :: "stored_pairs \<Rightarrow> key \<rightharpoonup> stored_value" where
  "store_map data = map_of (stored_values data)"

text \<open>The keys are in order and every generation number was handed out before.\<close>

definition store_invariant :: "stored_pairs \<Rightarrow> bool" where
  "store_invariant data \<longleftrightarrow> ordered (stored_values data) \<and>
     (\<forall>e \<in> ran (store_map data). sv_generation_number e < next_generation_number data)"

lemma ordered_Cons [simp]: "ordered (e # xs) \<longleftrightarrow> (\<forall>x \<in> set xs. fst e < fst x) \<and> ordered xs"
  by (simp add: ordered_def)

lemma ordered_Nil [simp]: "ordered []"
  by (simp add: ordered_def)

lemma ordered_filter: "ordered xs \<Longrightarrow> ordered (filter P xs)"
  by (induction xs) auto

lemma ordered_distinct: "ordered xs \<Longrightarrow> distinct (map fst xs)"
  by (induction xs) auto

lemma takeWhile_ordered:
  "ordered xs \<Longrightarrow> (\<And>k k'. k < k' \<Longrightarrow> P k' \<Longrightarrow> P k) \<Longrightarrow> takeWhile (\<lambda>e. P (fst e)) xs = filter (\<lambda>e. P (fst e)) xs"
proof (induction xs)
  case (Cons e xs)
  have "filter (\<lambda>e. P (fst e)) xs = []" if "\<not> P (fst e)"
    using Cons.prems that by (auto simp: filter_empty_conv)
  then show ?case using Cons by simp
qed simp

lemma dropWhile_ordered:
  "ordered xs \<Longrightarrow> (\<And>k k'. k < k' \<Longrightarrow> P k' \<Longrightarrow> P k) \<Longrightarrow> dropWhile (\<lambda>e. P (fst e)) xs = filter (\<lambda>e. \<not> P (fst e)) xs"
proof (induction xs)
  case (Cons e xs)
  have "filter (\<lambda>e. \<not> P (fst e)) xs = xs" if "\<not> P (fst e)"
    using Cons.prems that by (auto simp: filter_id_conv)
  then show ?case using Cons by simp
qed simp

lemma take_lower_bound: "ordered xs \<Longrightarrow> take (lower_bound xs k) xs = filter (\<lambda>e. fst e < k) xs"
  using takeWhile_ordered [of xs "\<lambda>k'. k' < k"] takeWhile_eq_take [of "\<lambda>e. fst e < k" xs]
  by (simp add: lower_bound_def)

lemma drop_lower_bound: "ordered xs \<Longrightarrow> drop (lower_bound xs k) xs = filter (\<lambda>e. \<not> fst e < k) xs"
  using dropWhile_ordered [of xs "\<lambda>k'. k' < k"] dropWhile_eq_drop [of "\<lambda>e. fst e < k" xs]
  by (simp add: lower_bound_def)

lemma map_of_filter_key: "map_of (filter (\<lambda>e. P (fst e)) xs) = map_of xs |` {k. P k}"
  by (induction xs) (auto simp: restrict_map_def)

lemma map_put_ordered:
  assumes "ordered xs"
  shows "ordered (map_put k v xs) \<and> map_of (map_put k v xs) = (map_of xs)(k \<mapsto> v)"
proof -
  have eq: "map_put k v xs = filter (\<lambda>e. fst e < k) xs @ (k, v) # filter (\<lambda>e. \<not> fst e \<le> k) xs"
    using takeWhile_ordered [OF assms, of "\<lambda>k'. k' < k"] dropWhile_ordered [OF assms, of "\<lambda>k'. k' \<le> k"]
    by (simp add: map_put_def)
  have "ordered (map_put k v xs)"
    using ordered_filter [OF assms] unfolding eq by (auto simp: ordered_def sorted_wrt_append dest: order.strict_trans)
  moreover have "map_of (map_put k v xs) k' = ((map_of xs)(k \<mapsto> v)) k'" for k'
    unfolding eq by (simp add: map_add_def map_of_filter_key [of "\<lambda>k'. k' < k"] map_of_filter_key [of "\<lambda>k'. \<not> k' \<le> k"]
        restrict_map_def split: option.split)
  ultimately show ?thesis by blast
qed

lemma map_erase_ordered:
  "ordered xs \<Longrightarrow> ordered (map_erase k xs) \<and> map_of (map_erase k xs) = (map_of xs)(k := None)"
  using map_of_filter_key [of "\<lambda>k'. k' \<noteq> k" xs] ordered_filter [of xs]
  by (auto simp: map_erase_def restrict_map_def fun_eq_iff)

text \<open>The entries between the iterators of a range, and the ones outside of it.\<close>

lemma filter_append_ordered:
  "ordered xs \<Longrightarrow> (\<And>k k'. k < k' \<Longrightarrow> P k' \<Longrightarrow> P k) \<Longrightarrow> (\<And>k k'. k < k' \<Longrightarrow> Q k \<Longrightarrow> Q k') \<Longrightarrow> (\<And>k. \<not> (P k \<and> Q k)) \<Longrightarrow>
   filter (\<lambda>e. P (fst e)) xs @ filter (\<lambda>e. Q (fst e)) xs = filter (\<lambda>e. P (fst e) \<or> Q (fst e)) xs"
proof (induction xs)
  case (Cons e xs)
  have "filter (\<lambda>e. P (fst e)) xs = []" if "\<not> P (fst e)"
    using Cons.prems(1,2) that by (auto simp: filter_empty_conv)
  then show ?case using Cons.IH [OF _ Cons.prems(2-4)] Cons.prems(1,4) by (cases "P (fst e)") auto
qed simp

lemma erase_Find:
  assumes "ordered xs" "exclusive_max_key r = [] \<or> inclusive_min_key r < exclusive_max_key r"
  shows "map_erase_range (Find xs (inclusive_min_key r) (exclusive_max_key r)) xs = filter (\<lambda>e. fst e \<notin> keys_of r) xs"
proof (cases "exclusive_max_key r = []")
  case True
  then show ?thesis using take_lower_bound [OF assms(1)]
    by (simp add: map_erase_range_def Find_def mem_keys_of not_le)
next
  case False
  have "filter (\<lambda>e. fst e < inclusive_min_key r) xs @ filter (\<lambda>e. \<not> fst e < exclusive_max_key r) xs =
      filter (\<lambda>e. fst e < inclusive_min_key r \<or> \<not> fst e < exclusive_max_key r) xs"
    using assms False by (intro filter_append_ordered) auto
  then show ?thesis using False take_lower_bound [OF assms(1)] drop_lower_bound [OF assms(1)]
    by (simp add: map_erase_range_def Find_def mem_keys_of not_le)
qed

lemma range_not_empty: "\<not> range_empty r \<longleftrightarrow> exclusive_max_key r = [] \<or> inclusive_min_key r < exclusive_max_key r"
  by (auto simp: range_empty_def)

lemma list_between_eq:
  "i \<le> length xs \<Longrightarrow> j \<le> length xs \<Longrightarrow> list_between xs i j = (if i \<le> j then Some (take (j - i) (drop i xs)) else None)"
proof (induction xs i j rule: list_between.induct)
  case (1 xs i j)
  show ?case
  proof (cases "i = j")
    case True
    then show ?thesis by (subst list_between.simps) simp
  next
    case False
    have "take (j - i) (drop i xs) = xs ! i # take (j - (i + 1)) (drop (i + 1) xs)" if "i < j"
      using that 1(3) by (simp add: Cons_nth_drop_Suc [symmetric] take_Cons')
    then show ?thesis using 1 False by (subst list_between.simps) auto
  qed
qed

lemma lower_bound_le: "lower_bound xs k \<le> length xs"
  by (simp add: lower_bound_def length_takeWhile_le)

lemma lower_bound_eq: "ordered xs \<Longrightarrow> lower_bound xs k = length (filter (\<lambda>e. fst e < k) xs)"
  using takeWhile_ordered [of xs "\<lambda>k'. k' < k"] by (simp add: lower_bound_def)

lemma lower_bound_mono: "ordered xs \<Longrightarrow> k \<le> k' \<Longrightarrow> lower_bound xs k \<le> lower_bound xs k'"
  unfolding lower_bound_def
  by (induction xs) auto

text \<open>A list of a range that is not inverted returns the entries of the range in order.\<close>

lemma list_Find:
  assumes "ordered xs" "\<not> range_empty r"
  shows "list_between xs (fst (Find xs (inclusive_min_key r) (exclusive_max_key r))) (snd (Find xs (inclusive_min_key r) (exclusive_max_key r))) =
    Some (filter (\<lambda>e. fst e \<in> keys_of r) xs)"
proof -
  let ?lo = "inclusive_min_key r" and ?hi = "exclusive_max_key r"
  show ?thesis
  proof (cases "?hi = []")
    case True
    have "list_between xs (lower_bound xs ?lo) (length xs) = Some (drop (lower_bound xs ?lo) xs)"
      using list_between_eq [of "lower_bound xs ?lo" xs "length xs"] lower_bound_le [of xs ?lo] by simp
    also have "drop (lower_bound xs ?lo) xs = filter (\<lambda>e. fst e \<in> keys_of r) xs"
      using True drop_lower_bound [OF assms(1), of ?lo] by (simp add: mem_keys_of not_less)
    finally show ?thesis using True by (simp add: Find_def)
  next
    case False
    have le: "lower_bound xs ?lo \<le> lower_bound xs ?hi"
      using assms False by (intro lower_bound_mono) (auto simp: range_not_empty)
    have "take (lower_bound xs ?hi - lower_bound xs ?lo) (drop (lower_bound xs ?lo) xs) =
        drop (lower_bound xs ?lo) (take (lower_bound xs ?hi) xs)" by (simp add: take_drop le)
    also have "\<dots> = drop (lower_bound (filter (\<lambda>e. fst e < ?hi) xs) ?lo) (filter (\<lambda>e. fst e < ?hi) xs)"
    proof -
      have "fst e < ?hi \<and> fst e < ?lo \<longleftrightarrow> fst e < ?lo" for e :: "key \<times> stored_value"
        using assms(2) False by (auto simp: range_not_empty)
      then have "lower_bound (filter (\<lambda>e. fst e < ?hi) xs) ?lo = lower_bound xs ?lo"
        by (simp add: lower_bound_eq [OF assms(1)] lower_bound_eq [OF ordered_filter [OF assms(1)]])
      then show ?thesis by (simp add: take_lower_bound [OF assms(1)])
    qed
    also have "\<dots> = filter (\<lambda>e. fst e \<in> keys_of r) xs"
      using False drop_lower_bound [OF ordered_filter [OF assms(1)]] by (simp add: mem_keys_of not_less conj_commute)
    finally show ?thesis using False le lower_bound_le [of xs] by (simp add: Find_def list_between_eq)
  qed
qed

section \<open>The operations on the map\<close>

lemma store_map_store_value:
  "ordered (stored_values data) \<Longrightarrow> store_map (store_value k v data) = (store_map data)(k \<mapsto> next_value v data)"
  using map_put_ordered by (simp add: store_map_def store_value_def)

lemma store_map_erase:
  "ordered (stored_values data) \<Longrightarrow>
   store_map (data\<lparr>stored_values := map_erase k (stored_values data)\<rparr>) = (store_map data)(k := None)"
  using map_erase_ordered by (simp add: store_map_def)

definition erase_keys :: "key_range \<Rightarrow> stored_pairs \<Rightarrow> stored_pairs" where
  "erase_keys r data = data\<lparr>stored_values := map_erase_range
     (Find (stored_values data) (inclusive_min_key r) (exclusive_max_key r)) (stored_values data)\<rparr>"

lemma store_map_erase_keys:
  "ordered (stored_values data) \<Longrightarrow> \<not> range_empty r \<Longrightarrow> store_map (erase_keys r data) = store_map data |` (- keys_of r)"
  using erase_Find [of "stored_values data" r] map_of_filter_key [of "\<lambda>k. k \<notin> keys_of r" "stored_values data"]
  by (simp add: store_map_def erase_keys_def range_not_empty Compl_eq)

lemma MemoryDeleteRange_eq: "MemoryDeleteRange r data = (if range_empty r then data else erase_keys r data)"
  by (simp add: MemoryDeleteRange_def erase_keys_def)

lemma ordered_store_value: "ordered (stored_values data) \<Longrightarrow> ordered (stored_values (store_value k v data))"
  using map_put_ordered by (simp add: store_value_def)

lemma ordered_erase: "ordered (stored_values data) \<Longrightarrow> ordered (map_erase k (stored_values data))"
  by (simp add: map_erase_def ordered_filter)

lemma ordered_erase_keys: "ordered (stored_values data) \<Longrightarrow> \<not> range_empty r \<Longrightarrow> ordered (stored_values (erase_keys r data))"
  using erase_Find [of "stored_values data" r] by (simp add: erase_keys_def range_not_empty ordered_filter)

lemma MemoryList_map:
  assumes "store_invariant data" "\<not> range_empty r"
  shows "MemoryList data r n = Some (map (list_entry n) (filter (\<lambda>e. fst e \<in> keys_of r) (stored_values data)))"
  using list_Find [OF _ assms(2), of "stored_values data"] assms(1)
  by (simp add: MemoryList_def Let_def store_invariant_def)

text \<open>Every operation keeps the invariant while the counter of generations does not wrap around.\<close>

lemma store_invariant_step:
  assumes "store_invariant data" "ordered (stored_values data')"
    and "next_generation_number data \<le> next_generation_number data'"
    and "\<And>k e. store_map data' k = Some e \<Longrightarrow> store_map data k = Some e \<or> sv_generation_number e < next_generation_number data'"
  shows "store_invariant data'"
  unfolding store_invariant_def
proof (intro conjI ballI)
  fix e
  assume "e \<in> ran (store_map data')"
  then obtain k where "store_map data' k = Some e" by (auto simp: ran_def)
  from assms(4) [OF this] show "sv_generation_number e < next_generation_number data'"
  proof
    assume "store_map data k = Some e"
    then have "sv_generation_number e < next_generation_number data" using assms(1) by (auto simp: store_invariant_def ran_def)
    then show ?thesis using assms(3) by (rule order.strict_trans2)
  qed
qed (rule assms(2))

lemma next_generation_less: "next_generation_number data \<noteq> - 1 \<Longrightarrow> next_generation_number data < next_generation_number data + 1"
  using inc_less_eq_self_iff_eq [of "next_generation_number data"] by (simp add: not_le)

lemma store_invariant_store_value:
  assumes "store_invariant data" "next_generation_number data \<noteq> - 1"
  shows "store_invariant (store_value k v data)"
proof (rule store_invariant_step [OF assms(1)])
  have o: "ordered (stored_values data)" using assms(1) by (simp add: store_invariant_def)
  then show "ordered (stored_values (store_value k v data))" by (rule ordered_store_value)
  show "next_generation_number data \<le> next_generation_number (store_value k v data)"
    using next_generation_less [OF assms(2)] by (simp add: store_value_def)
  fix k' e
  assume "store_map (store_value k v data) k' = Some e"
  then show "store_map data k' = Some e \<or> sv_generation_number e < next_generation_number (store_value k v data)"
    using next_generation_less [OF assms(2)] store_map_store_value [OF o]
    by (auto simp: next_value_def store_value_def split: if_splits)
qed

lemma store_invariant_remove:
  assumes "store_invariant data" "ordered xs" "map_of xs \<subseteq>\<^sub>m store_map data"
  shows "store_invariant (data\<lparr>stored_values := xs\<rparr>)"
  by (rule store_invariant_step [OF assms(1)]) (use assms in \<open>auto simp: store_map_def map_le_def dom_def\<close>)

lemma store_invariant_erase: "store_invariant data \<Longrightarrow> store_invariant (data\<lparr>stored_values := map_erase k (stored_values data)\<rparr>)"
  using map_erase_ordered [of "stored_values data" k]
  by (intro store_invariant_remove) (auto simp: store_invariant_def map_le_def store_map_def)

lemma store_invariant_erase_keys:
  assumes "store_invariant data" "\<not> range_empty r"
  shows "store_invariant (erase_keys r data)"
proof -
  have o: "ordered (stored_values data)" using assms(1) by (simp add: store_invariant_def)
  have "map_of (stored_values (erase_keys r data)) \<subseteq>\<^sub>m store_map data"
    using store_map_erase_keys [OF o assms(2)] by (auto simp: store_map_def map_le_def restrict_map_def split: if_splits)
  then show ?thesis using store_invariant_remove [OF assms(1) ordered_erase_keys [OF o assms(2)]]
    by (simp add: erase_keys_def)
qed

section \<open>The interface of a driver\<close>

text \<open>What a store relies on: a list of a range that is not empty returns the keys of the range in order, each without the
  prefix to strip, and deleting a range removes its keys and nothing else.\<close>

locale kv_driver =
  fixes invar :: "'s \<Rightarrow> bool" and contents :: "'s \<Rightarrow> key \<rightharpoonup> 'e"
    and list_impl :: "'s \<Rightarrow> key_range \<Rightarrow> nat \<Rightarrow> (key \<times> int) list option"
    and delete_range :: "key_range \<Rightarrow> 's \<Rightarrow> 's"
  assumes list_keys: "invar st \<Longrightarrow> \<not> range_empty r \<Longrightarrow>
      \<exists>ks. map_option (map fst) (list_impl st r n) = Some (map (drop n) ks) \<and> sorted_wrt (<) ks \<and>
        set ks = dom (contents st) \<inter> keys_of r"
    and delete_range_contents: "invar st \<Longrightarrow> contents (delete_range r st) = contents st |` (- keys_of r)"
    and delete_range_invar: "invar st \<Longrightarrow> invar (delete_range r st)"
begin

lemma prefix_not_empty: "\<not> range_empty r \<Longrightarrow> \<not> range_empty (AddPrefix path r)"
  by (simp add: range_empty_iff keys_AddPrefix)

lemma list_store:
  assumes "invar st" "\<not> range_empty r"
  shows "\<exists>ks. map_option (map fst) (kvstore_List (list_impl st) path r 0) = Some ks \<and> sorted_wrt (<) ks \<and>
    set ks = {k \<in> keys_of r. path @ k \<in> dom (contents st)}"
proof -
  obtain ks where ks: "map_option (map fst) (list_impl st (AddPrefix path r) (length path)) = Some (map (drop (length path)) ks)"
    "sorted_wrt (<) ks" "set ks = dom (contents st) \<inter> keys_of (AddPrefix path r)"
    using list_keys [OF assms(1) prefix_not_empty [OF assms(2)]] by blast
  have pre: "k = path @ drop (length path) k" if "k \<in> set ks" for k
    using that ks(3) by (auto simp: keys_AddPrefix)
  have "sorted_wrt (<) (map (drop (length path)) ks)"
    unfolding sorted_wrt_map
    by (rule sorted_wrt_mono_rel [OF _ ks(2)]) (metis append_less_append pre)
  moreover have "set (map (drop (length path)) ks) = {k \<in> keys_of r. path @ k \<in> dom (contents st)}"
    unfolding set_map ks(3) keys_AddPrefix by (auto intro: rev_image_eqI)
  ultimately show ?thesis using ks(1) unfolding kvstore_List_def add_0 by blast
qed

lemma delete_store:
  assumes "invar st"
  shows "contents (kvstore_DeleteRange delete_range path r st) =
    contents st |` (- ((\<lambda>k. path @ k) ` keys_of r))"
  using delete_range_contents [OF assms] by (simp add: kvstore_DeleteRange_def keys_AddPrefix)

lemma list_deleted:
  assumes "invar st" "\<not> range_empty r"
  shows "map_option (map fst) (kvstore_List (list_impl (kvstore_DeleteRange delete_range path r st)) path r 0) = Some []"
proof -
  let ?st = "kvstore_DeleteRange delete_range path r st"
  have inv: "invar ?st" using delete_range_invar [OF assms(1)] by (simp add: kvstore_DeleteRange_def)
  have "{k \<in> keys_of r. path @ k \<in> dom (contents ?st)} = {}" using delete_store [OF assms(1)] by auto
  then show ?thesis using list_store [OF inv assms(2), of path] by (metis set_empty)
qed

end

lemma list_entry_eq: "list_entry n e = (drop n (fst e), int (length (sv_value (snd e))))"
  by (simp add: list_entry_def min_def)

interpretation memory: kv_driver store_invariant store_map MemoryList MemoryDeleteRange
proof
  fix st r n
  assume inv: "store_invariant st" and r: "\<not> range_empty r"
  let ?es = "filter (\<lambda>e. fst e \<in> keys_of r) (stored_values st)"
  have o: "ordered (stored_values st)" using inv by (simp add: store_invariant_def)
  have "map_option (map fst) (MemoryList st r n) = Some (map (drop n) (map fst ?es))"
    by (simp add: MemoryList_map [OF inv r] list_entry_eq)
  moreover have "sorted_wrt (<) (map fst ?es)" using ordered_filter [OF o] by (simp add: ordered_def)
  moreover have "set (map fst ?es) = dom (store_map st) \<inter> keys_of r"
    by (auto simp: store_map_def dom_map_of_conv_image_fst)
  ultimately show "\<exists>ks. map_option (map fst) (MemoryList st r n) = Some (map (drop n) ks) \<and> sorted_wrt (<) ks \<and>
      set ks = dom (store_map st) \<inter> keys_of r" by blast
next
  fix st r
  assume inv: "store_invariant st"
  then have o: "ordered (stored_values st)" by (simp add: store_invariant_def)
  show "store_map (MemoryDeleteRange r st) = store_map st |` (- keys_of r)"
    using store_map_erase_keys [OF o, of r] by (auto simp: MemoryDeleteRange_eq range_empty_iff)
  show "store_invariant (MemoryDeleteRange r st)"
    using store_invariant_erase_keys [OF inv, of r] inv by (simp add: MemoryDeleteRange_eq)
qed

text \<open>A list of an inverted range that has a key between its bounds steps over the end of the map.\<close>

lemma list_inverted_range:
  assumes "store_invariant data" "exclusive_max_key r \<noteq> []" "exclusive_max_key r \<le> k" "k < inclusive_min_key r"
    and "k \<in> dom (store_map data)"
  shows "MemoryList data r n = None"
proof -
  let ?xs = "stored_values data"
  have o: "ordered ?xs" using assms(1) by (simp add: store_invariant_def)
  obtain v where kv: "(k, v) \<in> set ?xs" using assms(5) by (auto simp: store_map_def dest: map_of_SomeD)
  have "filter (\<lambda>e. fst e < exclusive_max_key r) ?xs = filter (\<lambda>e. fst e < exclusive_max_key r) (filter (\<lambda>e. fst e < inclusive_min_key r) ?xs)"
    using assms(3,4) by (auto intro!: filter_cong)
  also have "length \<dots> < length (filter (\<lambda>e. fst e < inclusive_min_key r) ?xs)"
    using kv assms(3,4) by (intro length_filter_less [of "(k, v)"]) auto
  finally have "lower_bound ?xs (exclusive_max_key r) < lower_bound ?xs (inclusive_min_key r)"
    by (simp add: lower_bound_eq [OF o])
  then show ?thesis using assms(2) lower_bound_le [of ?xs] by (simp add: MemoryList_def Find_def list_between_eq Let_def)
qed

section \<open>Generations identify values\<close>

datatype store_operation =
    WriteOperation int key "bytes option" storage_generation
  | DeleteRangeOperation key_range
  | CommitOperation bool int "mutation_entry list"

definition run_operation :: "store_operation \<Rightarrow> stored_pairs \<Rightarrow> stored_pairs" where
  "run_operation op data =
     (case op of
        WriteOperation now k value cond \<Rightarrow> snd (MemoryWrite now k value cond data)
      | DeleteRangeOperation r \<Rightarrow> MemoryDeleteRange r data
      | CommitOperation has_error commit_time entries \<Rightarrow> snd (snd (AllEntriesDone has_error commit_time entries data)))"

text \<open>The ranges that a transaction deletes are not empty, which adding them to the transaction ensures.\<close>

definition valid_entry :: "mutation_entry \<Rightarrow> bool" where
  "valid_entry m \<longleftrightarrow>
     (case m of ReadModifyWriteEntry e \<Rightarrow> True
      | DeleteRangeEntry k exclusive_max superseded \<Rightarrow>
          \<not> range_empty \<lparr>inclusive_min_key = k, exclusive_max_key = exclusive_max\<rparr>)"

definition valid_operation :: "store_operation \<Rightarrow> bool" where
  "valid_operation op \<longleftrightarrow> (case op of CommitOperation has_error t entries \<Rightarrow> list_all valid_entry entries | _ \<Rightarrow> True)"

text \<open>The number of generations an operation may take.\<close>

definition operation_cost :: "store_operation \<Rightarrow> nat" where
  "operation_cost op = (case op of WriteOperation now k value cond \<Rightarrow> 1 | DeleteRangeOperation r \<Rightarrow> 0
     | CommitOperation has_error t entries \<Rightarrow> length entries)"

definition evolves :: "nat \<Rightarrow> stored_pairs \<Rightarrow> stored_pairs \<Rightarrow> bool" where
  "evolves n data data' \<longleftrightarrow> store_invariant data' \<and>
     unat (next_generation_number data) \<le> unat (next_generation_number data') \<and>
     unat (next_generation_number data') \<le> unat (next_generation_number data) + n \<and>
     (\<forall>k e. store_map data' k = Some e \<longrightarrow>
        store_map data k = Some e \<or> next_generation_number data \<le> sv_generation_number e)"

lemma evolves_refl: "store_invariant data \<Longrightarrow> evolves n data data"
  by (simp add: evolves_def)

lemma evolves_trans:
  assumes ab: "evolves n a b" and bc: "evolves m b c"
  shows "evolves (n + m) a c"
proof -
  have "store_map a k = Some e \<or> next_generation_number a \<le> sv_generation_number e" if "store_map c k = Some e" for k e
  proof -
    from bc that consider "store_map b k = Some e" | "next_generation_number b \<le> sv_generation_number e"
      by (auto simp: evolves_def)
    then show ?thesis using ab by cases (auto simp: evolves_def word_le_nat_alt)
  qed
  then show ?thesis using ab bc by (auto simp: evolves_def)
qed

lemma evolves_store_value:
  assumes "store_invariant data" "unat (next_generation_number data) + 1 < 2 ^ 64"
  shows "evolves 1 data (store_value k v data)"
proof -
  let ?g = "next_generation_number data"
  have "unat (?g + 1) = unat ?g + 1" using assms(2) unat_add_lem [of ?g 1] by simp
  moreover from this have "?g \<noteq> - 1" by (metis add.left_inverse add_is_0 one_neq_zero unat_0)
  moreover have "ordered (stored_values data)" using assms(1) by (simp add: store_invariant_def)
  ultimately show ?thesis
    using store_invariant_store_value [OF assms(1)] store_map_store_value [of data k v]
    by (auto simp: evolves_def store_value_def next_value_def split: if_splits)
qed

lemma evolves_remove:
  assumes "store_invariant data'" "next_generation_number data' = next_generation_number data" "store_map data' \<subseteq>\<^sub>m store_map data"
  shows "evolves n data data'"
  using assms by (auto simp: evolves_def map_le_def dom_def)

lemma evolves_erase: "store_invariant data \<Longrightarrow> evolves n data (data\<lparr>stored_values := map_erase k (stored_values data)\<rparr>)"
  using store_map_erase [of data k] by (intro evolves_remove store_invariant_erase) (auto simp: map_le_def store_invariant_def)

lemma evolves_erase_keys: "store_invariant data \<Longrightarrow> \<not> range_empty r \<Longrightarrow> evolves n data (erase_keys r data)"
  using store_map_erase_keys [of data r]
  by (intro evolves_remove store_invariant_erase_keys) (auto simp: map_le_def store_invariant_def restrict_map_def erase_keys_def)

lemma evolves_ApplyEntry:
  assumes "store_invariant data" "unat (next_generation_number data) + 1 < 2 ^ 64" "valid_entry m"
  shows "evolves 1 data (snd (ApplyEntry t m data))"
proof (cases m)
  case (ReadModifyWriteEntry e)
  then show ?thesis using assms evolves_refl evolves_erase evolves_store_value by (auto simp: ApplyEntry_def Let_def)
next
  case (DeleteRangeEntry k hi superseded)
  then show ?thesis using evolves_erase_keys [OF assms(1), of "\<lparr>inclusive_min_key = k, exclusive_max_key = hi\<rparr>"] assms(3)
    by (simp add: ApplyEntry_def valid_entry_def erase_keys_def)
qed

lemma evolves_ApplyMutation:
  "store_invariant data \<Longrightarrow> unat (next_generation_number data) + length ms < 2 ^ 64 \<Longrightarrow> list_all valid_entry ms \<Longrightarrow>
   evolves (length ms) data (snd (ApplyMutation t ms data))"
proof (induction ms arbitrary: data)
  case Nil
  then show ?case by (simp add: evolves_refl)
next
  case (Cons m ms)
  have one: "evolves 1 data (snd (ApplyEntry t m data))" using Cons.prems by (intro evolves_ApplyEntry) auto
  then have "evolves (length ms) (snd (ApplyEntry t m data)) (snd (ApplyMutation t ms (snd (ApplyEntry t m data))))"
    using Cons.prems by (intro Cons.IH) (auto simp: evolves_def)
  then show ?case using evolves_trans [OF one] by (auto simp: Let_def split: prod.splits)
qed

lemma valid_validated: "list_all valid_entry (map snd (map (ValidateEntryConditions data t) ms)) = list_all valid_entry ms"
proof -
  have "valid_entry (snd (ValidateEntryConditions data t m)) = valid_entry m" for m
    by (cases m) (auto simp: ValidateEntryConditions_def valid_entry_def Let_def split: prod.splits)
  then show ?thesis by (simp add: list_all_iff)
qed

lemma evolves_run_operation:
  assumes "store_invariant data" "unat (next_generation_number data) + operation_cost op < 2 ^ 64" "valid_operation op"
  shows "evolves (operation_cost op) data (run_operation op data)"
proof (cases op)
  case (WriteOperation now k v cond)
  then show ?thesis using assms evolves_refl evolves_erase evolves_store_value [of data k]
    by (auto simp: run_operation_def operation_cost_def MemoryWrite_def split: option.splits)
next
  case (DeleteRangeOperation r)
  then show ?thesis using assms evolves_refl evolves_erase_keys
    by (auto simp: run_operation_def MemoryDeleteRange_eq)
next
  case (CommitOperation has_error t entries)
  then show ?thesis using assms evolves_refl evolves_ApplyMutation [of data "map snd (map (ValidateEntryConditions data t) entries)" t]
    by (auto simp: run_operation_def operation_cost_def AllEntriesDone_def Let_def valid_operation_def valid_validated simp del: map_map)
qed

lemma evolves_run_operations:
  "store_invariant data \<Longrightarrow> unat (next_generation_number data) + sum_list (map operation_cost ops) < 2 ^ 64 \<Longrightarrow>
   list_all valid_operation ops \<Longrightarrow> evolves (sum_list (map operation_cost ops)) data (fold run_operation ops data)"
proof (induction ops arbitrary: data)
  case Nil
  then show ?case by (simp add: evolves_refl)
next
  case (Cons op ops)
  have one: "evolves (operation_cost op) data (run_operation op data)" using Cons.prems by (intro evolves_run_operation) auto
  then have "evolves (sum_list (map operation_cost ops)) (run_operation op data) (fold run_operation ops (run_operation op data))"
    using Cons.prems by (intro Cons.IH) (auto simp: evolves_def)
  then show ?case using evolves_trans [OF one] by simp
qed

section \<open>Commits\<close>

definition value_of :: "stored_pairs \<Rightarrow> key \<rightharpoonup> bytes" where
  "value_of data k = map_option sv_value (store_map data k)"

text \<open>The condition that an entry puts on the stored value: it is based on no generation, or on the current
  one.\<close>

definition rmw_condition :: "stored_pairs \<Rightarrow> rmw_entry \<Rightarrow> bool" where
  "rmw_condition data e \<longleftrightarrow>
     (let cond = Clean (fst (rmw_stamp e))
      in IsUnknown cond \<or>
         (case store_map data (rmw_key e) of None \<Rightarrow> IsNoValue cond | Some v \<Rightarrow> Equivalent cond (sv_generation v)))"

definition entry_condition :: "stored_pairs \<Rightarrow> mutation_entry \<Rightarrow> bool" where
  "entry_condition data m \<longleftrightarrow>
     (case m of ReadModifyWriteEntry e \<Rightarrow> rmw_condition data e
      | DeleteRangeEntry k exclusive_max superseded \<Rightarrow> list_all (rmw_condition data) superseded)"

text \<open>What an entry does to the values.\<close>

definition entry_effect :: "mutation_entry \<Rightarrow> (key \<rightharpoonup> bytes) \<Rightarrow> (key \<rightharpoonup> bytes)" where
  "entry_effect m f =
     (case m of
        ReadModifyWriteEntry e \<Rightarrow>
          if \<not> IsDirty (fst (rmw_stamp e)) then f
          else f(rmw_key e := if rmw_value_state e = kMissing then None else Some (rmw_value e))
      | DeleteRangeEntry k exclusive_max superseded \<Rightarrow>
          f |` (- keys_of \<lparr>inclusive_min_key = k, exclusive_max_key = exclusive_max\<rparr>))"

lemma ValidateRmwConditions_iff: "fst (ValidateRmwConditions data t e) \<longleftrightarrow> rmw_condition data e"
  by (auto simp: ValidateRmwConditions_def rmw_condition_def store_map_def Let_def split: option.splits)

lemma ValidateRmwConditions_same:
  "rmw_key (snd (ValidateRmwConditions data t e)) = rmw_key e \<and> fst (rmw_stamp (snd (ValidateRmwConditions data t e))) = fst (rmw_stamp e) \<and>
   rmw_value_state (snd (ValidateRmwConditions data t e)) = rmw_value_state e \<and> rmw_value (snd (ValidateRmwConditions data t e)) = rmw_value e"
  by (auto simp: ValidateRmwConditions_def Let_def split: option.splits)

lemma ValidateEntryConditions_iff: "fst (ValidateEntryConditions data t m) \<longleftrightarrow> entry_condition data m"
proof (cases m)
  case (ReadModifyWriteEntry e)
  then show ?thesis using ValidateRmwConditions_iff [of data t e]
    by (auto simp: ValidateEntryConditions_def entry_condition_def split: prod.splits)
qed (simp add: ValidateEntryConditions_def entry_condition_def Let_def list_all_iff ValidateRmwConditions_iff)

lemma ValidateEntryConditions_effect: "entry_effect (snd (ValidateEntryConditions data t m)) = entry_effect m"
proof (cases m)
  case (ReadModifyWriteEntry e)
  then show ?thesis using ValidateRmwConditions_same [of data t e]
    by (auto simp: ValidateEntryConditions_def entry_effect_def fun_eq_iff split: prod.splits)
qed (auto simp: ValidateEntryConditions_def entry_effect_def Let_def fun_eq_iff)

lemma ApplyEntry_effect:
  assumes "ordered (stored_values data)" "valid_entry m"
  shows "value_of (snd (ApplyEntry t m data)) = entry_effect m (value_of data) \<and> ordered (stored_values (snd (ApplyEntry t m data)))"
proof (cases m)
  case (ReadModifyWriteEntry e)
  then show ?thesis
    using store_map_erase [OF assms(1), of "rmw_key e"] store_map_store_value [OF assms(1), of "rmw_key e" "rmw_value e"]
      ordered_store_value [OF assms(1)] ordered_erase [OF assms(1)] assms(1)
    by (auto simp: ApplyEntry_def entry_effect_def value_of_def next_value_def Let_def fun_eq_iff)
next
  case (DeleteRangeEntry k hi superseded)
  let ?r = "\<lparr>inclusive_min_key = k, exclusive_max_key = hi\<rparr>"
  have ne: "\<not> range_empty ?r" using assms(2) DeleteRangeEntry by (simp add: valid_entry_def)
  have "snd (ApplyEntry t m data) = erase_keys ?r data" using DeleteRangeEntry by (simp add: ApplyEntry_def erase_keys_def)
  then show ?thesis
    using store_map_erase_keys [OF assms(1) ne] ordered_erase_keys [OF assms(1) ne] DeleteRangeEntry
    by (auto simp: entry_effect_def value_of_def restrict_map_def fun_eq_iff)
qed

lemma ApplyMutation_effect:
  "ordered (stored_values data) \<Longrightarrow> list_all valid_entry ms \<Longrightarrow>
   value_of (snd (ApplyMutation t ms data)) = fold entry_effect ms (value_of data)"
proof (induction ms arbitrary: data)
  case (Cons m ms)
  have "value_of (snd (ApplyEntry t m data)) = entry_effect m (value_of data)" "ordered (stored_values (snd (ApplyEntry t m data)))"
    using ApplyEntry_effect [of data m t] Cons.prems by auto
  then show ?case using Cons.IH [of "snd (ApplyEntry t m data)"] Cons.prems by (auto simp: Let_def split: prod.splits)
qed simp

lemma sv_generation_inject: "sv_generation e = sv_generation e' \<longleftrightarrow> sv_generation_number e = sv_generation_number e'"
  by (metis ToUint64_FromUint64 sv_generation_def)

section \<open>Properties\<close>

text \<open>C20: listing and deleting through a store with a path act on the keys that have the path as a prefix:
  a list of a range that is not empty returns, in increasing order, exactly the keys of the range under the path,
  without the path; deleting a range removes exactly its keys under the path; and after that the list is
  empty.\<close>

theorem memory_store_ranges:
  assumes "store_invariant data" and "\<not> range_empty r"
  shows "(\<exists>ks. map_option (map fst) (kvstore_List (MemoryList data) path r 0) = Some ks \<and> sorted_wrt (<) ks \<and>
      set ks = {k \<in> keys_of r. path @ k \<in> dom (store_map data)}) \<and>
    store_map (kvstore_DeleteRange MemoryDeleteRange path r data) = store_map data |` (- ((\<lambda>k. path @ k) ` keys_of r)) \<and>
    map_option (map fst) (kvstore_List (MemoryList (kvstore_DeleteRange MemoryDeleteRange path r data)) path r 0) = Some []"
  using memory.list_store [OF assms] memory.delete_store [OF assms(1)] memory.list_deleted [OF assms] by blast

definition ex_store :: stored_pairs where
  "ex_store = store_value [97, 2] [7] (store_value [97, 1] [8] \<lparr>next_generation_number = 0, stored_values = []\<rparr>)"

lemma ex_store_eq: "ex_store = \<lparr>next_generation_number = 2,
    stored_values = [([97, 1], \<lparr>sv_value = [8], sv_generation_number = 0\<rparr>), ([97, 2], \<lparr>sv_value = [7], sv_generation_number = 1\<rparr>)]\<rparr>"
  by (simp add: ex_store_def store_value_def map_put_def next_value_def)

lemma ex_store_invariant: "store_invariant ex_store"
  by (auto simp: ex_store_eq store_invariant_def ordered_def store_map_def ran_def)

theorem memory_store_ranges_witness:
  "map_option (map fst) (kvstore_List (MemoryList (kvstore_DeleteRange MemoryDeleteRange [97] FullRange ex_store)) [97] FullRange 0) = Some []"
  using memory_store_ranges [OF ex_store_invariant, of FullRange "[97]"] by (simp add: FullRange_def range_empty_def)

text \<open>C19: a write takes effect exactly if its condition holds for the current generation of the key, or for its absence: then
  the key has the new value with the next generation, or no value for a deletion, and no other key is changed; otherwise
  nothing is changed and the unknown generation is returned.\<close>

theorem memory_write_exact:
  assumes "store_invariant data" "MemoryWrite now k v cond data = (st, data')"
  shows "if (case store_map data k of None \<Rightarrow> MatchesNoValue cond | Some e \<Rightarrow> MatchesWrite cond (sv_generation e))
    then store_map data' = (store_map data)(k := map_option (\<lambda>x. next_value x data) v) \<and>
      st = (case v of None \<Rightarrow> NoValue | Some x \<Rightarrow> sv_generation (next_value x data), now)
    else data' = data \<and> st = (Unknown, now)"
proof -
  have o: "ordered (stored_values data)" using assms(1) by (simp add: store_invariant_def)
  have none: "store_map data k = None \<Longrightarrow> (store_map data)(k := None) = store_map data" by auto
  show ?thesis using assms(2) none store_map_erase [OF o] store_map_store_value [OF o]
    by (auto simp: MemoryWrite_def store_map_def [symmetric] split: option.splits if_splits)
qed

theorem memory_write_exact_witness:
  "fst (MemoryWrite 5 [97, 2] (Some [9]) (FromUint64 1) ex_store) = (FromUint64 2, 5)"
proof -
  have "MatchesWrite (FromUint64 1) (FromUint64 1)" by (simp add: MatchesWrite_def Equivalent_def)
  then show ?thesis
    using memory_write_exact [OF ex_store_invariant prod.collapse [symmetric],
      where now = 5 and k = "[97, 2]" and v = "Some [9]" and cond = "FromUint64 1"]
    by (simp add: ex_store_eq store_map_def sv_generation_def next_value_def)
qed

text \<open>C18: a generation identifies a value: if after any further writes, deletions and
  commits of transactions a key has a generation that it had before, then its value is the one it had
  with this generation, as long as the 64-bit counter does not wrap around.\<close>

theorem memory_store_generations:
  assumes "store_invariant data" and "list_all valid_operation ops"
    and "unat (next_generation_number data) + sum_list (map operation_cost ops) < 2 ^ 64"
    and "store_map data k = Some e" and "store_map (fold run_operation ops data) k = Some e'"
    and "sv_generation e' = sv_generation e"
  shows "e' = e"
proof -
  have "sv_generation_number e < next_generation_number data" using assms(1,4) by (auto simp: store_invariant_def ran_def)
  moreover have "store_map data k = Some e' \<or> next_generation_number data \<le> sv_generation_number e'"
    using evolves_run_operations [OF assms(1,3,2)] assms(5) by (auto simp: evolves_def)
  ultimately show ?thesis using assms(4,6) by (auto simp: sv_generation_inject)
qed

theorem memory_store_generations_witness:
  "store_map (fold run_operation [WriteOperation 0 [97, 1] (Some [9]) [], DeleteRangeOperation (Prefix [98])] ex_store) [97, 2] =
   Some \<lparr>sv_value = [7], sv_generation_number = 1\<rparr>"
proof -
  let ?ops = "[WriteOperation 0 [97, 1] (Some [9]) [], DeleteRangeOperation (Prefix [98])]"
  have "map_option sv_generation_number (store_map (fold run_operation ?ops ex_store) [97, 2]) = Some 1" by code_simp
  then obtain e' where e': "store_map (fold run_operation ?ops ex_store) [97, 2] = Some e'" "sv_generation_number e' = 1"
    by (auto simp del: fold_simps)
  have "e' = \<lparr>sv_value = [7], sv_generation_number = 1\<rparr>"
    by (rule memory_store_generations [OF ex_store_invariant _ _ _ e'(1)])
      (simp_all add: e'(2) sv_generation_def ex_store_eq store_map_def valid_operation_def operation_cost_def)
  then show ?thesis using e'(1) by simp
qed

text \<open>C17: the commit of a transaction is atomic: it succeeds exactly if the conditions of all its entries hold for
  the stored values, and then all entries take effect in order; otherwise nothing is changed.\<close>

theorem memory_commit_atomic:
  assumes "store_invariant data" and "list_all valid_entry entries"
    and "AllEntriesDone has_error commit_time entries data = (outcome, entries', data')"
  shows "(outcome = AtomicCommitWritebackSuccess \<longleftrightarrow> \<not> has_error \<and> list_all (entry_condition data) entries) \<and>
    (if outcome = AtomicCommitWritebackSuccess then value_of data' = fold entry_effect entries (value_of data) else data' = data)"
proof -
  let ?ms = "map snd (map (ValidateEntryConditions data commit_time) entries)"
  have o: "ordered (stored_values data)" using assms(1) by (simp add: store_invariant_def)
  have "fold entry_effect ?ms f = fold entry_effect entries f" for f
    by (induction entries arbitrary: f) (simp_all add: ValidateEntryConditions_effect)
  then have "value_of (snd (ApplyMutation commit_time ?ms data)) = fold entry_effect entries (value_of data)"
    using ApplyMutation_effect [OF o, of ?ms] assms(2) by (simp add: valid_validated del: map_map)
  moreover have "list_all fst (map (ValidateEntryConditions data commit_time) entries) \<longleftrightarrow> list_all (entry_condition data) entries"
    by (simp add: list_all_iff ValidateEntryConditions_iff)
  ultimately show ?thesis using assms(3)
    by (auto simp: AllEntriesDone_def Let_def simp del: map_map split: if_splits)
qed

definition ex_rmw :: mutation_entry where
  "ex_rmw = ReadModifyWriteEntry \<lparr>rmw_key = [97, 2], rmw_stamp = (Dirty (FromUint64 1) 5, 0), rmw_value_state = kValue,
     rmw_value = [1], orig_generation = []\<rparr>"

theorem memory_commit_atomic_witness:
  "value_of (snd (snd (AllEntriesDone False 9 [ex_rmw] ex_store))) [97, 2] = Some [1]"
proof -
  let ?R = "AllEntriesDone False 9 [ex_rmw] ex_store"
  have "?R = (fst ?R, fst (snd ?R), snd (snd ?R))" by simp
  moreover have "list_all valid_entry [ex_rmw]" by (simp add: ex_rmw_def valid_entry_def)
  ultimately have "if fst ?R = AtomicCommitWritebackSuccess
    then value_of (snd (snd ?R)) = fold entry_effect [ex_rmw] (value_of ex_store) else snd (snd ?R) = ex_store"
    using memory_commit_atomic [OF ex_store_invariant] by blast
  moreover have "fst ?R = AtomicCommitWritebackSuccess" by code_simp
  moreover have "IsDirty (Dirty (FromUint64 1) 5)" by code_simp
  then have "fold entry_effect [ex_rmw] (value_of ex_store) [97, 2] = Some [1]" by (simp add: ex_rmw_def entry_effect_def)
  ultimately show ?thesis by simp
qed

end
