(* ===== verification/Grid_Cells.thy ===== *)
theory Grid_Cells
  imports Interval_Properties
begin

text \<open>
  Grids over output dimensions: the regular grid of \<^verbatim>\<open>internal/regular_grid.h\<close> and the
  irregular grid of \<^verbatim>\<open>internal/irregular_grid.h\<close>, \<^verbatim>\<open>internal/irregular_grid.cc\<close>.

  A grid is a function of type \<^verbatim>\<open>OutputToGridCellFn\<close>: it maps a grid dimension and an output
  index to the index of the cell and, through a pointer, to the bounds of the cell. Here it
  returns both. What the code that partitions a transform relies on is the locale
  \<open>cell_grid\<close>; both grids are interpretations of it.
\<close>

type_synonym output_to_grid_cell = "nat \<Rightarrow> int \<Rightarrow> int \<times> index_interval"

section \<open>regular\_grid.h\<close>

definition GetCellOutputInterval :: "int list \<Rightarrow> nat \<Rightarrow> int \<Rightarrow> index_interval" where
  "GetCellOutputInterval grid_cell_shape dim cell_index =
     UncheckedSized (cell_index * grid_cell_shape ! dim) (grid_cell_shape ! dim)"

definition RegularGridRef :: "int list \<Rightarrow> output_to_grid_cell" where
  "RegularGridRef grid_cell_shape dim output_index =
     (let cell_index = FloorOfRatio output_index (grid_cell_shape ! dim)
      in (cell_index, GetCellOutputInterval grid_cell_shape dim cell_index))"

section \<open>irregular\_grid.h and irregular\_grid.cc\<close>

record irregular_grid =
  irregular_shape :: "int list"
  inclusive_mins :: "int list list"

definition IrregularGrid :: "int list list \<Rightarrow> irregular_grid" where
  "IrregularGrid unsorted_inclusive_mins =
     (let mins = map (\<lambda>points. remdups_adj (sort points)) unsorted_inclusive_mins
      in \<lparr>irregular_shape = map (\<lambda>points. int (length points) - 1) mins,
          inclusive_mins = mins\<rparr>)"

text \<open>\<^verbatim>\<open>std::upper_bound\<close>: the position of the first point above the value.\<close>

definition upper_bound :: "int list \<Rightarrow> int \<Rightarrow> nat" where
  "upper_bound points x = length (takeWhile (\<lambda>p. p \<le> x) points)"

definition irregular_cell :: "irregular_grid \<Rightarrow> output_to_grid_cell" where
  "irregular_cell g dim output_index =
     (let points = inclusive_mins g ! dim;
          cell = int (upper_bound points output_index) - 1
      in (cell,
          if cell < 0 then UncheckedHalfOpen (- kInfIndex) (points ! 0)
          else if cell < int (length points) - 1
          then UncheckedHalfOpen (points ! nat cell) (points ! nat (cell + 1))
          else UncheckedClosed (points ! nat cell) kInfIndex))"

definition push_domain_dim :: "index_interval \<Rightarrow> int list \<Rightarrow> int list" where
  "push_domain_dim d mins =
     (if mins = [] \<or> last mins \<noteq> inclusive_min d then mins @ [inclusive_min d] else mins)
       @ [exclusive_max d]"

definition irregular_Make :: "index_interval list list \<Rightarrow> irregular_grid" where
  "irregular_Make domains =
     (let rank = length (domains ! 0)
      in IrregularGrid
           (map (\<lambda>i. fold (\<lambda>d. push_domain_dim (d ! i)) domains []) [0..<rank]))"

definition cell_origin :: "irregular_grid \<Rightarrow> int list \<Rightarrow> int list" where
  "cell_origin g indices =
     map (\<lambda>i. let x = indices ! i
               in if x < 0 then - kInfIndex
                  else if x \<ge> irregular_shape g ! i then kInfIndex
                  else inclusive_mins g ! i ! nat x)
         [0..<length indices]"

section \<open>What a grid promises\<close>

text \<open>
  \<open>rng d x\<close> says that output index \<open>x\<close> of dimension \<open>d\<close> is one the grid may be asked about.
  There the bounds are a valid interval that holds exactly the indices of the same cell, and
  along a dimension the cell index never decreases and never skips a cell.
\<close>

locale cell_grid =
  fixes f :: output_to_grid_cell
    and rng :: "nat \<Rightarrow> int \<Rightarrow> bool"
  assumes rng_finite: "rng d x \<Longrightarrow> IsFiniteIndex x"
    and cell_valid: "rng d x \<Longrightarrow> valid_interval (snd (f d x))"
    and cell_exact: "rng d x \<Longrightarrow> IsFiniteIndex y \<Longrightarrow>
          in_bounds (snd (f d x)) y \<longleftrightarrow> fst (f d y) = fst (f d x)"
    and cell_bounds_eq: "rng d x \<Longrightarrow> fst (f d y) = fst (f d x) \<Longrightarrow> f d y = f d x"
    and cell_mono: "rng d x \<Longrightarrow> x \<le> y \<Longrightarrow> fst (f d x) \<le> fst (f d y)"
    and cell_step: "rng d x \<Longrightarrow> fst (f d (x + 1)) \<le> fst (f d x) + 1"
begin

lemma cell_self: "rng d x \<Longrightarrow> in_bounds (snd (f d x)) x"
  using cell_exact rng_finite by blast

lemma cell_nonempty: "rng d x \<Longrightarrow> \<not> empty_interval (snd (f d x))"
  using cell_self [of d x] cell_valid [of d x]
  by (auto simp: valid_interval_arith in_bounds_def empty_interval_iff)

end

section \<open>The regular grid\<close>

definition regular_range :: "int list \<Rightarrow> nat \<Rightarrow> int \<Rightarrow> bool" where
  "regular_range shape d x \<longleftrightarrow>
     IsFiniteIndex x \<and> 0 < shape ! d \<and> valid_interval (snd (RegularGridRef shape d x))"

lemma RegularGridRef_eq:
  "0 < shape ! d \<Longrightarrow>
   RegularGridRef shape d x =
     (x div shape ! d, UncheckedSized (x div shape ! d * shape ! d) (shape ! d))"
  by (simp add: RegularGridRef_def GetCellOutputInterval_def FloorOfRatio_eq Let_def)

text \<open>The product \<open>cell_index * grid_cell_shape[dim]\<close> does not overflow.\<close>

lemma regular_cell_no_overflow:
  assumes "IsFiniteIndex x" "0 < shape ! d" "shape ! d \<le> kInfIndex"
  shows "in_int64 (fst (RegularGridRef shape d x) * shape ! d)"
  using assms int_div_bounds [OF assms(2), of x]
  by (simp add: RegularGridRef_eq in_int64_def IsFiniteIndex_def index_consts mult.commute)

interpretation regular: cell_grid "RegularGridRef shape" "regular_range shape" for shape
proof
  fix d x y
  assume r: "regular_range shape d x"
  then show "IsFiniteIndex x" "valid_interval (snd (RegularGridRef shape d x))"
    by (simp_all add: regular_range_def)
  have s: "0 < shape ! d" using r by (simp add: regular_range_def)
  note eq = RegularGridRef_eq [OF s]
  show "in_bounds (snd (RegularGridRef shape d x)) y \<longleftrightarrow>
      fst (RegularGridRef shape d y) = fst (RegularGridRef shape d x)" if "IsFiniteIndex y"
  proof -
    have "in_bounds (snd (RegularGridRef shape d x)) y \<longleftrightarrow>
        x div shape ! d * shape ! d \<le> y \<and> y < x div shape ! d * shape ! d + shape ! d"
      using that by (auto simp: eq in_bounds_def IsFiniteIndex_def index_consts)
    also have "\<dots> \<longleftrightarrow> y div shape ! d = x div shape ! d"
      using int_div_eq_iff [OF s, of y "x div shape ! d"] by (auto simp: algebra_simps)
    finally show ?thesis by (simp add: eq)
  qed
  show "RegularGridRef shape d y = RegularGridRef shape d x"
    if "fst (RegularGridRef shape d y) = fst (RegularGridRef shape d x)"
    using that by (simp add: eq)
  show "fst (RegularGridRef shape d x) \<le> fst (RegularGridRef shape d y)" if "x \<le> y"
    using that s by (simp add: eq zdiv_mono1)
  show "fst (RegularGridRef shape d (x + 1)) \<le> fst (RegularGridRef shape d x) + 1"
    using s zdiv_mono1 [of "x + 1" "x + shape ! d" "shape ! d"]
    by (simp add: eq div_add_self2)
qed

section \<open>The irregular grid\<close>

definition points_ok :: "int list \<Rightarrow> bool" where
  "points_ok points \<longleftrightarrow>
     points \<noteq> [] \<and> sorted_wrt (<) points \<and>
     (\<forall>p \<in> set points. - kInfIndex \<le> p \<and> p \<le> kInfIndex + 1)"

definition irregular_range :: "irregular_grid \<Rightarrow> nat \<Rightarrow> int \<Rightarrow> bool" where
  "irregular_range g d x \<longleftrightarrow> IsFiniteIndex x \<and> points_ok (inclusive_mins g ! d)"

lemma upper_bound_le: "upper_bound points x \<le> length points"
  by (simp add: upper_bound_def length_takeWhile_le)

lemma upper_bound_nth:
  assumes "sorted_wrt (<) points" "i < length points"
  shows "points ! i \<le> x \<longleftrightarrow> i < upper_bound points x"
proof
  assume le: "points ! i \<le> x"
  show "i < upper_bound points x"
  proof (rule ccontr)
    assume "\<not> i < upper_bound points x"
    then have u: "upper_bound points x < length points" "upper_bound points x \<le> i"
      using assms(2) by linarith+
    then have "\<not> points ! upper_bound points x \<le> x"
      using nth_length_takeWhile [of "\<lambda>p. p \<le> x" points] by (simp add: upper_bound_def)
    moreover have "points ! upper_bound points x \<le> points ! i"
      using assms u(2)
      by (cases "upper_bound points x = i") (auto simp: sorted_wrt_iff_nth_less less_imp_le)
    ultimately show False using le by linarith
  qed
next
  assume "i < upper_bound points x"
  then show "points ! i \<le> x"
    unfolding upper_bound_def
    by (metis takeWhile_nth nth_mem set_takeWhileD)
qed

lemma upper_bound_eq_iff:
  assumes "sorted_wrt (<) points" "u \<le> length points"
  shows "upper_bound points y = u \<longleftrightarrow>
    (0 < u \<longrightarrow> points ! (u - 1) \<le> y) \<and> (u < length points \<longrightarrow> y < points ! u)"
proof -
  have "0 < u \<longrightarrow> (points ! (u - 1) \<le> y \<longleftrightarrow> u - 1 < upper_bound points y)"
    using upper_bound_nth [OF assms(1), of "u - 1" y] assms(2) by simp
  moreover have "u < length points \<longrightarrow> (y < points ! u \<longleftrightarrow> \<not> u < upper_bound points y)"
    using upper_bound_nth [OF assms(1), of u y] by force
  ultimately show ?thesis
    using upper_bound_le [of points y] assms(2) by linarith
qed

lemma upper_bound_mono:
  assumes "sorted_wrt (<) points" "x \<le> y"
  shows "upper_bound points x \<le> upper_bound points y"
proof (cases "upper_bound points x")
  case (Suc i)
  then have "i < length points" "points ! i \<le> x"
    using upper_bound_le [of points x] upper_bound_nth [OF assms(1), of i x] by simp_all
  then show ?thesis
    using Suc assms upper_bound_nth [OF assms(1), of i y] by simp
qed simp

lemma upper_bound_step:
  assumes "sorted_wrt (<) points"
  shows "upper_bound points (x + 1) \<le> Suc (upper_bound points x)"
proof (rule ccontr)
  let ?u = "upper_bound points x"
  assume "\<not> ?thesis"
  then have u: "Suc ?u < upper_bound points (x + 1)" by simp
  then have l: "Suc ?u < length points"
    using upper_bound_le [of points "x + 1"] by simp
  then have "points ! Suc ?u \<le> x + 1" "points ! ?u < points ! Suc ?u"
    using u assms upper_bound_nth [OF assms, of "Suc ?u" "x + 1"]
    by (simp_all add: sorted_wrt_iff_nth_less)
  then show False
    using upper_bound_nth [OF assms, of ?u x] l by simp
qed

lemma irregular_cell_bounds:
  assumes ok: "points_ok (inclusive_mins g ! d)" and x: "IsFiniteIndex x"
  shows "valid_interval (snd (irregular_cell g d x))"
    and "IsFiniteIndex y \<Longrightarrow> in_bounds (snd (irregular_cell g d x)) y \<longleftrightarrow>
           upper_bound (inclusive_mins g ! d) y = upper_bound (inclusive_mins g ! d) x"
proof -
  define points where "points = inclusive_mins g ! d"
  define u where "u = upper_bound points x"
  have s: "sorted_wrt (<) points" and ne: "points \<noteq> []"
    using ok by (simp_all add: points_ok_def points_def)
  have b: "- kInfIndex \<le> points ! i \<and> points ! i \<le> kInfIndex + 1" if "i < length points" for i
    using ok that by (simp_all add: points_ok_def points_def)
  have ul: "u \<le> length points" by (simp add: u_def upper_bound_le)
  have ux: "(0 < u \<longrightarrow> points ! (u - 1) \<le> x) \<and> (u < length points \<longrightarrow> x < points ! u)"
    using upper_bound_eq_iff [OF s ul, of x] by (simp add: u_def)
  have eq: "snd (irregular_cell g d x) =
      (if u = 0 then UncheckedHalfOpen (- kInfIndex) (points ! 0)
       else if u < length points then UncheckedHalfOpen (points ! (u - 1)) (points ! u)
       else UncheckedClosed (points ! (u - 1)) kInfIndex)"
    using ul by (auto simp: irregular_cell_def Let_def nat_diff_distrib simp flip: points_def u_def)
  have fin: "- kInfIndex < z \<and> z < kInfIndex" if "IsFiniteIndex z" for z
    using that by (auto simp: IsFiniteIndex_def index_consts)
  have b0: "points ! 0 \<le> kInfIndex + 1" using b [of 0] ne by simp
  show "valid_interval (snd (irregular_cell g d x))"
    using ux ul ne fin [OF x] b0 b [of u] b [of "u - 1"]
    by (auto simp: eq ValidHalfOpen_def ValidClosed_def)
  show "in_bounds (snd (irregular_cell g d x)) y \<longleftrightarrow>
      upper_bound (inclusive_mins g ! d) y = upper_bound (inclusive_mins g ! d) x"
    if y: "IsFiniteIndex y"
    using ul ne fin [OF y] upper_bound_eq_iff [OF s ul, of y] b [of "u - 1"] b [of u] b0
    by (auto simp: eq in_bounds_def simp flip: points_def u_def)
qed

interpretation irregular: cell_grid "irregular_cell g" "irregular_range g" for g
proof
  fix d x y
  assume r: "irregular_range g d x"
  then have x: "IsFiniteIndex x" and ok: "points_ok (inclusive_mins g ! d)"
    by (simp_all add: irregular_range_def)
  have s: "sorted_wrt (<) (inclusive_mins g ! d)" using ok by (simp add: points_ok_def)
  have cell: "fst (irregular_cell g d z) = int (upper_bound (inclusive_mins g ! d) z) - 1" for z
    by (simp add: irregular_cell_def Let_def)
  show "IsFiniteIndex x" by (rule x)
  show "valid_interval (snd (irregular_cell g d x))" by (rule irregular_cell_bounds [OF ok x])
  show "in_bounds (snd (irregular_cell g d x)) y \<longleftrightarrow>
      fst (irregular_cell g d y) = fst (irregular_cell g d x)" if "IsFiniteIndex y"
    using irregular_cell_bounds(2) [OF ok x that] by (simp add: cell)
  show "irregular_cell g d y = irregular_cell g d x"
    if "fst (irregular_cell g d y) = fst (irregular_cell g d x)"
    using that by (simp add: irregular_cell_def Let_def)
  show "fst (irregular_cell g d x) \<le> fst (irregular_cell g d y)" if "x \<le> y"
    using upper_bound_mono [OF s that] by (simp add: cell)
  show "fst (irregular_cell g d (x + 1)) \<le> fst (irregular_cell g d x) + 1"
    using upper_bound_step [OF s, of x] by (simp add: cell)
qed

text \<open>
  The constructor sorts the points and drops the repeated ones, so every grid it builds has
  the promised form; \<^verbatim>\<open>Make\<close> turns the bounds of each domain into points.
\<close>

lemma sorted_remdups_adj_strict:
  "sorted xs \<Longrightarrow> sorted_wrt (<) (remdups_adj xs)" for xs :: "int list"
  by (induction xs rule: remdups_adj.induct) (auto simp: order.strict_iff_order)

lemma IrregularGrid_points_ok:
  assumes "d < length mins" "mins ! d \<noteq> []"
    and "\<forall>p \<in> set (mins ! d). - kInfIndex \<le> p \<and> p \<le> kInfIndex + 1"
  shows "points_ok (inclusive_mins (IrregularGrid mins) ! d)"
proof -
  have "sort (mins ! d) \<noteq> []" using assms(2) by (metis set_empty set_sort)
  then show ?thesis
    using assms by (simp add: IrregularGrid_def points_ok_def Let_def sorted_remdups_adj_strict)
qed

lemma set_push_domain_dims:
  "set (fold (\<lambda>d. push_domain_dim (d ! i)) domains mins) =
     set mins \<union> (\<Union>d \<in> set domains. {inclusive_min (d ! i), exclusive_max (d ! i)})"
proof (induction domains arbitrary: mins)
  case (Cons a domains)
  have "set (push_domain_dim (a ! i) mins) =
      set mins \<union> {inclusive_min (a ! i), exclusive_max (a ! i)}"
  proof (cases "mins = [] \<or> last mins \<noteq> inclusive_min (a ! i)")
    case False
    then have "inclusive_min (a ! i) \<in> set mins" by (metis last_in_set)
    with False show ?thesis by (auto simp: push_domain_dim_def)
  qed (auto simp: push_domain_dim_def)
  then show ?case by (auto simp: Cons.IH)
qed simp

lemma irregular_Make_points:
  assumes "i < length (domains ! 0)"
  shows "set (inclusive_mins (irregular_Make domains) ! i) =
     (\<Union>d \<in> set domains. {inclusive_min (d ! i), exclusive_max (d ! i)})"
  using assms by (simp add: irregular_Make_def IrregularGrid_def Let_def set_push_domain_dims)

lemma irregular_Make_points_ok:
  assumes "domains \<noteq> []" "i < length (domains ! 0)" "\<forall>d \<in> set domains. valid_interval (d ! i)"
  shows "points_ok (inclusive_mins (irregular_Make domains) ! i)"
  unfolding irregular_Make_def Let_def
proof (rule IrregularGrid_points_ok)
  let ?ps = "fold (\<lambda>d. push_domain_dim (d ! i)) domains []"
  have eq: "map (\<lambda>i. fold (\<lambda>d. push_domain_dim (d ! i)) domains []) [0..<length (domains ! 0)] ! i
      = ?ps"
    using assms(2) by simp
  have s: "set ?ps = (\<Union>d \<in> set domains. {inclusive_min (d ! i), exclusive_max (d ! i)})"
    by (simp add: set_push_domain_dims)
  have "?ps \<noteq> []" using s assms(1) by (cases domains) auto
  then show "map (\<lambda>i. fold (\<lambda>d. push_domain_dim (d ! i)) domains [])
      [0..<length (domains ! 0)] ! i \<noteq> []"
    using eq by simp
  show "\<forall>p \<in> set (map (\<lambda>i. fold (\<lambda>d. push_domain_dim (d ! i)) domains [])
      [0..<length (domains ! 0)] ! i). - kInfIndex \<le> p \<and> p \<le> kInfIndex + 1"
    unfolding eq s using assms(3)
    by (auto simp: valid_interval_def ValidSized_def exclusive_max_def)
qed (use assms in simp)

text \<open>Outputs in one cell lie on the same side of every point.\<close>

lemma same_cell_same_side:
  assumes "sorted_wrt (<) points" "upper_bound points y = upper_bound points x" "p \<in> set points"
  shows "p \<le> y \<longleftrightarrow> p \<le> x"
proof -
  obtain k where "k < length points" "p = points ! k"
    using assms(3) by (metis in_set_conv_nth)
  then show ?thesis
    using upper_bound_nth [OF assms(1), of k] assms(2) by simp
qed

text \<open>C38: the irregular grid made from the domains of the layers of a stack never lets a cell
  straddle a layer: two finite output indices in the same cell of a dimension are both inside
  or both outside every domain, the cell's bounds are valid and contain exactly the indices
  with that cell index.
\<close>

theorem irregular_grid_respects_domains:
  assumes "domains \<noteq> []" "i < length (domains ! 0)" "\<forall>d \<in> set domains. valid_interval (d ! i)"
    and "IsFiniteIndex x" "IsFiniteIndex y"
  defines "g \<equiv> irregular_Make domains"
  shows "valid_interval (snd (irregular_cell g i x)) \<and>
    (in_bounds (snd (irregular_cell g i x)) y \<longleftrightarrow>
       fst (irregular_cell g i y) = fst (irregular_cell g i x)) \<and>
    (fst (irregular_cell g i y) = fst (irregular_cell g i x) \<longrightarrow>
       (\<forall>d \<in> set domains. Contains_index (d ! i) x \<longleftrightarrow> Contains_index (d ! i) y))"
proof -
  have ok: "points_ok (inclusive_mins g ! i)"
    unfolding g_def by (rule irregular_Make_points_ok [OF assms(1-3)])
  then have r: "irregular_range g i x" using assms(4) by (simp add: irregular_range_def)
  have side: "Contains_index (d ! i) x \<longleftrightarrow> Contains_index (d ! i) y"
    if "fst (irregular_cell g i y) = fst (irregular_cell g i x)" and d: "d \<in> set domains" for d
  proof -
    have "upper_bound (inclusive_mins g ! i) y = upper_bound (inclusive_mins g ! i) x"
      using that(1) by (simp add: irregular_cell_def Let_def)
    note side = same_cell_same_side [OF _ this]
    have "inclusive_min (d ! i) \<le> y \<longleftrightarrow> inclusive_min (d ! i) \<le> x"
      "exclusive_max (d ! i) \<le> y \<longleftrightarrow> exclusive_max (d ! i) \<le> x"
      using ok d side [of "inclusive_min (d ! i)"] side [of "exclusive_max (d ! i)"]
      by (auto simp: points_ok_def g_def irregular_Make_points [OF assms(2)])
    then show ?thesis
      using assms(4,5)
      by (auto simp: Contains_index_def IsFiniteIndex_def inclusive_max_def exclusive_max_def)
  qed
  show ?thesis
    using irregular.cell_valid [OF r] irregular.cell_exact [OF r assms(5)] side by blast
qed

theorem irregular_grid_respects_domains_witness:
  "\<not> Contains_index (UncheckedHalfOpen 0 5) 7 \<and>
   fst (irregular_cell (irregular_Make [[UncheckedHalfOpen 0 5], [UncheckedHalfOpen 3 9]]) 0 7) = 2"
  using irregular_grid_respects_domains
    [of "[[UncheckedHalfOpen 0 5], [UncheckedHalfOpen 3 9]]" 0 7 8]
  by (simp add: irregular_cell_def irregular_Make_def IrregularGrid_def upper_bound_def
      push_domain_dim_def Contains_index_def IsFiniteIndex_def ValidHalfOpen_def index_consts
      exclusive_max_def)

end
