(* ===== verification/Strided_Partition.thy ===== *)
theory Strided_Partition
  imports Grid_Cells Transform_Rep
begin

text \<open>
  The partition of one input dimension by the grid cells of the output dimensions that depend
  on it (\<^verbatim>\<open>StridedSetGridCellIterator\<close> and \<^verbatim>\<open>GetStridedGridCellRanges\<close> of
  \<^verbatim>\<open>internal/grid_partition.cc\<close>). A strided set is an input dimension with the grid dimensions
  that are affine functions of it. The iterator starts at the first input index and advances to
  the next one that is not in the same partial grid cell.

  A \<^verbatim>\<open>DimensionSet\<close> is a set of numbers, and its \<^verbatim>\<open>index_view\<close> lists them in ascending order.
  The process ends when the \<^verbatim>\<open>value()\<close> of an error is taken, which is the result \<open>CheckFailure\<close>.
\<close>

section \<open>Data and operations\<close>

definition index_view :: "nat set \<Rightarrow> nat list" where
  "index_view s = sorted_list_of_set s"

record strided_set =
  strided_grid_dimensions :: "nat set"
  strided_input_dimension :: nat

record strided_iterator =
  it_input_index :: int
  it_input_end_index :: int

definition input_domain_at :: "transform_rep \<Rightarrow> nat \<Rightarrow> index_interval" where
  "input_domain_at t d = interval (optionally_implicit_domain t d)"

definition grid_map :: "transform_rep \<Rightarrow> nat list \<Rightarrow> nat \<Rightarrow> output_index_map" where
  "grid_map t grid_output_dimensions grid_dim =
     output_index_maps t ! (grid_output_dimensions ! grid_dim)"

definition restrict_to_cell ::
  "transform_rep \<Rightarrow> nat list \<Rightarrow> output_to_grid_cell \<Rightarrow> int \<Rightarrow> nat \<Rightarrow>
   index_interval \<times> int list \<Rightarrow> (index_interval \<times> int list) result" where
  "restrict_to_cell t grid_output_dimensions output_to_grid_cell input_index grid_dim =
     (\<lambda>(restricted_domain, output_grid_cell_indices).
        let m = grid_map t grid_output_dimensions grid_dim;
            (cell, cell_range) =
              output_to_grid_cell grid_dim (input_index * map_stride m + map_offset m)
        in bind_result
             (value_or_die (GetAffineTransformDomain cell_range (map_offset m) (map_stride m)))
             (\<lambda>cell_domain. Inr (Intersect restricted_domain cell_domain,
                                 output_grid_cell_indices[grid_dim := cell])))"

definition strided_Reset :: "transform_rep \<Rightarrow> strided_set \<Rightarrow> strided_iterator" where
  "strided_Reset t s =
     (let domain = input_domain_at t (strided_input_dimension s)
      in \<lparr>it_input_index = inclusive_min domain, it_input_end_index = exclusive_max domain\<rparr>)"

definition strided_AtEnd :: "strided_iterator \<Rightarrow> bool" where
  "strided_AtEnd it \<longleftrightarrow> it_input_index it = it_input_end_index it"

definition strided_Next ::
  "transform_rep \<Rightarrow> nat list \<Rightarrow> output_to_grid_cell \<Rightarrow> strided_set \<Rightarrow> strided_iterator \<Rightarrow>
   int list \<Rightarrow> (index_interval \<times> strided_iterator \<times> int list) result" where
  "strided_Next t grid_output_dimensions output_to_grid_cell s it output_grid_cell_indices =
     bind_result
       (fold_result
          (restrict_to_cell t grid_output_dimensions output_to_grid_cell (it_input_index it))
          (index_view (strided_grid_dimensions s))
          (UncheckedHalfOpen (it_input_index it) (it_input_end_index it),
           output_grid_cell_indices))
       (\<lambda>(restricted_domain, indices).
          Inr (restricted_domain, it\<lparr>it_input_index := exclusive_max restricted_domain\<rparr>, indices))"

text \<open>
  The loop \<^verbatim>\<open>while (!iterator.AtEnd()) { iterator.Next(...); ... }\<close>, with the intervals and the
  cell indices it passes on. The code has no bound on the number of rounds: that the loop ends is
  proved below.
\<close>

partial_function (option) strided_cells ::
  "transform_rep \<Rightarrow> nat list \<Rightarrow> output_to_grid_cell \<Rightarrow> strided_set \<Rightarrow> strided_iterator \<Rightarrow>
   int list \<Rightarrow> (index_interval \<times> int list) list result option" where
  "strided_cells t god f s it out =
     (if strided_AtEnd it then Some (Inr [])
      else case strided_Next t god f s it out of
             Inl e \<Rightarrow> Some (Inl e)
           | Inr (restricted_domain, it', out') \<Rightarrow>
               Option.bind (strided_cells t god f s it' out')
                 (\<lambda>rest. Some (bind_result rest (\<lambda>cs. Inr ((restricted_domain, out') # cs)))))"

declare strided_cells.simps [code]

section \<open>Correctness of one step\<close>

lemma in_bounds_Intersect:
  assumes "valid_interval a" "valid_interval b"
  shows "in_bounds (Intersect a b) y \<longleftrightarrow> in_bounds a y \<and> in_bounds b y"
  using assms unfolding in_bounds_def Intersect_bounds [OF assms] valid_interval_iff_closed
    ValidClosed_def
  by (auto simp: max_def min_def)

definition output_of :: "transform_rep \<Rightarrow> nat list \<Rightarrow> nat \<Rightarrow> int \<Rightarrow> int" where
  "output_of t god g x = x * map_stride (grid_map t god g) + map_offset (grid_map t god g)"

text \<open>
  What the step relies on: the input domain is valid and bounded, as
  \<^verbatim>\<open>PrePartitionIndexTransformOverGrid\<close> checks, the grid may be asked about every output of the
  domain, and the preimage of every cell that occurs is representable.
\<close>

definition strided_ok ::
  "(nat \<Rightarrow> int \<Rightarrow> bool) \<Rightarrow> transform_rep \<Rightarrow> nat list \<Rightarrow> output_to_grid_cell \<Rightarrow> strided_set \<Rightarrow> bool"
where
  "strided_ok rng t god f s \<longleftrightarrow>
     finite (strided_grid_dimensions s) \<and>
     valid_interval (input_domain_at t (strided_input_dimension s)) \<and>
     IsFinite_interval (input_domain_at t (strided_input_dimension s)) \<and>
     (\<forall>g \<in> strided_grid_dimensions s.
        \<forall>x \<in> interval_indices (input_domain_at t (strided_input_dimension s)).
          rng g (output_of t god g x) \<and>
          (\<exists>d. GetAffineTransformDomain (snd (f g (output_of t god g x)))
                 (map_offset (grid_map t god g)) (map_stride (grid_map t god g)) = Inr d))"

definition same_cells ::
  "transform_rep \<Rightarrow> nat list \<Rightarrow> output_to_grid_cell \<Rightarrow> nat set \<Rightarrow> int \<Rightarrow> int \<Rightarrow> bool" where
  "same_cells t god f gs x y \<longleftrightarrow>
     (\<forall>g \<in> gs. fst (f g (output_of t god g y)) = fst (f g (output_of t god g x)))"

lemma finite_domain_indices:
  assumes "valid_interval i" "IsFinite_interval i"
  shows "x \<in> interval_indices i \<longleftrightarrow> inclusive_min i \<le> x \<and> x < exclusive_max i"
    and "x \<in> interval_indices i \<longleftrightarrow> in_bounds i x"
  using assms
  by (auto simp: interval_indices_iff in_bounds_def valid_interval_arith IsFinite_interval_def
      IsFiniteIndex_def exclusive_max_def inclusive_max_def)

context cell_grid
begin

lemma restrict_step:
  assumes r: "rng g (output_of t god g x)"
    and d: "GetAffineTransformDomain (snd (f g (output_of t god g x)))
        (map_offset (grid_map t god g)) (map_stride (grid_map t god g)) = Inr d"
    and v: "valid_interval r0"
  shows "restrict_to_cell t god f x g (r0, out) =
      Inr (Intersect r0 d, out[g := fst (f g (output_of t god g x))])"
    and "valid_interval (Intersect r0 d)"
    and "in_bounds (Intersect r0 d) y \<longleftrightarrow>
      in_bounds r0 y \<and> in_bounds (snd (f g (output_of t god g x))) (output_of t god g y)"
proof -
  show "restrict_to_cell t god f x g (r0, out) =
      Inr (Intersect r0 d, out[g := fst (f g (output_of t god g x))])"
    using d by (simp add: restrict_to_cell_def output_of_def Let_def split_beta)
  have vd: "valid_interval d \<and> (\<forall>x'. in_bounds d x' \<longleftrightarrow>
      in_bounds (snd (f g (output_of t god g x)))
        (map_offset (grid_map t god g) + map_stride (grid_map t god g) * x'))"
    by (rule GetAffineTransformDomain_nonempty [OF cell_valid [OF r] cell_nonempty [OF r] d])
  then show "valid_interval (Intersect r0 d)" using valid_Intersect [OF v] by blast
  show "in_bounds (Intersect r0 d) y \<longleftrightarrow>
      in_bounds r0 y \<and> in_bounds (snd (f g (output_of t god g x))) (output_of t god g y)"
    using vd in_bounds_Intersect [OF v, of d y]
    by (simp add: output_of_def add.commute mult.commute)
qed

lemma restrict_loop:
  assumes "\<forall>g \<in> set gs. rng g (output_of t god g x) \<and>
      (\<exists>d. GetAffineTransformDomain (snd (f g (output_of t god g x)))
         (map_offset (grid_map t god g)) (map_stride (grid_map t god g)) = Inr d)"
    and "valid_interval r0"
  shows "\<exists>r out'. fold_result (restrict_to_cell t god f x) gs (r0, out) = Inr (r, out') \<and>
    valid_interval r \<and>
    (\<forall>y. in_bounds r y \<longleftrightarrow> in_bounds r0 y \<and>
       (\<forall>g \<in> set gs. in_bounds (snd (f g (output_of t god g x))) (output_of t god g y))) \<and>
    length out' = length out \<and>
    (\<forall>j < length out. out' ! j =
       (if j \<in> set gs then fst (f j (output_of t god j x)) else out ! j))"
  using assms
proof (induction gs arbitrary: r0 out)
  case (Cons g gs)
  obtain d where r: "rng g (output_of t god g x)"
    and d: "GetAffineTransformDomain (snd (f g (output_of t god g x)))
         (map_offset (grid_map t god g)) (map_stride (grid_map t god g)) = Inr d"
    using Cons.prems(1) by auto
  note step = restrict_step [OF r d Cons.prems(2)]
  have "\<forall>g \<in> set gs. rng g (output_of t god g x) \<and>
      (\<exists>d. GetAffineTransformDomain (snd (f g (output_of t god g x)))
         (map_offset (grid_map t god g)) (map_stride (grid_map t god g)) = Inr d)"
    using Cons.prems(1) by simp
  from Cons.IH [OF this step(2), of "out[g := fst (f g (output_of t god g x))]"]
  obtain r' out' where ih:
    "fold_result (restrict_to_cell t god f x) gs
       (Intersect r0 d, out[g := fst (f g (output_of t god g x))]) = Inr (r', out')"
    "valid_interval r'"
    "\<forall>y. in_bounds r' y \<longleftrightarrow> in_bounds (Intersect r0 d) y \<and>
       (\<forall>g \<in> set gs. in_bounds (snd (f g (output_of t god g x))) (output_of t god g y))"
    "length out' = length out"
    "\<forall>j < length out. out' ! j =
       (if j \<in> set gs then fst (f j (output_of t god j x))
        else out[g := fst (f g (output_of t god g x))] ! j)"
    by auto
  show ?case
    by (rule exI [of _ r'], rule exI [of _ out'])
      (use ih step(1,3) in \<open>auto simp: nth_list_update\<close>)
qed simp

lemma strided_Next_correct:
  assumes ok: "strided_ok rng t god f s"
    and x: "inclusive_min (input_domain_at t (strided_input_dimension s)) \<le> it_input_index it"
      "it_input_index it < it_input_end_index it"
    and e: "it_input_end_index it = exclusive_max (input_domain_at t (strided_input_dimension s))"
  obtains r out' where
    "strided_Next t god f s it out = Inr (r, it\<lparr>it_input_index := exclusive_max r\<rparr>, out')"
    "inclusive_min r = it_input_index it" "it_input_index it < exclusive_max r"
    "exclusive_max r \<le> it_input_end_index it"
    "\<And>y. it_input_index it \<le> y \<Longrightarrow> y < it_input_end_index it \<Longrightarrow>
       y < exclusive_max r \<longleftrightarrow> same_cells t god f (strided_grid_dimensions s) (it_input_index it) y"
    "length out' = length out"
    "\<And>j. j < length out \<Longrightarrow> out' ! j =
       (if j \<in> strided_grid_dimensions s then fst (f j (output_of t god j (it_input_index it)))
        else out ! j)"
proof -
  let ?x = "it_input_index it" and ?e = "it_input_end_index it"
  let ?dom = "input_domain_at t (strided_input_dimension s)"
  let ?gs = "strided_grid_dimensions s"
  have v: "valid_interval ?dom" and fin: "IsFinite_interval ?dom" and fg: "finite ?gs"
    using ok by (simp_all add: strided_ok_def)
  note dom = finite_domain_indices [OF v fin]
  have in_dom: "y \<in> interval_indices ?dom" if "?x \<le> y" "y < ?e" for y
    using that x(1) e by (simp add: dom(1))
  have set_gs: "set (index_view ?gs) = ?gs" using fg by (simp add: index_view_def)
  have hyp: "\<forall>g \<in> set (index_view ?gs). rng g (output_of t god g ?x) \<and>
      (\<exists>d. GetAffineTransformDomain (snd (f g (output_of t god g ?x)))
         (map_offset (grid_map t god g)) (map_stride (grid_map t god g)) = Inr d)"
    unfolding set_gs using ok in_dom [of ?x] x(2) by (auto simp: strided_ok_def)
  let ?r0 = "UncheckedHalfOpen ?x ?e"
  have b: "- kInfIndex < ?x" "?e \<le> kInfIndex"
    using v fin x e
    by (auto simp: valid_interval_arith IsFinite_interval_def exclusive_max_def inclusive_max_def)
  have v0: "valid_interval ?r0" using b x(2) by (auto simp: ValidHalfOpen_def)
  have in0: "in_bounds ?r0 y \<longleftrightarrow> ?x \<le> y \<and> y < ?e" for y
    using b by (auto simp: in_bounds_def)
  obtain r out' where fold:
    "fold_result (restrict_to_cell t god f ?x) (index_view ?gs) (?r0, out) = Inr (r, out')"
    and vr: "valid_interval r"
    and r: "\<forall>y. in_bounds r y \<longleftrightarrow> in_bounds ?r0 y \<and>
       (\<forall>g \<in> ?gs. in_bounds (snd (f g (output_of t god g ?x))) (output_of t god g y))"
    and out: "length out' = length out"
      "\<forall>j < length out. out' ! j =
         (if j \<in> ?gs then fst (f j (output_of t god j ?x)) else out ! j)"
    using restrict_loop [OF hyp v0, of out] unfolding set_gs by blast
  have cells: "in_bounds r y \<longleftrightarrow> ?x \<le> y \<and> y < ?e \<and> same_cells t god f ?gs ?x y" for y
  proof -
    have "in_bounds (snd (f g (output_of t god g ?x))) (output_of t god g y) \<longleftrightarrow>
        fst (f g (output_of t god g y)) = fst (f g (output_of t god g ?x))"
      if "?x \<le> y" "y < ?e" "g \<in> ?gs" for g
    proof (rule cell_exact)
      show "rng g (output_of t god g ?x)" using hyp that(3) set_gs by blast
      have "rng g (output_of t god g y)"
        using ok in_dom [OF that(1,2)] that(3) by (auto simp: strided_ok_def)
      then show "IsFiniteIndex (output_of t god g y)" by (rule rng_finite)
    qed
    then show ?thesis using r in0 by (auto simp: same_cells_def)
  qed
  have xr: "in_bounds r ?x" using cells [of ?x] x(2) by (simp add: same_cells_def)
  have lo: "\<not> in_bounds r (?x - 1)" and hi: "\<not> in_bounds r ?e"
    using cells [of "?x - 1"] cells [of ?e] by simp_all
  have min_r: "inclusive_min r = ?x" using xr lo by (auto simp: in_bounds_def)
  have max_r: "inclusive_max r \<noteq> kInfIndex" "?x \<le> inclusive_max r" "inclusive_max r < ?e"
    using xr hi x(2) by (auto simp: in_bounds_def)
  have em: "exclusive_max r = inclusive_max r + 1"
    by (simp add: exclusive_max_def inclusive_max_def)
  show thesis
  proof (rule that [of r out'])
    show "strided_Next t god f s it out = Inr (r, it\<lparr>it_input_index := exclusive_max r\<rparr>, out')"
      by (simp add: strided_Next_def fold)
    show "y < exclusive_max r \<longleftrightarrow> same_cells t god f ?gs ?x y" if "?x \<le> y" "y < ?e" for y
      using cells [of y] that max_r min_r by (auto simp: in_bounds_def em)
  qed (use min_r max_r em out in auto)
qed

end

section \<open>All cells of a strided set\<close>

text \<open>
  \<open>cells_from\<close> is the specification of the loop from input index \<open>x\<close>: the intervals follow each
  other from \<open>x\<close> to the end of the domain, and each holds exactly the remaining indices in its
  cells, whose indices are recorded.
\<close>

fun cells_from ::
  "(nat \<Rightarrow> int \<Rightarrow> int) \<Rightarrow> nat set \<Rightarrow> nat \<Rightarrow> int \<Rightarrow> int \<Rightarrow> (index_interval \<times> int list) list \<Rightarrow> bool"
where
  "cells_from cell gs n x e [] \<longleftrightarrow> x = e"
| "cells_from cell gs n x e ((r, out) # cs) \<longleftrightarrow>
     inclusive_min r = x \<and> x < exclusive_max r \<and> exclusive_max r \<le> e \<and>
     (\<forall>y. x \<le> y \<longrightarrow> y < e \<longrightarrow>
        (y < exclusive_max r \<longleftrightarrow> (\<forall>g \<in> gs. cell g y = cell g x))) \<and>
     length out = n \<and> (\<forall>g < n. g \<in> gs \<longrightarrow> out ! g = cell g x) \<and>
     cells_from cell gs n (exclusive_max r) e cs"

context cell_grid
begin

lemma strided_cells_returns:
  assumes ok: "strided_ok rng t god f s"
    and x: "inclusive_min (input_domain_at t (strided_input_dimension s)) \<le> it_input_index it"
      "it_input_index it \<le> it_input_end_index it"
    and e: "it_input_end_index it = exclusive_max (input_domain_at t (strided_input_dimension s))"
  shows "\<exists>cs. strided_cells t god f s it out = Some (Inr cs) \<and>
    cells_from (\<lambda>g y. fst (f g (output_of t god g y))) (strided_grid_dimensions s) (length out)
      (it_input_index it) (it_input_end_index it) cs"
  using x e
proof (induction "nat (it_input_end_index it - it_input_index it)" arbitrary: it out
    rule: less_induct)
  case less
  show ?case
  proof (cases "strided_AtEnd it")
    case True
    then show ?thesis
      by (intro exI [of _ "[]"]) (simp add: strided_cells.simps strided_AtEnd_def)
  next
    case False
    then have lt: "it_input_index it < it_input_end_index it"
      using less.prems(2) by (simp add: strided_AtEnd_def)
    obtain r out' where
      n: "strided_Next t god f s it out = Inr (r, it\<lparr>it_input_index := exclusive_max r\<rparr>, out')"
      and b: "inclusive_min r = it_input_index it" "it_input_index it < exclusive_max r"
        "exclusive_max r \<le> it_input_end_index it"
      and same: "\<And>y. it_input_index it \<le> y \<Longrightarrow> y < it_input_end_index it \<Longrightarrow>
        y < exclusive_max r \<longleftrightarrow>
        same_cells t god f (strided_grid_dimensions s) (it_input_index it) y"
      and out: "length out' = length out"
        "\<And>j. j < length out \<Longrightarrow> out' ! j =
          (if j \<in> strided_grid_dimensions s then fst (f j (output_of t god j (it_input_index it)))
           else out ! j)"
      by (rule strided_Next_correct [OF ok less.prems(1) lt less.prems(3)]) blast
    let ?it = "it\<lparr>it_input_index := exclusive_max r\<rparr>"
    obtain cs where cs: "strided_cells t god f s ?it out' = Some (Inr cs)"
      "cells_from (\<lambda>g y. fst (f g (output_of t god g y))) (strided_grid_dimensions s)
         (length out') (exclusive_max r) (it_input_end_index it) cs"
      using less.hyps [of ?it out'] less.prems b lt by auto
    show ?thesis
      using False n cs b same out
      by (intro exI [of _ "(r, out') # cs"])
        (auto simp: strided_cells.simps [of t god f s it] same_cells_def)
  qed
qed

end

lemma cells_from_exact:
  assumes "cells_from cell gs n x e cs" "gs \<subseteq> {..<n}"
  shows "\<forall>(r, out) \<in> set cs. x \<le> inclusive_min r \<and> inclusive_min r < exclusive_max r \<and>
      exclusive_max r \<le> e \<and> length out = n \<and>
      (\<forall>y. x \<le> y \<longrightarrow> y < e \<longrightarrow>
         (inclusive_min r \<le> y \<and> y < exclusive_max r \<longleftrightarrow> (\<forall>g \<in> gs. out ! g = cell g y)))"
  using assms(1)
proof (induction cs arbitrary: x)
  case (Cons c cs)
  obtain r out where c: "c = (r, out)" by (cases c)
  note h = Cons.prems [unfolded c cells_from.simps]
  have out: "out ! g = cell g x" if "g \<in> gs" for g using h assms(2) that by auto
  have ih: "\<forall>(r', out') \<in> set cs. exclusive_max r \<le> inclusive_min r' \<and>
      inclusive_min r' < exclusive_max r' \<and> exclusive_max r' \<le> e \<and> length out' = n \<and>
      (\<forall>y. exclusive_max r \<le> y \<longrightarrow> y < e \<longrightarrow>
         (inclusive_min r' \<le> y \<and> y < exclusive_max r' \<longleftrightarrow> (\<forall>g \<in> gs. out' ! g = cell g y)))"
    using Cons.IH h by blast
  have later: "\<not> (\<forall>g \<in> gs. out' ! g = cell g y)"
    if m: "(r', out') \<in> set cs" and y: "x \<le> y" "y < exclusive_max r" for r' out' y
  proof
    assume eq: "\<forall>g \<in> gs. out' ! g = cell g y"
    have r': "exclusive_max r \<le> inclusive_min r'" "inclusive_min r' < e"
      "\<forall>g \<in> gs. out' ! g = cell g (inclusive_min r')"
      using ih m by (auto dest!: bspec)
    have "y < e" using h y(2) by (meson less_le_trans)
    then have "\<forall>g \<in> gs. cell g y = cell g x" using h y by blast
    then have "\<forall>g \<in> gs. cell g (inclusive_min r') = cell g x" using eq r'(3) by simp
    moreover have "x \<le> inclusive_min r'" using h r'(1) by simp
    ultimately have "inclusive_min r' < exclusive_max r" using h r'(2) by blast
    then show False using r'(1) by simp
  qed
  show ?case
  proof (clarify)
    fix r' out'
    assume m: "(r', out') \<in> set (c # cs)"
    show "x \<le> inclusive_min r' \<and> inclusive_min r' < exclusive_max r' \<and>
      exclusive_max r' \<le> e \<and> length out' = n \<and>
      (\<forall>y. x \<le> y \<longrightarrow> y < e \<longrightarrow>
         (inclusive_min r' \<le> y \<and> y < exclusive_max r' \<longleftrightarrow> (\<forall>g \<in> gs. out' ! g = cell g y)))"
    proof (cases "(r', out') = c")
      case True
      then have "r' = r" "out' = out" using c by simp_all
      then show ?thesis using h out by (auto simp: eq_commute)
    next
      case False
      then have m': "(r', out') \<in> set cs" using m by simp
      have i: "exclusive_max r \<le> inclusive_min r'" "inclusive_min r' < exclusive_max r'"
        "exclusive_max r' \<le> e" "length out' = n"
        "\<And>y. exclusive_max r \<le> y \<Longrightarrow> y < e \<Longrightarrow>
           inclusive_min r' \<le> y \<and> y < exclusive_max r' \<longleftrightarrow> (\<forall>g \<in> gs. out' ! g = cell g y)"
        using ih m' by blast+
      have "inclusive_min r' \<le> y \<and> y < exclusive_max r' \<longleftrightarrow> (\<forall>g \<in> gs. out' ! g = cell g y)"
        if "x \<le> y" "y < e" for y
        using i(1) i(5) [of y] that later [OF m' that(1)] by (cases "y < exclusive_max r") auto
      moreover have "x \<le> inclusive_min r'" using i(1) h by linarith
      ultimately show ?thesis using i by blast
    qed
  qed
qed simp

lemma cells_from_cover:
  assumes "cells_from cell gs n x e cs" "x \<le> y" "y < e"
  shows "\<exists>(r, out) \<in> set cs. inclusive_min r \<le> y \<and> y < exclusive_max r"
  using assms
proof (induction cs arbitrary: x)
  case (Cons c cs)
  obtain r out where c: "c = (r, out)" by (cases c)
  note h = Cons.prems [unfolded c cells_from.simps]
  show ?case
  proof (cases "y < exclusive_max r")
    case True
    then show ?thesis using h c by auto
  next
    case False
    then have "\<exists>(r, out) \<in> set cs. inclusive_min r \<le> y \<and> y < exclusive_max r"
      using Cons.IH [of "exclusive_max r"] h Cons.prems(3) by (meson not_le)
    then show ?thesis by auto
  qed
qed simp

lemma cells_from_sorted:
  assumes "cells_from cell gs n x e cs"
  shows "sorted_wrt (\<lambda>a b. exclusive_max (fst a) \<le> inclusive_min (fst b)) cs \<and>
    (\<forall>c \<in> set cs. x \<le> inclusive_min (fst c))"
  using assms
proof (induction cs arbitrary: x)
  case (Cons c cs)
  obtain r out where c: "c = (r, out)" by (cases c)
  note h = Cons.prems [unfolded c cells_from.simps]
  have "sorted_wrt (\<lambda>a b. exclusive_max (fst a) \<le> inclusive_min (fst b)) cs \<and>
      (\<forall>c \<in> set cs. exclusive_max r \<le> inclusive_min (fst c))"
    using Cons.IH h by blast
  then show ?case using h c by fastforce
qed simp

section \<open>Strided sets of a regular grid\<close>

lemma div_abs_le:
  fixes a b :: int
  assumes "0 < b"
  shows "- \<bar>a\<bar> \<le> a div b" "a div b \<le> \<bar>a\<bar>"
proof -
  have "b * - \<bar>a\<bar> \<le> - \<bar>a\<bar>" using assms mult_right_mono [of 1 b "\<bar>a\<bar>"] by simp
  then show "- \<bar>a\<bar> \<le> a div b" by (subst le_int_div_iff [OF assms]) linarith
  have "\<bar>a\<bar> \<le> b * \<bar>a\<bar>" using assms mult_right_mono [of 1 b "\<bar>a\<bar>"] by simp
  then show "a div b \<le> \<bar>a\<bar>"
    using zdiv_mono1 [of a "b * \<bar>a\<bar>" b] assms by simp
qed

lemma affine_domain_representable:
  assumes "inclusive_min i \<le> inclusive_max i"
    and "\<bar>inclusive_min i\<bar> \<le> 2 ^ 61" "\<bar>inclusive_max i\<bar> \<le> 2 ^ 61"
    and "\<bar>off\<bar> \<le> 2 ^ 60" "dv \<noteq> 0" "dv \<noteq> index_min"
  shows "\<exists>d. GetAffineTransformDomain i off dv = Inr d"
proof -
  have ne: "\<not> empty_interval i" using assms(1) by (simp add: empty_interval_iff)
  have inf: "i \<noteq> Infinite" using assms(2) by (auto simp: index_consts)
  have lo: "\<exists>r. affine_domain_lower a o' m = Inr r"
    if "\<bar>a\<bar> \<le> 2 ^ 61" "\<bar>o'\<bar> \<le> 2 ^ 60" "0 < m" for a o' m
    using that div_abs_le [OF that(3), of "- (a - o')"]
    by (auto simp: affine_domain_lower_def SubOverflow_def wrap_Subtract_def CeilOfRatio_eq
        ceil_div_def IsFiniteIndex_def in_int64_def Let_def index_consts)
  have up: "\<exists>r. affine_domain_size False l a o' m = Inr r"
    if "\<bar>a\<bar> \<le> 2 ^ 61" "\<bar>o'\<bar> \<le> 2 ^ 60" "0 < m" for l a o' m
    using that div_abs_le [OF that(3), of "a - o'"]
    by (auto simp: affine_domain_size_def SubOverflow_def wrap_Subtract_def FloorOfRatio_eq
        IsFiniteIndex_def in_int64_def Let_def index_consts)
  have om: "off \<noteq> index_min" using assms(4) by (auto simp: index_min_def)
  show ?thesis
  proof (cases "dv < 0")
    case True
    obtain rl sz where
      "affine_domain_lower (- inclusive_max i) (- off) (- dv) = Inr rl"
      "affine_domain_size False rl (- inclusive_min i) (- off) (- dv) = Inr sz"
      using lo [of "- inclusive_max i" "- off" "- dv"] up [of "- inclusive_min i" "- off" "- dv"]
        assms True by fastforce
    then show ?thesis
      using True ne inf om assms(5,6) by (auto simp: GetAffineTransformDomain_def)
  next
    case False
    obtain rl sz where
      "affine_domain_lower (inclusive_min i) off dv = Inr rl"
      "affine_domain_size False rl (inclusive_max i) off dv = Inr sz"
      using lo [of "inclusive_min i" off dv] up [of "inclusive_max i" off dv] assms False
      by fastforce
    then show ?thesis
      using False ne inf assms(5) by (auto simp: GetAffineTransformDomain_def)
  qed
qed

text \<open>
  Offsets, outputs and cells of at most \<open>2 ^ 60\<close>, far above what occurs in practice, are enough
  for every cell to be representable.
\<close>

definition moderate_grid_dim :: "int list \<Rightarrow> transform_rep \<Rightarrow> nat list \<Rightarrow> index_interval \<Rightarrow> nat \<Rightarrow> bool"
where
  "moderate_grid_dim shape t god domain g \<longleftrightarrow>
     0 < shape ! g \<and> shape ! g \<le> 2 ^ 60 \<and>
     \<bar>map_offset (grid_map t god g)\<bar> \<le> 2 ^ 60 \<and>
     map_stride (grid_map t god g) \<noteq> 0 \<and> map_stride (grid_map t god g) \<noteq> index_min \<and>
     (\<forall>x \<in> interval_indices domain. \<bar>output_of t god g x\<bar> \<le> 2 ^ 60)"

lemma moderate_strided_ok:
  assumes "finite (strided_grid_dimensions s)"
    and "valid_interval (input_domain_at t (strided_input_dimension s))"
    and "IsFinite_interval (input_domain_at t (strided_input_dimension s))"
    and "\<forall>g \<in> strided_grid_dimensions s.
      moderate_grid_dim shape t god (input_domain_at t (strided_input_dimension s)) g"
  shows "strided_ok (regular_range shape) t god (RegularGridRef shape) s"
  unfolding strided_ok_def
proof (intro conjI ballI)
  fix g x
  assume g: "g \<in> strided_grid_dimensions s"
    and x: "x \<in> interval_indices (input_domain_at t (strided_input_dimension s))"
  have m: "0 < shape ! g" "shape ! g \<le> 2 ^ 60" "\<bar>map_offset (grid_map t god g)\<bar> \<le> 2 ^ 60"
    "map_stride (grid_map t god g) \<noteq> 0" "map_stride (grid_map t god g) \<noteq> index_min"
    "\<bar>output_of t god g x\<bar> \<le> 2 ^ 60"
    using assms(4) g x by (simp_all add: moderate_grid_dim_def)
  define c where "c = snd (RegularGridRef shape g (output_of t god g x))"
  have c: "inclusive_min c \<le> output_of t god g x"
    "output_of t god g x - shape ! g < inclusive_min c"
    "inclusive_max c = inclusive_min c + shape ! g - 1"
    using int_div_bounds [OF m(1), of "output_of t god g x"]
    by (simp_all add: c_def RegularGridRef_eq [of shape g, OF m(1)] mult.commute)
  show "regular_range shape g (output_of t god g x)"
    using m c
    by (auto simp: regular_range_def IsFiniteIndex_def valid_interval_arith abs_le_iff
        simp flip: c_def)
  show "\<exists>d. GetAffineTransformDomain (snd (RegularGridRef shape g (output_of t god g x)))
      (map_offset (grid_map t god g)) (map_stride (grid_map t god g)) = Inr d"
    unfolding c_def [symmetric]
  proof (rule affine_domain_representable)
    show "inclusive_min c \<le> inclusive_max c" using c m by simp
    show "\<bar>inclusive_min c\<bar> \<le> 2 ^ 61" "\<bar>inclusive_max c\<bar> \<le> 2 ^ 61"
      using c m by simp_all
  qed (use m in auto)
qed (use assms in auto)

text \<open>C33: the iterator over the grid cells of a strided set visits, for a bounded input
  dimension and a regular grid whose cells are representable, every partial grid cell that the
  domain meets exactly once: the loop ends, the intervals it returns are disjoint, in ascending
  order and cover the domain, and each holds exactly the input indices whose outputs lie in the
  cells it reports.\<close>

theorem strided_partition_exact:
  assumes "strided_ok (regular_range shape) t god (RegularGridRef shape) s"
    and "strided_grid_dimensions s \<subseteq> {..<length out}"
  defines "domain \<equiv> input_domain_at t (strided_input_dimension s)"
  shows "\<exists>cs. strided_cells t god (RegularGridRef shape) s (strided_Reset t s) out = Some (Inr cs) \<and>
    sorted_wrt (\<lambda>a b. exclusive_max (fst a) \<le> inclusive_min (fst b)) cs \<and>
    (\<forall>x \<in> interval_indices domain. \<exists>(r, cells) \<in> set cs. Contains_index r x) \<and>
    (\<forall>(r, cells) \<in> set cs. interval_indices r \<noteq> {} \<and>
       interval_indices r = {x \<in> interval_indices domain. \<forall>g \<in> strided_grid_dimensions s.
          cells ! g = fst (RegularGridRef shape g (output_of t god g x))})"
proof -
  let ?it = "strided_Reset t s"
  let ?cell = "\<lambda>g y. fst (RegularGridRef shape g (output_of t god g y))"
  have v: "valid_interval domain" "IsFinite_interval domain"
    using assms(1) by (simp_all add: strided_ok_def domain_def)
  have it: "it_input_index ?it = inclusive_min domain" "it_input_end_index ?it = exclusive_max domain"
    by (simp_all add: strided_Reset_def Let_def domain_def)
  have le: "inclusive_min domain \<le> exclusive_max domain"
    using v(1) by (simp add: valid_interval_def ValidSized_def exclusive_max_def)
  obtain cs where cs: "strided_cells t god (RegularGridRef shape) s ?it out = Some (Inr cs)"
    "cells_from ?cell (strided_grid_dimensions s) (length out)
       (inclusive_min domain) (exclusive_max domain) cs"
    using regular.strided_cells_returns [OF assms(1), of ?it out] it le
    by (auto simp: domain_def)
  note dom = finite_domain_indices(1) [OF v]
  note ex = cells_from_exact [OF cs(2) assms(2)]
  have ex': "inclusive_min domain \<le> inclusive_min r" "inclusive_min r < exclusive_max r"
      "exclusive_max r \<le> exclusive_max domain"
      "\<And>y. inclusive_min domain \<le> y \<Longrightarrow> y < exclusive_max domain \<Longrightarrow>
         (inclusive_min r \<le> y \<and> y < exclusive_max r) \<longleftrightarrow>
         (\<forall>g \<in> strided_grid_dimensions s. cells ! g = ?cell g y)"
    if "(r, cells) \<in> set cs" for r cells
    using bspec [OF ex that] by simp_all
  have sub: "x \<in> interval_indices domain" "IsFiniteIndex x"
    if m: "(r, cells) \<in> set cs" and x: "inclusive_min r \<le> x" "x < exclusive_max r" for r cells x
  proof -
    show "x \<in> interval_indices domain" using ex'(1,3) [OF m] x dom [of x] by linarith
    then show "IsFiniteIndex x" by (simp add: interval_indices_iff)
  qed
  have cover: "\<exists>(r, cells) \<in> set cs. Contains_index r x" if x: "x \<in> interval_indices domain" for x
  proof -
    obtain r cells where m: "(r, cells) \<in> set cs" "inclusive_min r \<le> x" "x < exclusive_max r"
      using cells_from_cover [OF cs(2), of x] x dom [of x] by auto
    then have "Contains_index r x"
      using sub(2) [OF m]
      by (simp add: Contains_index_def IsFiniteIndex_def inclusive_max_def exclusive_max_def)
    then show ?thesis using m(1) by blast
  qed
  have part: "interval_indices r \<noteq> {} \<and> interval_indices r = {x \<in> interval_indices domain.
      \<forall>g \<in> strided_grid_dimensions s. cells ! g = ?cell g x}"
    if m: "(r, cells) \<in> set cs" for r cells
  proof -
    have r: "x \<in> interval_indices r \<longleftrightarrow> inclusive_min r \<le> x \<and> x < exclusive_max r" for x
      using sub(2) [OF m, of x] by (auto simp: interval_indices_iff inclusive_max_def exclusive_max_def)
    have "inclusive_min r \<in> interval_indices r" using ex'(2) [OF m] by (simp add: r)
    moreover have "x \<in> interval_indices r \<longleftrightarrow> x \<in> interval_indices domain \<and>
        (\<forall>g \<in> strided_grid_dimensions s. cells ! g = ?cell g x)" for x
      using ex'(4) [OF m, of x] sub(1) [OF m, of x] dom [of x] unfolding r by blast
    ultimately show ?thesis by blast
  qed
  show ?thesis
    using cs(1) cells_from_sorted [OF cs(2)] cover part by blast
qed

definition ex_strided_transform :: "int \<Rightarrow> int \<Rightarrow> int \<Rightarrow> int \<Rightarrow> transform_rep" where
  "ex_strided_transform origin extent offset stride =
     \<lparr>input_dims = [explicit_dim (mk_interval origin extent)],
      output_index_maps = [\<lparr>map_method = Method_single_input_dimension 0,
        map_offset = offset, map_stride = stride\<rparr>]\<rparr>"

definition ex_strided_set :: strided_set where
  "ex_strided_set = \<lparr>strided_grid_dimensions = {0}, strided_input_dimension = 0\<rparr>"

lemmas ex_strided_simps =
  ex_strided_transform_def ex_strided_set_def input_domain_at_def optionally_implicit_domain_def
  explicit_dim_def grid_map_def output_of_def

theorem strided_partition_exact_witness:
  "\<exists>cs. strided_cells (ex_strided_transform 0 10 1 3) [0] (RegularGridRef [10]) ex_strided_set
      (strided_Reset (ex_strided_transform 0 10 1 3) ex_strided_set) [0] = Some (Inr cs) \<and>
    sorted_wrt (\<lambda>a b. exclusive_max (fst a) \<le> inclusive_min (fst b)) cs"
proof -
  have "strided_ok (regular_range [10]) (ex_strided_transform 0 10 1 3) [0] (RegularGridRef [10])
      ex_strided_set"
    by (rule moderate_strided_ok)
      (auto simp: ex_strided_simps moderate_grid_dim_def valid_interval_arith
        IsFinite_interval_def interval_indices_iff)
  from strided_partition_exact [OF this, of "[0]"] show ?thesis
    by (auto simp: ex_strided_set_def)
qed


end
