(* ===== verification/Connected_Sets.thy ===== *)
theory Connected_Sets
  imports Transform_Rep
begin

text \<open>
  The connected sets of input and grid dimensions (\<^verbatim>\<open>ForEachConnectedSet\<close> of
  \<^verbatim>\<open>internal/grid_partition_impl.cc\<close>). A grid dimension depends on the input dimensions of its
  output index map; grid dimensions that share an input dimension have to be partitioned
  together. A \<^verbatim>\<open>DimensionSet\<close> is a set of numbers; the set of remaining grid dimensions, over
  which the code iterates, is the ascending list of its elements.
\<close>

section \<open>Operations\<close>

definition GetInputDimensionsForOutputDimension :: "transform_rep \<Rightarrow> nat \<Rightarrow> nat set \<times> bool" where
  "GetInputDimensionsForOutputDimension t output_dim =
     (case map_method (output_index_maps t ! output_dim) of
        Method_constant \<Rightarrow> ({}, False)
      | Method_single_input_dimension d \<Rightarrow> ({d}, False)
      | Method_array a \<Rightarrow>
          let dims = filter (\<lambda>d. byte_strides a ! d \<noteq> 0) [0..<input_rank t]
          in (set dims, dims \<noteq> []))"

record connected_set =
  cs_input_dims :: "nat set"
  cs_grid_dims :: "nat set"
  cs_has_array :: bool

definition add_grid_dim :: "(nat set \<times> bool) list \<Rightarrow> nat \<Rightarrow> connected_set \<Rightarrow> connected_set" where
  "add_grid_dim deps grid_dim s =
     \<lparr>cs_input_dims = cs_input_dims s \<union> fst (deps ! grid_dim),
      cs_grid_dims = insert grid_dim (cs_grid_dims s),
      cs_has_array = (cs_has_array s \<or> snd (deps ! grid_dim))\<rparr>"

definition is_grid_dim_in_set :: "(nat set \<times> bool) list \<Rightarrow> nat \<Rightarrow> connected_set \<Rightarrow> bool" where
  "is_grid_dim_in_set deps grid_dim s \<longleftrightarrow> fst (deps ! grid_dim) \<inter> cs_input_dims s \<noteq> {}"

definition new_set :: connected_set where
  "new_set = \<lparr>cs_input_dims = {}, cs_grid_dims = {}, cs_has_array = False\<rparr>"

text \<open>
  The inner loop over the remaining grid dimensions: it returns the grown set and the grid
  dimensions that still remain.
\<close>

fun grow_set ::
  "(nat set \<times> bool) list \<Rightarrow> connected_set \<Rightarrow> nat list \<Rightarrow> connected_set \<times> nat list" where
  "grow_set deps s [] = (s, [])"
| "grow_set deps s (g # gs) =
     (if is_grid_dim_in_set deps g s then grow_set deps (add_grid_dim deps g s) gs
      else let (s', remaining) = grow_set deps s gs in (s', g # remaining))"

lemma grow_set_length: "length (snd (grow_set deps s gs)) \<le> length gs"
  by (induction gs arbitrary: s) (auto simp: split_beta intro: le_SucI)

function connected_sets :: "(nat set \<times> bool) list \<Rightarrow> nat list \<Rightarrow> connected_set list" where
  "connected_sets deps [] = []"
| "connected_sets deps (g # gs) =
     (let s = add_grid_dim deps g new_set
      in if fst (deps ! g) = {} then connected_sets deps gs
         else let (s', remaining) = grow_set deps s gs in s' # connected_sets deps remaining)"
  by pat_completeness auto

termination connected_sets
  by (relation "measure (\<lambda>(deps, gs). length gs)")
    (simp_all, metis grow_set_length le_imp_less_Suc snd_conv)

definition ForEachConnectedSet :: "nat list \<Rightarrow> transform_rep \<Rightarrow> connected_set list" where
  "ForEachConnectedSet grid_output_dimensions t =
     connected_sets (map (GetInputDimensionsForOutputDimension t) grid_output_dimensions)
       [0..<length grid_output_dimensions]"

section \<open>What the sets contain\<close>

definition deps_of :: "(nat set \<times> bool) list \<Rightarrow> nat set \<Rightarrow> nat set" where
  "deps_of deps gs = (\<Union>g \<in> gs. fst (deps ! g))"

definition set_ok :: "(nat set \<times> bool) list \<Rightarrow> connected_set \<Rightarrow> bool" where
  "set_ok deps s \<longleftrightarrow>
     cs_input_dims s = deps_of deps (cs_grid_dims s) \<and>
     (cs_has_array s \<longleftrightarrow> (\<exists>g \<in> cs_grid_dims s. snd (deps ! g)))"

lemma set_ok_add: "set_ok deps s \<Longrightarrow> set_ok deps (add_grid_dim deps g s)"
  by (auto simp: set_ok_def add_grid_dim_def deps_of_def)

lemma set_ok_new: "set_ok deps new_set"
  by (simp add: set_ok_def new_set_def deps_of_def)

lemma grow_set_ok: "set_ok deps s \<Longrightarrow> set_ok deps (fst (grow_set deps s gs))"
  by (induction gs arbitrary: s) (auto simp: set_ok_add split_beta)

lemma grow_set_dims:
  assumes "grow_set deps s gs = (s', remaining)" "distinct gs"
  shows "\<exists>A \<subseteq> set gs. cs_grid_dims s' = cs_grid_dims s \<union> A \<and>
    remaining = filter (\<lambda>g. g \<notin> A) gs"
  using assms
proof (induction gs arbitrary: s remaining)
  case (Cons g gs)
  show ?case
  proof (cases "is_grid_dim_in_set deps g s")
    case True
    then obtain A where "A \<subseteq> set gs"
      "cs_grid_dims s' = cs_grid_dims (add_grid_dim deps g s) \<union> A"
      "remaining = filter (\<lambda>g. g \<notin> A) gs"
      using Cons.IH [of "add_grid_dim deps g s" remaining] Cons.prems by auto
    then show ?thesis
      using Cons.prems(2)
      by (intro exI [of _ "insert g A"]) (auto simp: add_grid_dim_def intro!: filter_cong)
  next
    case False
    then obtain remaining' where "grow_set deps s gs = (s', remaining')" "remaining = g # remaining'"
      using Cons.prems(1) by (auto split: prod.splits)
    moreover then obtain A where "A \<subseteq> set gs" "cs_grid_dims s' = cs_grid_dims s \<union> A"
      "remaining' = filter (\<lambda>g. g \<notin> A) gs"
      using Cons.IH [of s remaining'] Cons.prems(2) by auto
    ultimately show ?thesis
      using Cons.prems(2) by (intro exI [of _ A]) auto
  qed
qed auto

text \<open>Two grid dimensions are related when they share an input dimension.\<close>

definition share_input :: "(nat set \<times> bool) list \<Rightarrow> nat \<Rightarrow> nat \<Rightarrow> bool" where
  "share_input deps g h \<longleftrightarrow>
     g < length deps \<and> h < length deps \<and> fst (deps ! g) \<inter> fst (deps ! h) \<noteq> {}"

lemma grow_set_seed:
  assumes "grow_set deps s gs = (s', remaining)" "set_ok deps s" "g0 \<in> cs_grid_dims s"
    and "h \<in> set remaining"
  shows "\<not> share_input deps h g0"
  using assms
proof (induction gs arbitrary: s remaining)
  case (Cons g gs)
  show ?case
  proof (cases "is_grid_dim_in_set deps g s")
    case True
    then show ?thesis
      using Cons.IH [of "add_grid_dim deps g s" remaining] Cons.prems set_ok_add [of deps s g]
      by (auto simp: add_grid_dim_def)
  next
    case False
    then have "\<not> share_input deps g g0"
      using Cons.prems(2,3)
      by (auto simp: is_grid_dim_in_set_def share_input_def set_ok_def deps_of_def)
    with False show ?thesis
      using Cons.IH [of s "tl remaining"] Cons.prems by (auto split: prod.splits)
  qed
qed simp

lemma grow_set_connected:
  assumes "grow_set deps s gs = (s', remaining)" "set_ok deps s"
    and "transp (share_input deps)"
    and "\<forall>g \<in> cs_grid_dims s. share_input deps g g0" "set gs \<subseteq> {..<length deps}"
  shows "\<forall>g \<in> cs_grid_dims s'. share_input deps g g0"
  using assms(1,2,4,5)
proof (induction gs arbitrary: s remaining)
  case (Cons g gs)
  show ?case
  proof (cases "is_grid_dim_in_set deps g s")
    case True
    then obtain h where "h \<in> cs_grid_dims s" "fst (deps ! g) \<inter> fst (deps ! h) \<noteq> {}"
      using Cons.prems(2) by (auto simp: is_grid_dim_in_set_def set_ok_def deps_of_def)
    moreover then have "share_input deps h g0" "share_input deps g h"
      using Cons.prems(3,4) by (auto simp: share_input_def)
    ultimately have "share_input deps g g0" using assms(3) by (blast dest: transpD)
    then show ?thesis
      using True Cons.IH [of "add_grid_dim deps g s" remaining] Cons.prems
        set_ok_add [of deps s g]
      by (auto simp: add_grid_dim_def)
  next
    case False
    then show ?thesis using Cons.IH [of s "tl remaining"] Cons.prems by (auto split: prod.splits)
  qed
qed simp

lemma grow_set_singleton:
  assumes "\<forall>g < length deps. \<not> snd (deps ! g) \<longrightarrow> (\<exists>d. fst (deps ! g) \<subseteq> {d})"
    and "\<not> cs_has_array s \<longrightarrow> is_singleton (cs_input_dims s)" "set gs \<subseteq> {..<length deps}"
    and "\<not> cs_has_array (fst (grow_set deps s gs))"
  shows "is_singleton (cs_input_dims (fst (grow_set deps s gs)))"
  using assms(2-)
proof (induction gs arbitrary: s)
  case (Cons g gs)
  show ?case
  proof (cases "is_grid_dim_in_set deps g s")
    case True
    have "\<not> cs_has_array (add_grid_dim deps g s) \<longrightarrow>
        is_singleton (cs_input_dims (add_grid_dim deps g s))"
    proof
      assume "\<not> cs_has_array (add_grid_dim deps g s)"
      then have n: "\<not> cs_has_array s" "\<not> snd (deps ! g)" by (simp_all add: add_grid_dim_def)
      then obtain d d' where "fst (deps ! g) \<subseteq> {d}" "cs_input_dims s = {d'}"
        using assms(1) Cons.prems(1,2) by (auto simp: is_singleton_def)
      then show "is_singleton (cs_input_dims (add_grid_dim deps g s))"
        using True by (auto simp: is_grid_dim_in_set_def add_grid_dim_def is_singleton_def)
    qed
    then show ?thesis using True Cons.IH [of "add_grid_dim deps g s"] Cons.prems by auto
  next
    case False
    then show ?thesis using Cons.IH [of s] Cons.prems by (auto simp: split_beta)
  qed
qed simp

lemma grow_set_nonempty:
  assumes "\<forall>h \<in> cs_grid_dims s. fst (deps ! h) \<noteq> {}"
  shows "\<forall>h \<in> cs_grid_dims (fst (grow_set deps s gs)). fst (deps ! h) \<noteq> {}"
  using assms
proof (induction gs arbitrary: s)
  case (Cons g gs)
  show ?case
  proof (cases "is_grid_dim_in_set deps g s")
    case True
    then have "\<forall>h \<in> cs_grid_dims (add_grid_dim deps g s). fst (deps ! h) \<noteq> {}"
      using Cons.prems by (auto simp: is_grid_dim_in_set_def add_grid_dim_def)
    then show ?thesis using True Cons.IH by simp
  next
    case False
    then show ?thesis using Cons by (simp add: split_beta)
  qed
qed simp

lemma connected_sets_ok:
  assumes "distinct gs" "set gs \<subseteq> {..<length deps}"
  shows "(\<forall>s \<in> set (connected_sets deps gs). set_ok deps s \<and> cs_grid_dims s \<subseteq> set gs \<and>
      cs_input_dims s \<noteq> {}) \<and>
    (\<Union>s \<in> set (connected_sets deps gs). cs_grid_dims s) = {g \<in> set gs. fst (deps ! g) \<noteq> {}} \<and>
    sorted_wrt (\<lambda>a b. cs_grid_dims a \<inter> cs_grid_dims b = {}) (connected_sets deps gs)"
  using assms
proof (induction deps gs rule: connected_sets.induct)
  case (2 deps g gs)
  let ?s = "add_grid_dim deps g new_set"
  show ?case
  proof (cases "fst (deps ! g) = {}")
    case True
    then show ?thesis using "2.IH"(1) [OF refl True] "2.prems" by auto
  next
    case False
    obtain s' remaining where grow: "grow_set deps ?s gs = (s', remaining)"
      by (cases "grow_set deps ?s gs")
    obtain A where A: "A \<subseteq> set gs" "cs_grid_dims s' = cs_grid_dims ?s \<union> A"
      "remaining = filter (\<lambda>g. g \<notin> A) gs"
      using grow_set_dims [OF grow] "2.prems"(1) by auto
    have grid: "cs_grid_dims s' = insert g A" using A(2) by (simp add: add_grid_dim_def new_set_def)
    have ok: "set_ok deps s'"
      using grow_set_ok [OF set_ok_add [OF set_ok_new], of deps g gs] grow by simp
    have nonempty: "\<forall>h \<in> A. fst (deps ! h) \<noteq> {}"
      using grow_set_nonempty [of ?s deps gs] grow grid False
      by (auto simp: add_grid_dim_def new_set_def)
    have ih: "(\<forall>s \<in> set (connected_sets deps remaining). set_ok deps s \<and>
          cs_grid_dims s \<subseteq> set remaining \<and> cs_input_dims s \<noteq> {}) \<and>
        (\<Union>s \<in> set (connected_sets deps remaining). cs_grid_dims s) =
          {g \<in> set remaining. fst (deps ! g) \<noteq> {}} \<and>
        sorted_wrt (\<lambda>a b. cs_grid_dims a \<inter> cs_grid_dims b = {}) (connected_sets deps remaining)"
      using "2.IH"(2) [OF refl False grow [symmetric] refl] "2.prems" A(3) by auto
    have eq: "connected_sets deps (g # gs) = s' # connected_sets deps remaining"
      using False grow by simp
    have "cs_input_dims s' \<noteq> {}"
      using ok grid False by (auto simp: set_ok_def deps_of_def)
    then show ?thesis
      unfolding eq using ih ok grid A(1,3) nonempty "2.prems"(1) False by auto
  qed
qed simp

lemma connected_sets_singleton:
  assumes "\<forall>g < length deps. \<not> snd (deps ! g) \<longrightarrow> (\<exists>d. fst (deps ! g) \<subseteq> {d})"
    and "distinct gs" "set gs \<subseteq> {..<length deps}"
  shows "\<forall>s \<in> set (connected_sets deps gs). \<not> cs_has_array s \<longrightarrow> is_singleton (cs_input_dims s)"
  using assms
proof (induction deps gs rule: connected_sets.induct)
  case (2 deps g gs)
  let ?s = "add_grid_dim deps g new_set"
  show ?case
  proof (cases "fst (deps ! g) = {}")
    case True
    then show ?thesis using "2.IH"(1) [OF refl True] "2.prems" by auto
  next
    case False
    obtain s' remaining where grow: "grow_set deps ?s gs = (s', remaining)"
      by (cases "grow_set deps ?s gs")
    have "set remaining \<subseteq> set gs" "distinct remaining"
      using grow_set_dims [OF grow] "2.prems"(2) by auto
    then have ih: "\<forall>s \<in> set (connected_sets deps remaining).
        \<not> cs_has_array s \<longrightarrow> is_singleton (cs_input_dims s)"
      using "2.IH"(2) [OF refl False grow [symmetric] refl] "2.prems" by auto
    have "\<not> cs_has_array ?s \<longrightarrow> is_singleton (cs_input_dims ?s)"
      using False "2.prems" by (auto simp: add_grid_dim_def new_set_def is_singleton_def)
    then have "\<not> cs_has_array s' \<longrightarrow> is_singleton (cs_input_dims s')"
      using grow_set_singleton [OF "2.prems"(1), of ?s gs] "2.prems"(3) grow by simp
    then show ?thesis using ih False grow by simp
  qed
qed simp

lemma connected_sets_disjoint:
  assumes "transp (share_input deps)" "distinct gs" "set gs \<subseteq> {..<length deps}"
  shows "sorted_wrt (\<lambda>a b. cs_input_dims a \<inter> cs_input_dims b = {}) (connected_sets deps gs)"
  using assms
proof (induction deps gs rule: connected_sets.induct)
  case (2 deps g gs)
  let ?s = "add_grid_dim deps g new_set"
  show ?case
  proof (cases "fst (deps ! g) = {}")
    case True
    then show ?thesis using "2.IH"(1) [OF refl True] "2.prems" by auto
  next
    case False
    obtain s' remaining where grow: "grow_set deps ?s gs = (s', remaining)"
      by (cases "grow_set deps ?s gs")
    have rem: "set remaining \<subseteq> set gs" "distinct remaining"
      using grow_set_dims [OF grow] "2.prems"(2) by auto
    then have ih: "sorted_wrt (\<lambda>a b. cs_input_dims a \<inter> cs_input_dims b = {})
        (connected_sets deps remaining)"
      using "2.IH"(2) [OF refl False grow [symmetric] refl] "2.prems" by auto
    have ok: "set_ok deps ?s" by (rule set_ok_add [OF set_ok_new])
    have g: "cs_grid_dims ?s = {g}" by (simp add: add_grid_dim_def new_set_def)
    have ok': "set_ok deps s'" using grow_set_ok [OF ok, of gs] grow by simp
    have seed: "\<not> share_input deps h g" if "h \<in> set remaining" for h
      using grow_set_seed [OF grow ok] that g by simp
    have conn: "\<forall>h \<in> cs_grid_dims s'. share_input deps h g"
      by (rule grow_set_connected [OF grow ok "2.prems"(1)])
        (use g False "2.prems"(3) in \<open>auto simp: share_input_def\<close>)
    have sets: "\<forall>b \<in> set (connected_sets deps remaining). set_ok deps b \<and>
        cs_grid_dims b \<subseteq> set remaining"
      using connected_sets_ok [OF rem(2), of deps] rem(1) "2.prems"(3) by auto
    have "cs_input_dims s' \<inter> cs_input_dims b = {}" if b: "b \<in> set (connected_sets deps remaining)" for b
    proof (rule ccontr)
      assume "cs_input_dims s' \<inter> cs_input_dims b \<noteq> {}"
      then obtain h k where "h \<in> cs_grid_dims s'" "k \<in> cs_grid_dims b"
        "fst (deps ! h) \<inter> fst (deps ! k) \<noteq> {}"
        using ok' sets b by (auto simp: set_ok_def deps_of_def)
      moreover then have k: "k \<in> set remaining" using sets b by blast
      ultimately have "share_input deps k h" "share_input deps h g"
        using conn rem(1) "2.prems"(3) by (auto simp: share_input_def)
      then show False using seed [OF k] "2.prems"(1) by (blast dest: transpD)
    qed
    then show ?thesis using ih False grow by simp
  qed
qed simp

section \<open>Properties\<close>

definition grid_dim_inputs :: "nat list \<Rightarrow> transform_rep \<Rightarrow> nat \<Rightarrow> nat set" where
  "grid_dim_inputs god t g = fst (GetInputDimensionsForOutputDimension t (god ! g))"

definition grid_dims_related :: "nat list \<Rightarrow> transform_rep \<Rightarrow> nat \<Rightarrow> nat \<Rightarrow> bool" where
  "grid_dims_related god t =
     share_input (map (GetInputDimensionsForOutputDimension t) god)"

lemma GetInputDimensions_no_array:
  "\<not> snd (GetInputDimensionsForOutputDimension t d) \<Longrightarrow>
   \<exists>i. fst (GetInputDimensionsForOutputDimension t d) \<subseteq> {i}"
  by (auto simp: GetInputDimensionsForOutputDimension_def Let_def filter_empty_conv
      split: output_index_method.splits)

lemma sorted_wrt_unique_index:
  assumes "sorted_wrt (\<lambda>a b. F a \<inter> F b = {}) xs" "i < length xs" "j < length xs"
    and "g \<in> F (xs ! i)" "g \<in> F (xs ! j)"
  shows "i = j"
proof (rule ccontr)
  assume "i \<noteq> j"
  then consider "i < j" | "j < i" by linarith
  then have "F (xs ! i) \<inter> F (xs ! j) = {}"
    by cases (use assms(1-3) in \<open>auto simp: sorted_wrt_iff_nth_less\<close>)
  then show False using assms(4,5) by blast
qed

lemma ForEachConnectedSet_ok:
  fixes god t
  defines "sets \<equiv> ForEachConnectedSet god t"
  shows "\<forall>s \<in> set sets. cs_input_dims s = (\<Union>g \<in> cs_grid_dims s. grid_dim_inputs god t g) \<and>
      cs_grid_dims s \<subseteq> {..<length god} \<and> cs_input_dims s \<noteq> {} \<and>
      (\<not> cs_has_array s \<longrightarrow> is_singleton (cs_input_dims s)) \<and>
      (cs_has_array s \<longleftrightarrow> (\<exists>g \<in> cs_grid_dims s.
         snd (GetInputDimensionsForOutputDimension t (god ! g))))"
    and "(\<Union>s \<in> set sets. cs_grid_dims s) = {g. g < length god \<and> grid_dim_inputs god t g \<noteq> {}}"
    and "sorted_wrt (\<lambda>a b. cs_grid_dims a \<inter> cs_grid_dims b = {}) sets"
    and "transp (grid_dims_related god t) \<Longrightarrow>
      sorted_wrt (\<lambda>a b. cs_input_dims a \<inter> cs_input_dims b = {}) sets"
proof -
  let ?deps = "map (GetInputDimensionsForOutputDimension t) god"
  have d: "distinct [0..<length god]" "set [0..<length god] \<subseteq> {..<length ?deps}" by auto
  have single: "\<forall>g < length ?deps. \<not> snd (?deps ! g) \<longrightarrow> (\<exists>i. fst (?deps ! g) \<subseteq> {i})"
    using GetInputDimensions_no_array by simp
  note ok = connected_sets_ok [OF d] connected_sets_singleton [OF single d]
    connected_sets_disjoint [OF _ d]
  have eq: "sets = connected_sets ?deps [0..<length god]"
    by (simp add: sets_def ForEachConnectedSet_def)
  show "\<forall>s \<in> set sets. cs_input_dims s = (\<Union>g \<in> cs_grid_dims s. grid_dim_inputs god t g) \<and>
      cs_grid_dims s \<subseteq> {..<length god} \<and> cs_input_dims s \<noteq> {} \<and>
      (\<not> cs_has_array s \<longrightarrow> is_singleton (cs_input_dims s)) \<and>
      (cs_has_array s \<longleftrightarrow> (\<exists>g \<in> cs_grid_dims s.
         snd (GetInputDimensionsForOutputDimension t (god ! g))))"
  proof
    fix s
    assume "s \<in> set sets"
    then have s: "set_ok ?deps s" "cs_grid_dims s \<subseteq> {..<length god}" "cs_input_dims s \<noteq> {}"
      "\<not> cs_has_array s \<longrightarrow> is_singleton (cs_input_dims s)"
      using ok(1,2) eq by auto
    have "(\<Union>g \<in> cs_grid_dims s. fst (?deps ! g)) = (\<Union>g \<in> cs_grid_dims s. grid_dim_inputs god t g)"
      using s(2) by (intro SUP_cong) (auto simp: grid_dim_inputs_def)
    moreover have "(\<exists>g \<in> cs_grid_dims s. snd (?deps ! g)) \<longleftrightarrow>
        (\<exists>g \<in> cs_grid_dims s. snd (GetInputDimensionsForOutputDimension t (god ! g)))"
      using s(2) by (intro bex_cong) auto
    ultimately show "cs_input_dims s = (\<Union>g \<in> cs_grid_dims s. grid_dim_inputs god t g) \<and>
      cs_grid_dims s \<subseteq> {..<length god} \<and> cs_input_dims s \<noteq> {} \<and>
      (\<not> cs_has_array s \<longrightarrow> is_singleton (cs_input_dims s)) \<and>
      (cs_has_array s \<longleftrightarrow> (\<exists>g \<in> cs_grid_dims s.
         snd (GetInputDimensionsForOutputDimension t (god ! g))))"
      using s by (simp add: set_ok_def deps_of_def)
  qed
  show "(\<Union>s \<in> set sets. cs_grid_dims s) = {g. g < length god \<and> grid_dim_inputs god t g \<noteq> {}}"
    using ok(1) unfolding eq by (auto simp: grid_dim_inputs_def)
  show "sorted_wrt (\<lambda>a b. cs_grid_dims a \<inter> cs_grid_dims b = {}) sets"
    using ok(1) unfolding eq by blast
  show "sorted_wrt (\<lambda>a b. cs_input_dims a \<inter> cs_input_dims b = {}) sets"
    if "transp (grid_dims_related god t)"
    using ok(3) that unfolding eq grid_dims_related_def by blast
qed

text \<open>C34: the connected sets of a transform and a grid. Every grid dimension that depends on an
  input dimension is in exactly one set; the input dimensions of a set are those of its grid
  dimensions; a set without index arrays has a single input dimension, as the code asserts. If
  sharing an input dimension is transitive among the grid dimensions, no two sets have an
  input dimension in common.\<close>

theorem connected_sets_exact:
  fixes god t
  defines "sets \<equiv> ForEachConnectedSet god t"
  shows "(\<forall>g < length god. grid_dim_inputs god t g \<noteq> {} \<longrightarrow>
      (\<exists>!i. i < length sets \<and> g \<in> cs_grid_dims (sets ! i))) \<and>
    (\<forall>s \<in> set sets. cs_input_dims s = (\<Union>g \<in> cs_grid_dims s. grid_dim_inputs god t g) \<and>
      (\<not> cs_has_array s \<longrightarrow> is_singleton (cs_input_dims s))) \<and>
    (transp (grid_dims_related god t) \<longrightarrow>
      (\<forall>i j. i < length sets \<longrightarrow> j < length sets \<longrightarrow> i \<noteq> j \<longrightarrow>
        cs_input_dims (sets ! i) \<inter> cs_input_dims (sets ! j) = {}))"
proof (intro conjI allI impI ballI)
  note ok = ForEachConnectedSet_ok [of god t, folded sets_def]
  fix g
  assume "g < length god" "grid_dim_inputs god t g \<noteq> {}"
  then obtain s where "s \<in> set sets" "g \<in> cs_grid_dims s" using ok(2) by blast
  then obtain i where "i < length sets" "g \<in> cs_grid_dims (sets ! i)"
    by (metis in_set_conv_nth)
  then show "\<exists>!i. i < length sets \<and> g \<in> cs_grid_dims (sets ! i)"
    using sorted_wrt_unique_index [of cs_grid_dims, OF ok(3)] by blast
next
  note ok = ForEachConnectedSet_ok [of god t, folded sets_def]
  fix s
  assume "s \<in> set sets"
  then show "cs_input_dims s = (\<Union>g \<in> cs_grid_dims s. grid_dim_inputs god t g)"
    "\<not> cs_has_array s \<Longrightarrow> is_singleton (cs_input_dims s)"
    using ok(1) by blast+
next
  note ok = ForEachConnectedSet_ok [of god t, folded sets_def]
  fix i j
  assume "transp (grid_dims_related god t)" "i < length sets" "j < length sets" "i \<noteq> j"
  then show "cs_input_dims (sets ! i) \<inter> cs_input_dims (sets ! j) = {}"
    using sorted_wrt_unique_index [of cs_input_dims, OF ok(4)] by blast
qed

definition ex_map_single :: "nat \<Rightarrow> output_index_map" where
  "ex_map_single d =
     \<lparr>map_method = Method_single_input_dimension d, map_offset = 0, map_stride = 1\<rparr>"

definition ex_map_array :: "int list \<Rightarrow> output_index_map" where
  "ex_map_array strides =
     \<lparr>map_method = Method_array
        \<lparr>element_pointer = (\<lambda>p. p), index_range = Infinite, byte_strides = strides\<rparr>,
      map_offset = 0, map_stride = 1\<rparr>"

definition ex_bridge :: transform_rep where
  "ex_bridge = \<lparr>input_dims = [explicit_dim (mk_interval 0 2), explicit_dim (mk_interval 0 2)],
     output_index_maps = [ex_map_single 0, ex_map_single 1, ex_map_array [8, 16]]\<rparr>"

theorem connected_sets_exact_witness:
  "grid_dim_inputs [0, 2] ex_bridge 1 \<noteq> {} \<and>
   (\<exists>!i. i < length (ForEachConnectedSet [0, 2] ex_bridge) \<and>
      1 \<in> cs_grid_dims (ForEachConnectedSet [0, 2] ex_bridge ! i))"
proof
  show "grid_dim_inputs [0, 2] ex_bridge 1 \<noteq> {}" by code_simp
  then show "\<exists>!i. i < length (ForEachConnectedSet [0, 2] ex_bridge) \<and>
      1 \<in> cs_grid_dims (ForEachConnectedSet [0, 2] ex_bridge ! i)"
    using connected_sets_exact [of "[0, 2]" ex_bridge] by simp
qed

text \<open>C35: the connected sets need not be the connected components. The code goes over the
  remaining grid dimensions once; when a later grid dimension joins the set and brings a new
  input dimension, the earlier grid dimensions that depend on it are not looked at again. For
  three grid dimensions that depend on input dimension 0, on 1, and through an index array on both,
  input dimension 1 ends up in an index array set and in a strided set.\<close>

theorem connected_sets_overlap:
  "DebugCheckInvariants ex_bridge \<and>
   ForEachConnectedSet [0, 1, 2] ex_bridge =
     [\<lparr>cs_input_dims = {0, 1}, cs_grid_dims = {0, 2}, cs_has_array = True\<rparr>,
      \<lparr>cs_input_dims = {1}, cs_grid_dims = {1}, cs_has_array = False\<rparr>]"
proof
  show "DebugCheckInvariants ex_bridge" by code_simp
  show "ForEachConnectedSet [0, 1, 2] ex_bridge =
     [\<lparr>cs_input_dims = {0, 1}, cs_grid_dims = {0, 2}, cs_has_array = True\<rparr>,
      \<lparr>cs_input_dims = {1}, cs_grid_dims = {1}, cs_has_array = False\<rparr>]"
    by code_simp
qed

end
