(* ===== verification/Index_Array_Sets.thy ===== *)
theory Index_Array_Sets
  imports Strided_Partition Connected_Sets Transform_Array "HOL-Library.Multiset"
begin

text \<open>
  The precomputed partitions of the connected sets that contain index arrays
  (\<^verbatim>\<open>IndexTransformGridPartition::IndexArraySet\<close>, \<^verbatim>\<open>FillIndexArraySetData\<close> and its helpers in
  \<^verbatim>\<open>internal/grid_partition_impl.cc\<close>).

  The flat row-major arrays of the code are lists of rows: \<^verbatim>\<open>temp_cell_indices\<close>,
  \<^verbatim>\<open>grid_cell_indices\<close> and \<^verbatim>\<open>partitioned_input_indices\<close>. A column of \<^verbatim>\<open>temp_cell_indices\<close>, which the
  code addresses by a base pointer and a stride, is the list of its values. The hash map
  \<^verbatim>\<open>IndirectVectorMap\<close> compares positions by the rows they stand for; it is a function of the row.
\<close>

section \<open>Grouping positions by cell\<close>

record index_array_set =
  ias_grid_dimensions :: "nat set"
  ias_input_dimensions :: "nat set"
  grid_cell_indices :: "int list list"
  partitioned_input_indices :: "int list list"
  grid_cell_partition_offsets :: "nat list"

definition num_partitions :: "index_array_set \<Rightarrow> nat" where
  "num_partitions s = length (grid_cell_partition_offsets s)"

definition partition_input_indices :: "index_array_set \<Rightarrow> nat \<Rightarrow> int list list" where
  "partition_input_indices s partition_i =
     (let start = grid_cell_partition_offsets s ! partition_i;
          end' = (if partition_i + 1 = length (grid_cell_partition_offsets s)
                  then length (partitioned_input_indices s)
                  else grid_cell_partition_offsets s ! (partition_i + 1))
      in take (end' - start) (drop start (partitioned_input_indices s)))"

definition partition_grid_cell_indices :: "index_array_set \<Rightarrow> nat \<Rightarrow> int list" where
  "partition_grid_cell_indices s partition_i = grid_cell_indices s ! partition_i"

definition count_cells :: "int list list \<Rightarrow> int list \<Rightarrow> nat" where
  "count_cells rows = fold (\<lambda>row cells. cells(row := cells row + 1)) rows (\<lambda>_. 0)"

text \<open>
  The keys of the hash map are the positions where a row occurs first. They are sorted by their
  rows, which are distinct, so that the order in which the hash map yields them does not matter.
\<close>

definition first_positions :: "int list list \<Rightarrow> nat list" where
  "first_positions rows = filter (\<lambda>i. rows ! i \<notin> set (take i rows)) [0..<length rows]"

fun assign_offsets ::
  "int list list \<Rightarrow> nat list \<Rightarrow> nat \<Rightarrow> (int list \<Rightarrow> nat) \<Rightarrow>
   nat list \<times> int list list \<times> (int list \<Rightarrow> nat)" where
  "assign_offsets rows [] offset cells = ([], [], cells)"
| "assign_offsets rows (position_i # ps) offset cells =
     (let row = rows ! position_i;
          count = cells row;
          (offsets, indices, cells') =
            assign_offsets rows ps (offset + count) (cells(row := offset))
      in (offset # offsets, row # indices, cells'))"

definition PartitionIndexArraySetGridCellIndexVectors ::
  "int list list \<Rightarrow> (int list \<Rightarrow> nat) \<times> int list list \<times> nat list" where
  "PartitionIndexArraySetGridCellIndexVectors rows =
     (let (offsets, indices, cells) =
            assign_offsets rows (sort_key (\<lambda>i. rows ! i) (first_positions rows)) 0
              (count_cells rows)
      in (cells, indices, offsets))"

definition write_position ::
  "int list \<times> int list \<Rightarrow> (int list \<Rightarrow> nat) \<times> int list list \<Rightarrow> (int list \<Rightarrow> nat) \<times> int list list"
where
  "write_position = (\<lambda>(row, indices) (cells, out).
     (cells(row := cells row + 1), out[cells row := indices]))"

definition GenerateIndexArraySetPartitionedInputIndices ::
  "int list list \<Rightarrow> int list list \<Rightarrow> (int list \<Rightarrow> nat) \<Rightarrow> int list list" where
  "GenerateIndexArraySetPartitionedInputIndices rows positions cells =
     snd (fold write_position (zip rows positions) (cells, replicate (length positions) []))"

section \<open>The grouping is exact\<close>

lemma count_cells_eq: "count_cells rows row = length (filter ((=) row) rows)"
proof -
  have "fold (\<lambda>row cells. cells(row := cells row + 1)) rows c row =
      c row + length (filter ((=) row) rows)" for c :: "int list \<Rightarrow> nat"
    by (induction rows arbitrary: c) auto
  then show ?thesis by (simp add: count_cells_def)
qed

lemma first_positions_rows:
  "distinct (map (\<lambda>i. rows ! i) (first_positions rows)) \<and>
   set (map (\<lambda>i. rows ! i) (first_positions rows)) = set rows"
proof -
  let ?first = "\<lambda>i. rows ! i \<notin> set (take i rows)"
  have "inj_on (\<lambda>i. rows ! i) (set (first_positions rows))"
  proof (rule inj_onI)
    fix i j
    assume ij: "i \<in> set (first_positions rows)" "j \<in> set (first_positions rows)"
      "rows ! i = rows ! j"
    have first: "?first i" "?first j" "i < length rows" "j < length rows"
      using ij(1,2) by (simp_all add: first_positions_def)
    have in_take: "rows ! a \<in> set (take b rows)" if "a < b" "b < length rows" for a b
      using that by (metis in_set_conv_nth length_take min.absorb4 nth_take)
    show "i = j"
    proof (rule linorder_cases [of i j])
      show "i = j" if "i < j" using in_take [OF that first(4)] first(2) ij(3) by simp
      show "i = j" if "j < i" using in_take [OF that first(3)] first(1) ij(3) by simp
    qed
  qed
  moreover have "distinct (first_positions rows)" by (simp add: first_positions_def)
  moreover have "row \<in> (\<lambda>i. rows ! i) ` set (first_positions rows)" if "row \<in> set rows" for row
  proof -
    define i where "i = (LEAST i. i < length rows \<and> rows ! i = row)"
    have ex: "\<exists>i. i < length rows \<and> rows ! i = row" using that by (simp add: in_set_conv_nth)
    have i: "i < length rows" "rows ! i = row" using LeastI_ex [OF ex] by (simp_all add: i_def)
    have "rows ! j \<noteq> row" if "j < i" for j
      using not_less_Least [of j "\<lambda>i. i < length rows \<and> rows ! i = row"] that i(1)
      by (auto simp: i_def)
    then have "?first i" using i by (auto simp: in_set_conv_nth)
    then show ?thesis using i by (auto simp: first_positions_def)
  qed
  moreover have "(\<lambda>i. rows ! i) ` set (first_positions rows) \<subseteq> set rows"
    by (auto simp: first_positions_def)
  ultimately show ?thesis by (auto simp: distinct_map)
qed

text \<open>The sorted keys do not depend on the order in which the hash map lists them.\<close>

lemma sorted_keys_order:
  assumes "mset order = mset (first_positions rows)"
  shows "sort_key (\<lambda>i. rows ! i) order = sort_key (\<lambda>i. rows ! i) (first_positions rows)"
proof -
  have "set order = set (first_positions rows)" using assms by (metis set_mset_mset)
  then show ?thesis
    using assms first_positions_rows [of rows]
    by (intro sort_key_inj_key_eq) (simp_all add: distinct_map)
qed

lemma assign_offsets_eq:
  assumes "assign_offsets rows ps offset cells = (offsets, indices, cells')"
    and "distinct (map (\<lambda>i. rows ! i) ps)"
  shows "indices = map (\<lambda>i. rows ! i) ps \<and> length offsets = length ps \<and>
    (\<forall>k < length ps. offsets ! k = offset + sum_list (map cells (take k indices)) \<and>
       cells' (indices ! k) = offsets ! k) \<and>
    (\<forall>row. row \<notin> set indices \<longrightarrow> cells' row = cells row)"
  using assms
proof (induction ps arbitrary: offset cells offsets indices cells')
  case (Cons p ps)
  let ?row = "rows ! p"
  obtain offsets0 indices0 where
    rec: "assign_offsets rows ps (offset + cells ?row) (cells(?row := offset)) =
      (offsets0, indices0, cells')"
    and eqs: "offsets = offset # offsets0" "indices = ?row # indices0"
    using Cons.prems(1) by (auto simp: Let_def split: prod.splits)
  have d: "distinct (map (\<lambda>i. rows ! i) ps)" "?row \<notin> (\<lambda>i. rows ! i) ` set ps"
    using Cons.prems(2) by auto
  note ih = Cons.IH [OF rec d(1)]
  have idx: "indices0 = map (\<lambda>i. rows ! i) ps" using ih by blast
  have same: "map (cells(?row := offset)) (take k indices0) = map cells (take k indices0)" for k
    using d(2) idx by (auto dest!: in_set_takeD)
  have row: "cells' ?row = offset" using ih d(2) idx by simp
  note ih' = ih [unfolded same]
  show ?case
    using ih' row d(2) by (auto simp: eqs nth_Cons split: nat.splits)
qed auto

definition group_of :: "'k \<Rightarrow> ('k \<times> 'a) list \<Rightarrow> 'a list" where
  "group_of k ps = map snd (filter (\<lambda>p. fst p = k) ps)"

lemma group_of_simps [simp]:
  "group_of k [] = []" "group_of k (ps @ [(k', a)]) = group_of k ps @ (if k' = k then [a] else [])"
  by (auto simp: group_of_def)

lemma fold_write_position:
  assumes "\<And>k k' j j'. j < length (group_of k ps) \<Longrightarrow> j' < length (group_of k' ps) \<Longrightarrow>
      start k + j = start k' + j' \<Longrightarrow> k = k'"
    and "\<And>k. group_of k ps \<noteq> [] \<Longrightarrow> start k + length (group_of k ps) \<le> length out"
    and "fold write_position ps (start, out) = (cells', out')"
  shows "length out' = length out \<and> (\<forall>k. cells' k = start k + length (group_of k ps)) \<and>
    (\<forall>k j. j < length (group_of k ps) \<longrightarrow> out' ! (start k + j) = group_of k ps ! j)"
  using assms
proof (induction ps arbitrary: cells' out' rule: rev_induct)
  case (snoc p ps)
  obtain k a where p: "p = (k, a)" by (cases p)
  have len: "length (group_of l (ps @ [p])) = length (group_of l ps) + (if k = l then 1 else 0)" for l
    by (simp add: p)
  obtain cells0 out0 where f0: "fold write_position ps (start, out) = (cells0, out0)"
    by (cases "fold write_position ps (start, out)")
  have ih: "length out0 = length out" "\<And>k. cells0 k = start k + length (group_of k ps)"
    "\<And>k j. j < length (group_of k ps) \<Longrightarrow> out0 ! (start k + j) = group_of k ps ! j"
  proof -
    have "length out0 = length out \<and> (\<forall>k. cells0 k = start k + length (group_of k ps)) \<and>
        (\<forall>k j. j < length (group_of k ps) \<longrightarrow> out0 ! (start k + j) = group_of k ps ! j)"
    proof (rule snoc.IH [OF _ _ f0])
      show "l = l'" if "j < length (group_of l ps)" "j' < length (group_of l' ps)"
        "start l + j = start l' + j'" for l l' j j'
        by (rule snoc.prems(1) [of j l j' l']) (use that len in auto)
      show "start l + length (group_of l ps) \<le> length out" if "group_of l ps \<noteq> []" for l
        using snoc.prems(2) [of l] that len [of l] by (auto simp: p)
    qed
    then show "length out0 = length out" "\<And>k. cells0 k = start k + length (group_of k ps)"
      "\<And>k j. j < length (group_of k ps) \<Longrightarrow> out0 ! (start k + j) = group_of k ps ! j" by blast+
  qed
  have res: "cells' = cells0(k := cells0 k + 1)" "out' = out0[cells0 k := a]"
    using snoc.prems(3) f0 by (simp_all add: p write_position_def)
  have inside: "cells0 k < length out0"
    using snoc.prems(2) [of k] len [of k] ih(1,2) by (simp add: p)
  have at: "out' ! (start l + j) = group_of l (ps @ [p]) ! j" if j: "j < length (group_of l (ps @ [p]))" for l j
  proof (cases "l = k \<and> j = length (group_of k ps)")
    case True
    then show ?thesis using res(2) ih(2) inside by (simp add: p nth_append)
  next
    case False
    then have jl: "j < length (group_of l ps)" using j len [of l] by (auto split: if_splits)
    have "start l + j \<noteq> cells0 k"
    proof
      assume eq: "start l + j = cells0 k"
      have "l = k"
        by (rule snoc.prems(1) [of j l "length (group_of k ps)" k]) (use j len eq ih(2) in auto)
      then show False using eq ih(2) jl by simp
    qed
    then show ?thesis using res(2) ih(3) [OF jl] jl by (simp add: p nth_append)
  qed
  then show ?case using res ih(1,2) len by (auto simp: p)
qed simp

lemma length_group_zip:
  "length rows = length positions \<Longrightarrow>
   length (group_of row (zip rows positions)) = count_cells rows row"
  unfolding count_cells_eq group_of_def
  by (induction rows positions rule: list_induct2) auto

lemma group_zip_nonempty:
  assumes "length rows = length positions" "group_of row (zip rows positions) \<noteq> []"
  shows "row \<in> set rows"
  using assms by (auto simp: group_of_def filter_empty_conv dest!: set_zip_leftD)

lemma sum_count_cells:
  assumes "distinct keys" "set keys = set rows"
  shows "sum_list (map (count_cells rows) keys) = length rows"
proof -
  have "sum_list (map (count_cells rows) keys) = sum (count_list rows) (set rows)"
    using assms by (simp add: sum_list_distinct_conv_sum_set count_cells_eq
        count_list_eq_length_filter [symmetric])
  also have "\<dots> = length rows" by (rule sum_count_set) auto
  finally show ?thesis .
qed

text \<open>Offsets are prefix sums of the counts.\<close>

lemma prefix_sum_Suc:
  "i < length keys \<Longrightarrow>
   sum_list (map c (take (Suc i) keys)) = sum_list (map c (take i keys)) + c (keys ! i)"
  for c :: "'a \<Rightarrow> nat"
  by (simp add: take_Suc_conv_app_nth)

lemma prefix_sum_le:
  fixes c :: "'a \<Rightarrow> nat"
  assumes "i \<le> j"
  shows "sum_list (map c (take i keys)) \<le> sum_list (map c (take j keys))"
proof -
  have "take j keys = take i keys @ take (j - i) (drop i keys)"
    using assms by (metis le_add_diff_inverse take_add)
  then show ?thesis by simp
qed

lemma prefix_sum_inj:
  fixes c :: "'a \<Rightarrow> nat"
  assumes "i < length keys" "j < length keys" "a < c (keys ! i)" "b < c (keys ! j)"
    and "sum_list (map c (take i keys)) + a = sum_list (map c (take j keys)) + b"
  shows "i = j"
proof (rule linorder_cases [of i j])
  show "i = j" if "i < j"
    using prefix_sum_le [of "Suc i" j c keys] prefix_sum_Suc [OF assms(1), of c] that assms by simp
  show "i = j" if "j < i"
    using prefix_sum_le [of "Suc j" i c keys] prefix_sum_Suc [OF assms(2), of c] that assms by simp
qed

lemma prefix_sum_cover:
  fixes c :: "'a \<Rightarrow> nat"
  assumes "p < sum_list (map c keys)"
  shows "\<exists>i < length keys. \<exists>j < c (keys ! i). p = sum_list (map c (take i keys)) + j"
  using assms
proof (induction keys arbitrary: p)
  case (Cons k keys)
  show ?case
  proof (cases "p < c k")
    case True
    then show ?thesis by (intro exI [of _ 0]) auto
  next
    case False
    then have "p - c k < sum_list (map c keys)" using Cons.prems by simp
    then obtain i j where "i < length keys" "j < c (keys ! i)"
      "p - c k = sum_list (map c (take i keys)) + j"
      using Cons.IH [of "p - c k"] by blast
    then show ?thesis using False by (intro exI [of _ "Suc i"]) auto
  qed
qed simp

definition fill_partitions ::
  "int list list \<Rightarrow> int list list \<Rightarrow> index_array_set \<Rightarrow> index_array_set" where
  "fill_partitions rows positions s =
     (let (cells, indices, offsets) = PartitionIndexArraySetGridCellIndexVectors rows
      in s\<lparr>grid_cell_indices := indices, grid_cell_partition_offsets := offsets,
           partitioned_input_indices :=
             GenerateIndexArraySetPartitionedInputIndices rows positions cells\<rparr>)"

lemma fill_partitions_exact:
  fixes s :: index_array_set
  assumes len: "length rows = length positions"
  defines "s' \<equiv> fill_partitions rows positions s"
  shows "sorted_wrt (<) (grid_cell_indices s') \<and> set (grid_cell_indices s') = set rows \<and>
    num_partitions s' = length (grid_cell_indices s') \<and>
    (\<forall>i < num_partitions s'.
       partition_input_indices s' i = group_of (grid_cell_indices s' ! i) (zip rows positions)) \<and>
    set (partitioned_input_indices s') \<subseteq> set positions"
proof -
  let ?keys = "sort_key (\<lambda>i. rows ! i) (first_positions rows)"
  obtain offsets indices cells where
    a: "assign_offsets rows ?keys 0 (count_cells rows) = (offsets, indices, cells)"
    by (cases "assign_offsets rows ?keys 0 (count_cells rows)")
  have "distinct (map (\<lambda>i. rows ! i) ?keys)" "set (map (\<lambda>i. rows ! i) ?keys) = set rows"
    using first_positions_rows [of rows] by (simp_all add: distinct_map)
  moreover note off = assign_offsets_eq [OF a this(1)]
  ultimately have idx: "indices = map (\<lambda>i. rows ! i) ?keys" "distinct indices"
    "set indices = set rows" "length offsets = length indices"
    by auto
  have at: "offsets ! k = sum_list (map (count_cells rows) (take k indices))"
    "cells (indices ! k) = offsets ! k" if "k < length indices" for k
    using off idx(1) that by simp_all
  let ?n = "length indices" and ?ps = "zip rows positions"
  let ?sum = "\<lambda>k. sum_list (map (count_cells rows) (take k indices))"
  have total: "?sum ?n = length rows" using sum_count_cells [OF idx(2,3)] by simp
  have sorted: "sorted_wrt (<) indices"
    using idx(1,2) sorted_sort_key [of "\<lambda>i. rows ! i" "first_positions rows"]
    by (simp add: strict_sorted_iff)
  have key: "\<exists>k < ?n. row = indices ! k" if "group_of row ?ps \<noteq> []" for row
    using group_zip_nonempty [OF len that] idx(3) by (metis in_set_conv_nth)
  have cnt: "length (group_of row ?ps) = count_cells rows row" for row
    by (rule length_group_zip [OF len])
  let ?out = "GenerateIndexArraySetPartitionedInputIndices rows positions cells"
  have fold: "fold write_position ?ps (cells, replicate (length positions) []) =
      (fst (fold write_position ?ps (cells, replicate (length positions) [])), ?out)"
    by (simp add: GenerateIndexArraySetPartitionedInputIndices_def)
  have out: "length ?out = length positions"
    "\<And>k j. j < length (group_of k ?ps) \<Longrightarrow> ?out ! (cells k + j) = group_of k ?ps ! j"
  proof -
    have "length ?out = length (replicate (length positions) ([] :: int list)) \<and>
        (\<forall>k. fst (fold write_position ?ps (cells, replicate (length positions) [])) k =
           cells k + length (group_of k ?ps)) \<and>
        (\<forall>k j. j < length (group_of k ?ps) \<longrightarrow> ?out ! (cells k + j) = group_of k ?ps ! j)"
    proof (rule fold_write_position [OF _ _ fold])
      show "row = row'" if h: "j < length (group_of row ?ps)" "j' < length (group_of row' ?ps)"
        "cells row + j = cells row' + j'" for row row' j j'
      proof -
        obtain k k' where "k < ?n" "row = indices ! k" "k' < ?n" "row' = indices ! k'"
          using key [of row] key [of row'] h(1,2) by fastforce
        then show ?thesis
          using prefix_sum_inj [of k indices k' j "count_cells rows" j'] h
          by (simp add: cnt at)
      qed
      show "cells row + length (group_of row ?ps) \<le> length (replicate (length positions) ([] :: int list))"
        if ne: "group_of row ?ps \<noteq> []" for row
      proof -
        obtain k where "k < ?n" "row = indices ! k" using key [OF ne] by blast
        then show ?thesis
          using prefix_sum_Suc [of k indices "count_cells rows"] total
            prefix_sum_le [of "Suc k" ?n "count_cells rows" indices] len
          by (simp add: at cnt)
      qed
    qed
    then show "length ?out = length positions"
      "\<And>k j. j < length (group_of k ?ps) \<Longrightarrow> ?out ! (cells k + j) = group_of k ?ps ! j" by auto
  qed
  have s': "grid_cell_indices s' = indices" "grid_cell_partition_offsets s' = offsets"
    "partitioned_input_indices s' = ?out"
    by (simp_all add: s'_def fill_partitions_def PartitionIndexArraySetGridCellIndexVectors_def a)
  have part: "partition_input_indices s' i = group_of (indices ! i) ?ps" if i: "i < ?n" for i
  proof -
    let ?e = "if i + 1 = length offsets then length ?out else offsets ! (i + 1)"
    have next_sum: "?sum (Suc i) = offsets ! i + count_cells rows (indices ! i)"
      using prefix_sum_Suc [OF i, of "count_cells rows"] at(1) [OF i] by simp
    have e: "?e = offsets ! i + count_cells rows (indices ! i)"
    proof (cases "i + 1 = length offsets")
      case True
      then have "?sum (Suc i) = length ?out" using total out(1) len idx(4) by simp
      then show ?thesis using True next_sum by simp
    next
      case False
      then have "i + 1 < ?n" using i idx(4) by simp
      then show ?thesis using False next_sum at(1) [of "i + 1"] by simp
    qed
    have le: "offsets ! i + count_cells rows (indices ! i) \<le> length ?out"
      using next_sum total out(1) len prefix_sum_le [of "Suc i" ?n "count_cells rows" indices] i
      by simp
    have "take (count_cells rows (indices ! i)) (drop (offsets ! i) ?out) = group_of (indices ! i) ?ps"
    proof (rule nth_equalityI)
      fix j
      assume "j < length (take (count_cells rows (indices ! i)) (drop (offsets ! i) ?out))"
      then have j: "j < count_cells rows (indices ! i)" by simp
      then have "?out ! (offsets ! i + j) = group_of (indices ! i) ?ps ! j"
        using out(2) [of j "indices ! i"] by (simp add: cnt at(2) [OF i])
      then show "take (count_cells rows (indices ! i)) (drop (offsets ! i) ?out) ! j =
          group_of (indices ! i) ?ps ! j"
        using j le by simp
    qed (use le cnt in simp)
    then show ?thesis unfolding partition_input_indices_def s' Let_def e by simp
  qed
  have "?out ! p \<in> set positions" if p: "p < length ?out" for p
  proof -
    obtain k j where k: "k < ?n" "j < count_cells rows (indices ! k)" "p = offsets ! k + j"
      using prefix_sum_cover [of p "count_cells rows" indices] p total out(1) len at(1) by auto
    then have "?out ! p = group_of (indices ! k) ?ps ! j" "j < length (group_of (indices ! k) ?ps)"
      using out(2) [of j "indices ! k"] at(2) [OF k(1)] by (simp_all add: cnt)
    then have "?out ! p \<in> set (group_of (indices ! k) ?ps)" by simp
    then show ?thesis by (auto simp: group_of_def dest: set_zip_rightD)
  qed
  then have "set ?out \<subseteq> set positions" by (metis in_set_conv_nth subsetI)
  then show ?thesis
    using sorted idx(3,4) part by (simp add: s' num_partitions_def)
qed

section \<open>The grid cells of all positions of a set\<close>

definition input_shape :: "transform_rep \<Rightarrow> int list" where
  "input_shape t = map (\<lambda>d. interval_size (input_domain_at t d)) [0..<input_rank t]"

definition input_origin :: "transform_rep \<Rightarrow> int list" where
  "input_origin t = map (\<lambda>d. inclusive_min (input_domain_at t d)) [0..<input_rank t]"

definition ProductOfIndirectExtents :: "int list \<Rightarrow> nat set \<Rightarrow> int result" where
  "ProductOfIndirectExtents shape dims =
     fold_result (\<lambda>dim num_positions.
         let (overflow, n) = MulOverflow num_positions (shape ! dim)
         in if overflow then Inl InvalidArgument else Inr n)
       (index_view dims) 1"

text \<open>
  The loop \<^verbatim>\<open>for (Index i = start; i != end; i += stride)\<close> with \<^verbatim>\<open>end = start + size * stride\<close>: it runs
  \<open>size\<close> times, or not at all for a zero stride.
\<close>

definition strided_range :: "int \<Rightarrow> int \<Rightarrow> int \<Rightarrow> int list" where
  "strided_range start extent stride =
     (if stride = 0 then [] else map (\<lambda>k. start + int k * stride) [0..<nat extent])"

definition FillWithTiledStridedRange :: "int \<Rightarrow> int \<Rightarrow> int \<Rightarrow> int \<Rightarrow> int \<Rightarrow> int list" where
  "FillWithTiledStridedRange start extent stride outer_count inner_count =
     concat (replicate (nat outer_count)
       (concat (map (\<lambda>i. replicate (nat inner_count) i) (strided_range start extent stride))))"

definition tile_counts :: "int list \<Rightarrow> nat \<Rightarrow> nat list \<Rightarrow> int \<times> int" where
  "tile_counts shape single_input_dim dims =
     fold (\<lambda>input_dim (outer_count, inner_count).
         if input_dim = single_input_dim then (inner_count, 1)
         else (outer_count, inner_count * shape ! input_dim))
       dims (1, 1)"

definition GenerateSingleInputDimensionOutputIndices ::
  "output_index_map \<Rightarrow> nat \<Rightarrow> nat set \<Rightarrow> transform_rep \<Rightarrow> int list result" where
  "GenerateSingleInputDimensionOutputIndices m single_input_dim dims t =
     (let domain = input_domain_at t single_input_dim;
          stride = map_stride m
      in bind_result (GetAffineTransformRange domain (map_offset m) stride) (\<lambda>_.
         let start = map_offset m + stride * inclusive_min domain;
             (outer_count, inner_count) =
               tile_counts (input_shape t) single_input_dim (index_view dims)
         in Inr (FillWithTiledStridedRange start (interval_size domain) stride
                   outer_count inner_count)))"

text \<open>
  The strides of the column, in elements of the column: \<^verbatim>\<open>output_byte_strides\<close> divided by the
  distance of consecutive elements of the column.
\<close>

definition column_strides :: "int list \<Rightarrow> nat list \<Rightarrow> int list \<times> int" where
  "column_strides shape dims =
     fold (\<lambda>input_dim (strides, stride). (strides[input_dim := stride], stride * shape ! input_dim))
       (rev dims) (replicate (length shape) 0, 1)"

definition array_element_at :: "transform_rep \<Rightarrow> index_array_data \<Rightarrow> int list \<Rightarrow> int" where
  "array_element_at t a p =
     AddByteOffset (element_pointer a) (InnerProduct (input_origin t) (byte_strides a))
       (InnerProduct p (byte_strides a))"

definition GenerateIndexArrayOutputIndices ::
  "output_index_map \<Rightarrow> index_array_data \<Rightarrow> nat set \<Rightarrow> transform_rep \<Rightarrow> int \<Rightarrow> int list result" where
  "GenerateIndexArrayOutputIndices m a dims t num_positions =
     (let (strides, _) = column_strides (input_shape t) (index_view dims)
      in bind_result
           (ValidateIndexArrayBounds (index_range a)
              (AddByteOffset (element_pointer a)
                 (InnerProduct (input_origin t) (byte_strides a)))
              (input_shape t) (byte_strides a)) (\<lambda>_.
         Inr (fold (\<lambda>p column. column[nat (sum_list (map2 (*) p strides)) :=
                      wrap_Add (wrap_Multiply (array_element_at t a p) (map_stride m))
                        (map_offset m)])
                (index_positions (input_shape t)) (replicate (nat num_positions) 0))))"

definition generate_column ::
  "nat set \<Rightarrow> nat list \<Rightarrow> output_to_grid_cell \<Rightarrow> transform_rep \<Rightarrow> int \<Rightarrow> nat \<Rightarrow> int list result"
where
  "generate_column dims grid_output_dimensions output_to_grid_cell t num_positions grid_dim =
     (let m = grid_map t grid_output_dimensions grid_dim
      in bind_result
           (case map_method m of
              Method_single_input_dimension d \<Rightarrow>
                GenerateSingleInputDimensionOutputIndices m d dims t
            | Method_array a \<Rightarrow> GenerateIndexArrayOutputIndices m a dims t num_positions
            | Method_constant \<Rightarrow> Inl CheckFailure)
           (\<lambda>column. Inr (map (\<lambda>v. fst (output_to_grid_cell grid_dim v)) column)))"

definition GenerateIndexArraySetGridCellIndices ::
  "nat set \<Rightarrow> nat set \<Rightarrow> nat list \<Rightarrow> output_to_grid_cell \<Rightarrow> transform_rep \<Rightarrow> int \<Rightarrow>
   int list list result" where
  "GenerateIndexArraySetGridCellIndices grid_dims dims grid_output_dimensions
       output_to_grid_cell t num_positions =
     bind_result
       (map_result (generate_column dims grid_output_dimensions output_to_grid_cell t num_positions)
          (index_view grid_dims))
       (\<lambda>columns. Inr (map (\<lambda>k. map (\<lambda>column. column ! k) columns) [0..<nat num_positions]))"

definition partial_positions :: "transform_rep \<Rightarrow> nat set \<Rightarrow> int list list" where
  "partial_positions t dims =
     map (map2 (+) (map (\<lambda>d. input_origin t ! d) (index_view dims)))
       (index_positions (map (\<lambda>d. input_shape t ! d) (index_view dims)))"

definition FillIndexArraySetData ::
  "index_array_set \<Rightarrow> nat list \<Rightarrow> output_to_grid_cell \<Rightarrow> transform_rep \<Rightarrow>
   index_array_set result" where
  "FillIndexArraySetData s grid_output_dimensions output_to_grid_cell t =
     bind_result (ProductOfIndirectExtents (input_shape t) (ias_input_dimensions s))
       (\<lambda>num_positions.
         if num_positions = 0 then Inr s
         else bind_result
           (GenerateIndexArraySetGridCellIndices (ias_grid_dimensions s) (ias_input_dimensions s)
              grid_output_dimensions output_to_grid_cell t num_positions)
           (\<lambda>temp_cell_indices.
              Inr (fill_partitions temp_cell_indices
                     (partial_positions t (ias_input_dimensions s)) s)))"

section \<open>Row-major positions\<close>

fun row_major :: "int list \<Rightarrow> int list \<Rightarrow> int" where
  "row_major (s # shape) (p # pos) = p * prod_list shape + row_major shape pos"
| "row_major _ _ = 0"

lemma length_index_positions:
  "\<forall>s \<in> set shape. 0 \<le> s \<Longrightarrow> int (length (index_positions shape)) = prod_list shape"
  by (induction shape) (simp_all add: length_concat o_def sum_list_triv)

lemma nth_concat_uniform:
  assumes "\<forall>ys \<in> set yss. length ys = n" "i < length yss" "j < n"
  shows "i * n + j < length (concat yss)" "concat yss ! (i * n + j) = yss ! i ! j"
  using assms
proof (induction yss arbitrary: i)
  case (Cons ys yss)
  { case 1
    then show ?case using Cons.IH(1) [of "i - 1"] by (cases i) auto
  next
    case 2
    then show ?case using Cons.IH(2) [of "i - 1"] by (cases i) (auto simp: nth_append)
  }
qed simp_all

lemma row_major_nth:
  assumes "in_shape shape q"
  shows "0 \<le> row_major shape q \<and> row_major shape q < prod_list shape \<and>
    index_positions shape ! nat (row_major shape q) = q"
  using assms
proof (induction shape q rule: in_shape.induct)
  case (1 s shape p pos)
  let ?n = "length (index_positions shape)"
  have p: "0 \<le> p" "p < s" and pos: "in_shape shape pos" using "1.prems" by auto
  have nn: "\<forall>s \<in> set shape. 0 \<le> s"
    using pos by (induction shape pos rule: in_shape.induct) auto
  have n: "int ?n = prod_list shape" by (rule length_index_positions [OF nn])
  have ih: "0 \<le> row_major shape pos" "row_major shape pos < prod_list shape"
    "index_positions shape ! nat (row_major shape pos) = pos"
    using "1.IH" [OF pos] by auto
  have lt: "p * prod_list shape + row_major shape pos < s * prod_list shape"
    using ih(1,2) p mult_right_mono [of "p + 1" s "prod_list shape"] by (simp add: algebra_simps)
  let ?yss = "map (\<lambda>i. map ((#) i) (index_positions shape)) (map int [0..<nat s])"
  have idx: "nat (row_major (s # shape) (p # pos)) = nat p * ?n + nat (row_major shape pos)"
    using ih(1) p by (simp add: nat_add_distrib nat_mult_distrib flip: n)
  have j: "nat (row_major shape pos) < ?n" using ih(1,2) n by linarith
  have "concat ?yss ! (nat p * ?n + nat (row_major shape pos)) =
      ?yss ! nat p ! nat (row_major shape pos)"
    by (rule nth_concat_uniform(2)) (use p j in auto)
  then have "index_positions (s # shape) ! nat (row_major (s # shape) (p # pos)) = p # pos"
    unfolding idx index_positions.simps using ih(3) p j by simp
  then show ?case using lt ih(1,2) p by simp
qed auto

end
