(* ===== verification/Index_Array_Cells.thy ===== *)
theory Index_Array_Cells
  imports Index_Array_Sets
begin

text \<open>
  Correctness of the precomputed partitions: the columns of \<^verbatim>\<open>temp_cell_indices\<close> hold the grid
  cell of every partial position of the set, and \<^verbatim>\<open>FillIndexArraySetData\<close> groups the partial
  positions by their grid cells.
\<close>

section \<open>Columns of single input dimensions\<close>













section \<open>Columns of index arrays\<close>








section \<open>The rows of the temporary array\<close>









section \<open>The partitions of an index array set\<close>












section \<open>Looking up a partition\<close>








section \<open>Properties\<close>









end
