(* ===== verification/Spec2Isabelle.thy ===== *)
theory Spec2Isabelle
  imports Operation_Properties Outer_Index_Slice Admission_Queue File_Read Memory_Store
    Index_Array_Cells
begin

text \<open>
  A verification development for the core of TensorStore (\<^verbatim>\<open>src/tensorstore\<close>): 64-bit index
  arithmetic, intervals and boxes, index transforms, their composition and inverse, the operations
  of dimension expressions, and from the key-value store layer key ranges, storage generations,
  byte range requests, the coalescing of batched reads, the reads of the file store and the memory store.

  \<^bold>\<open>The program.\<close> TensorStore gives uniform access to chunked arrays. Everything a driver reads or
  writes is addressed through an \<^emph>\<open>index transform\<close> from an input domain (one interval per
  dimension, each bound explicit or implicit, with a label) to output indices: every output
  dimension is a constant, an affine function of one input dimension, or an affine function of an
  element of an index array. Users build transforms with dimension expressions (slices,
  translations, transpositions, diagonals, new dimensions, labels); the library composes them, propagates bounds
  through them and inverts them.

  \<^bold>\<open>Model.\<close> \<^verbatim>\<open>Index\<close> values are \<open>int\<close> with the wrap-around, the overflow checks and the special values
  of \<^verbatim>\<open>index.h\<close> written out. Errors are values of the sum type \<open>error + 'a\<close>, one constructor per
  status code the code uses (and \<open>NullDereference\<close> for a read through a null pointer).
  Reference counted representations have value semantics; where the code updates in place when
  it holds the only reference, both branches are modelled and proved equal. An index array is its
  element pointer, a function from byte offsets to values, with byte strides.

  \<^bold>\<open>Theories.\<close>
  \<^item> \<open>Prelude\<close>: the result type, its bind and traversal, lists and euclidean division.
  \<^item> \<open>Index_Arithmetic\<close>: \<^verbatim>\<open>index.h\<close>, \<^verbatim>\<open>internal/integer_overflow.h\<close>, \<^verbatim>\<open>util/division.h\<close>. Congruence
    modulo \<open>2 ^ 64\<close> (\<open>weq\<close>) carries the proofs about pointer offsets.
  \<^item> \<open>Index_Interval\<close>, \<open>Interval_Properties\<close>, \<open>Strided_Slice\<close>: \<^verbatim>\<open>index_interval.h\<close> and
    \<^verbatim>\<open>index_interval.cc\<close>; intersection and hull as lattice operations, shifts, the exact preimage
    and image of intervals under affine maps, strided slices.
  \<^item> \<open>Box_Space\<close>: \<^verbatim>\<open>box.h\<close>, \<^verbatim>\<open>util/extents.h\<close> and \<^verbatim>\<open>internal/box_difference.cc\<close>.
  \<^item> \<open>Grid_Cells\<close>: \<^verbatim>\<open>internal/regular_grid.h\<close>, \<^verbatim>\<open>internal/irregular_grid.cc\<close>; the contract of a grid is a
    locale with two interpretations.
  \<^item> \<open>Strided_Partition\<close>, \<open>Connected_Sets\<close>, \<open>Index_Array_Sets\<close>, \<open>Index_Array_Cells\<close>: the partition of an
    index transform by a grid, \<^verbatim>\<open>internal/grid_partition_impl.cc\<close> and \<^verbatim>\<open>internal/grid_partition.cc\<close>: the
    iteration over the cells of one input dimension, the connected sets of dimensions, and the
    precomputed partitions of the sets with index arrays.
  \<^item> \<open>Contiguous_Layout\<close>: \<^verbatim>\<open>contiguous_layout.cc\<close>, \<^verbatim>\<open>strided_layout.cc\<close>: permutations and strides.
  \<^item> \<open>Transform_Rep\<close>: \<^verbatim>\<open>transform_rep.cc\<close>, \<^verbatim>\<open>identity_transform.cc\<close>; the representation, its
    invariant \<open>DebugCheckInvariants\<close> and evaluation \<open>TransformIndices\<close>.
  \<^item> \<open>Propagate_Bounds\<close>, \<open>Transform_Array\<close>, \<open>Compose_Transforms\<close>, \<open>Inverse_Transform\<close>: the files of
    these names under \<^verbatim>\<open>index_space/internal\<close> (with \<^verbatim>\<open>iterate.cc\<close> and \<^verbatim>\<open>iterate_impl.h\<close>).
  \<^item> \<open>Index_Operation\<close>: the contract of an operation on dimensions, a locale: the new transform reads
    the old one through a function from new to old positions, and keeps the invariant.
  \<^item> \<open>Translate_Op\<close>, \<open>Transpose_Op\<close>, \<open>Slice_Ops\<close>, \<open>Interval_Slice\<close>, \<open>Renumber_Ops\<close> (diagonals and
    new dimensions), \<open>Label_Ops\<close> (labels and implicit bits): the operations of
    \<^verbatim>\<open>index_space/internal/*_op.cc\<close>; each interprets the contract.
  \<^item> \<open>Dimension_Selection\<close>: \<^verbatim>\<open>dimension_identifier.cc\<close>, \<^verbatim>\<open>dimension_selection.cc\<close>.
  \<^item> \<open>Dim_Expression\<close>: \<^verbatim>\<open>dim_expression_helper.h\<close>; one contract for all operations, and for chains of
    them. \<open>Operation_Properties\<close> states the properties of the operations.
  \<^item> \<open>Index_Array_Slice\<close>, \<open>Outer_Index_Slice\<close>: \<^verbatim>\<open>index_array_slice_op.cc\<close>; the contract of the transforms
    that the slices compose with is a locale with three interpretations.
  \<^item> \<open>Intrusive_List\<close>, \<open>Admission_Queue\<close>: \<^verbatim>\<open>internal/container/intrusive_linked_list.h\<close> on an explicit
    store of pointers, and \<^verbatim>\<open>internal/rate_limiter/admission_queue.cc\<close> as a step relation over the
    sections that hold the mutex.
  \<^item> \<open>Bytes\<close>, \<open>Generation\<close>: byte strings with \<^verbatim>\<open>util/endian.h\<close>, and \<^verbatim>\<open>kvstore/generation.cc\<close>; the encoding
    of storage generations refines a stack of mutations over a base generation.
  \<^item> \<open>Byte_Range\<close>: \<^verbatim>\<open>kvstore/byte_range.cc\<close>, \<^verbatim>\<open>batch_util.h\<close> and \<^verbatim>\<open>generic_coalescing_batch_util.h\<close>; requests
    for ranges of bytes and the coalescing of the requests of a batch into fewer reads.
  \<^item> \<open>File_Read\<close>: the batch read task of \<^verbatim>\<open>kvstore/file/file_key_value_store.cc\<close> with \<^verbatim>\<open>file/util.cc\<close>, over
    parameters for the system calls.
  \<^item> \<open>Memory_Store\<close>: \<^verbatim>\<open>kvstore/memory/memory_key_value_store.cc\<close>, with the commit of atomic transactions. What a
    store with a path relies on is a locale that the memory driver interprets.
  \<^item> \<open>Key_Range\<close>: \<^verbatim>\<open>kvstore/key_range.cc\<close>, ranges of byte strings and the sets of keys they stand for.

  \<^bold>\<open>What is shown.\<close> Composition evaluates like the two transforms in sequence and has the exact
  preimage as its domain; inverses undo the transform; dimension expressions evaluate as documented
  and keep the invariant; slices by index arrays evaluate as documented; the interval and box
  algebra is exact; layouts enumerate arrays without gaps. The admission queue never exceeds its limit, and
  starts every operation in order of admission. Key ranges compute with sets of keys, storage
  generations with stacks of mutations, and mutation identifiers are never allocated twice. A batch of reads of a
  file returns what the single reads return, in every I/O mode, and retries end. The memory store is a map with conditional
  writes, generations that are never reused and atomic commits.
  The boundary behaviour that contradicts this (implicit bounds of empty or disjoint
  intervals, null pointers of empty index arrays) is stated in theorems of its own.

  \<^bold>\<open>Fuel and termination.\<close> No model uses fuel: the loops are structural recursions over the
  dimensions, or have a termination proof.

  \<^bold>\<open>Not modelled.\<close> Storage drivers, the key-value store back ends other than the reads of the file store
  and the memory store, and caches are asynchronous I/O; codecs and data type conversions wrap third-party libraries; bindings, JSON
  binding, registries and serialization are plumbing. Within the modelled files printing,
  hashing and reference counting are left out.
\<close>

section \<open>Concrete transforms for the examples\<close>

definition ex_dim :: "int \<Rightarrow> int \<Rightarrow> index_domain_dimension" where
  "ex_dim origin n = explicit_dim (mk_interval origin n)"

definition ex_single :: "nat \<Rightarrow> int \<Rightarrow> int \<Rightarrow> output_index_map" where
  "ex_single d off s = \<lparr>map_method = Method_single_input_dimension d, map_offset = off, map_stride = s\<rparr>"

definition ex_array :: "index_array_data" where
  "ex_array = \<lparr>element_pointer = (\<lambda>p. p * p), index_range = Infinite, byte_strides = [8]\<rparr>"

definition ex_a_to_b :: transform_rep where
  "ex_a_to_b = \<lparr>input_dims = [ex_dim 0 10], output_index_maps = [ex_single 0 3 2]\<rparr>"

definition ex_b_to_c :: transform_rep where
  "ex_b_to_c = \<lparr>input_dims = [ex_dim 0 100],
     output_index_maps = [ex_single 0 1 (- 1),
       \<lparr>map_method = Method_array ex_array, map_offset = 5, map_stride = 1\<rparr>]\<rparr>"

definition ex_a_to_c :: transform_rep where
  "ex_a_to_c = (case ComposeTransforms ex_b_to_c ex_a_to_b False of Inr c \<Rightarrow> c | Inl _ \<Rightarrow> ex_a_to_b)"

lemma ex_compose: "ComposeTransforms ex_b_to_c ex_a_to_b False = Inr ex_a_to_c"
proof -
  have "isl (ComposeTransforms ex_b_to_c ex_a_to_b False) = False" by code_simp
  then show ?thesis by (auto simp: ex_a_to_c_def split: sum.splits)
qed

section \<open>Properties\<close>

text \<open>C1: composing two index transforms composes the functions they compute. Whenever
  \<^verbatim>\<open>ComposeTransforms\<close> succeeds and \<open>x\<close> is an input of \<open>a_to_b\<close> whose image \<open>y\<close> is computed without
  overflow and lies in the domain of \<open>b_to_c\<close>, evaluating the composed transform at \<open>x\<close> gives what
  \<open>b_to_c\<close> gives at \<open>y\<close>, be it a position or an error. The bounds of \<open>b_to_c\<close> are explicit
  or unbounded.\<close>

theorem compose_transforms_correct:
  assumes "ComposeTransforms b_to_c a_to_b False = Inr a_to_c"
    and "DebugCheckInvariants b_to_c" "DebugCheckInvariants a_to_b" "plain_dims b_to_c"
    and "length x = input_rank a_to_b" "exact_at a_to_b x"
    and "TransformIndices a_to_b x = Inr y" "in_domain b_to_c y"
  shows "TransformIndices a_to_c x = TransformIndices b_to_c y"
  using assms by (rule ComposeTransforms_apply)

theorem compose_transforms_correct_witness:
  "TransformIndices ex_a_to_c [2] = Inr [- 6, 3141]"
proof -
  have "TransformIndices ex_a_to_c [2] = TransformIndices ex_b_to_c [7]"
    by (rule compose_transforms_correct [OF ex_compose]; code_simp)
  moreover have "TransformIndices ex_b_to_c [7] = Inr [- 6, 3141]" by code_simp
  ultimately show ?thesis by simp
qed




text \<open>C6: when \<^verbatim>\<open>InverseTransform\<close> succeeds, the two transforms are inverse to each other on
  finite positions: \<open>t\<close> maps \<open>x\<close> to \<open>y\<close> exactly when the inverse maps \<open>y\<close> to \<open>x\<close>.\<close>

theorem inverse_transform_correct:
  assumes "InverseTransform t = Inr u"
    and "DebugCheckInvariants t" "nonempty_dims t" "int64_offsets t"
    and "length x = input_rank t" "finite_vec x" "length y = output_rank t" "finite_vec y"
  shows "TransformIndices t x = Inr y \<longleftrightarrow> TransformIndices u y = Inr x"
  using assms by (rule InverseTransform_inverse)

definition ex_invertible :: transform_rep where
  "ex_invertible = \<lparr>input_dims = [ex_dim 0 10, ex_dim 5 1],
     output_index_maps = [constant_map 42, ex_single 0 7 (- 1)]\<rparr>"

definition ex_inverse :: transform_rep where
  "ex_inverse = (case InverseTransform ex_invertible of Inr c \<Rightarrow> c | Inl _ \<Rightarrow> ex_invertible)"

lemma ex_inverse_eq: "InverseTransform ex_invertible = Inr ex_inverse"
proof -
  have "isl (InverseTransform ex_invertible) = False" by code_simp
  then show ?thesis by (auto simp: ex_inverse_def split: sum.splits)
qed

theorem inverse_transform_correct_witness:
  "TransformIndices ex_inverse [42, 4] = Inr [3, 5]"
proof -
  have "TransformIndices ex_invertible [3, 5] = Inr [42, 4] \<longleftrightarrow>
      TransformIndices ex_inverse [42, 4] = Inr [3, 5]"
    by (rule inverse_transform_correct [OF ex_inverse_eq]; code_simp)
  moreover have "TransformIndices ex_invertible [3, 5] = Inr [42, 4]" by code_simp
  ultimately show ?thesis by simp
qed

text \<open>C7: \<^verbatim>\<open>TransformArraySubRegion\<close> returns a strided array that holds, at every position of the
  requested region, the element of the source array that the transform selects there, whether
  the result is a view of the source or a freshly allocated copy; the result only varies along
  dimensions the selected element depends on.\<close>

theorem transform_array_sub_region_correct:
  assumes "TransformArraySubRegion arr (Some t) origin shape = Inr (Some ptr, strides)"
    and "view_fits arr t" "length origin = input_rank t" "length shape = input_rank t"
    and "\<forall>s \<in> set shape. 0 \<le> s" "in_shape shape p"
  shows "ptr (InnerProduct p strides) =
      av_pointer arr (InnerProduct (output_values t (map2 (+) origin p)) (av_byte_strides arr)) \<and>
    (\<forall>d < input_rank t. strides ! d \<noteq> 0 \<longrightarrow> region_dim arr t d)"
proof -
  have p: "length p = input_rank t" and "\<forall>d < input_rank t. 0 \<le> p ! d \<and> p ! d < shape ! d"
    using assms(4,6) by (auto simp: in_shape_iff list_all2_conv_all_nth)
  then show ?thesis
    using TransformArraySubRegion_correct [OF assms(1,2) refl assms(3-5) p]
    by blast
qed

definition ex_view :: array_view where
  "ex_view = \<lparr>av_pointer = (\<lambda>p. 100 + p), av_domain = [mk_interval 0 100], av_byte_strides = [8]\<rparr>"

theorem transform_array_sub_region_correct_witness:
  "\<exists>ptr strides. TransformArraySubRegion ex_view (Some ex_a_to_b) [2] [3] = Inr (Some ptr, strides) \<and>
     ptr (InnerProduct [1] strides) = 172"
proof -
  have "case TransformArraySubRegion ex_view (Some ex_a_to_b) [2] [3] of
      Inr (Some _, _) \<Rightarrow> True | _ \<Rightarrow> False" by code_simp
  then obtain ptr strides
    where r: "TransformArraySubRegion ex_view (Some ex_a_to_b) [2] [3] = Inr (Some ptr, strides)"
    by (auto split: sum.splits prod.splits option.splits)
  have "ptr (InnerProduct [1] strides) =
      av_pointer ex_view (InnerProduct (output_values ex_a_to_b (map2 (+) [2] [1])) (av_byte_strides ex_view)) \<and>
    (\<forall>d < input_rank ex_a_to_b. strides ! d \<noteq> 0 \<longrightarrow> region_dim ex_view ex_a_to_b d)"
    by (rule transform_array_sub_region_correct [OF r]; code_simp)
  moreover have "av_pointer ex_view
      (InnerProduct (output_values ex_a_to_b (map2 (+) [2] [1])) (av_byte_strides ex_view)) = 172"
    by code_simp
  ultimately show ?thesis using r by auto
qed

lemma map_uses_code [code]:
  "map_uses m d \<longleftrightarrow>
     (case map_method m of Method_single_input_dimension e \<Rightarrow> e = d \<and> map_stride m \<noteq> 0 | _ \<Rightarrow> False)"
  by (auto simp: map_uses_def split: output_index_method.splits)



text \<open>C9: the sub-boxes of a box difference partition it: a position is in \<open>outer\<close> and not in
  \<open>inner\<close> exactly when it is in one, and then only one, of the sub-boxes numbered
  \<open>0, \<dots>, num_sub_boxes - 1\<close>.\<close>

theorem box_difference_partition:
  assumes "valid_box outer" "valid_box inner" "box_rank outer = box_rank inner"
  shows "(\<exists>!k. 0 \<le> k \<and> k < GetNumSubtractionSubBoxes outer inner \<and>
            box_Contains (GetSubBox outer inner k) x) \<longleftrightarrow>
         box_Contains outer x \<and> \<not> box_Contains inner x"
  using assms by (rule GetSubBox_partition_unique)

theorem box_difference_partition_witness:
  "\<exists>!k. 0 \<le> k \<and> k < GetNumSubtractionSubBoxes \<lparr>box_origin = [0, 0], box_shape = [9, 9]\<rparr>
            \<lparr>box_origin = [3, 2], box_shape = [2, 20]\<rparr> \<and>
        box_Contains (GetSubBox \<lparr>box_origin = [0, 0], box_shape = [9, 9]\<rparr>
            \<lparr>box_origin = [3, 2], box_shape = [2, 20]\<rparr> k) [3, 1]"
proof -
  let ?o = "\<lparr>box_origin = [0, 0], box_shape = [9, 9]\<rparr>"
  let ?i = "\<lparr>box_origin = [3, 2], box_shape = [2, 20]\<rparr>"
  have "valid_box ?o" "valid_box ?i" "box_rank ?o = box_rank ?i" by code_simp+
  note box_difference_partition [OF this, of "[3, 1]"]
  moreover have "box_Contains ?o [3, 1]" "\<not> box_Contains ?i [3, 1]" by code_simp+
  ultimately show ?thesis by blast
qed


text \<open>The strided slice that \<^verbatim>\<open>ComputeStridedSliceMap\<close> computes is a valid interval at the
  requested origin, and each of its indices \<open>j\<close> addresses, as \<open>offset + stride * j\<close>, an index of
  the domain that is sliced.\<close>

lemma strided_slice_inside:
  assumes "valid_interval (interval orig)"
    and "ComputeStridedSliceMap orig form origin start stop_or_size stride = Inr (d, off)"
  shows "valid_interval (interval d) \<and>
    (origin \<noteq> kImplicit \<longrightarrow> inclusive_min (interval d) = origin) \<and>
    (\<forall>j. in_bounds (interval d) j \<longrightarrow> in_bounds (effective_interval orig) (off + stride * j))"
  using assms by (rule ComputeStridedSliceMap_correct)

lemma strided_slice_inside_example:
  "in_bounds (effective_interval (explicit_oi (mk_interval 10 20))) (27 + (- 4) * 3)"
proof -
  let ?orig = "explicit_oi (mk_interval 10 20)"
  have v: "valid_interval (interval ?orig)" by code_simp
  have r: "ComputeStridedSliceMap ?orig HalfOpen_form 0 27 12 (- 4) =
      Inr (explicit_oi (UncheckedSized 0 4), 27)" by code_simp
  have "in_bounds (interval (explicit_oi (UncheckedSized 0 4))) 3" by code_simp
  then show ?thesis using strided_slice_inside [OF v r] by blast
qed

text \<open>\<^verbatim>\<open>GetAffineTransformDomain\<close> computes the exact preimage of a non-empty interval under
  \<open>x \<mapsto> offset + divisor * x\<close>, for divisors of either sign and infinite bounds.\<close>

lemma affine_domain_preimage:
  assumes "valid_interval i" "\<not> empty_interval i" "GetAffineTransformDomain i off dv = Inr d"
  shows "valid_interval d \<and> (\<forall>x. in_bounds d x \<longleftrightarrow> in_bounds i (off + dv * x))"
  using assms by (rule GetAffineTransformDomain_nonempty)

lemma affine_domain_preimage_example:
  "\<forall>x. in_bounds (UncheckedClosed (- 3) 1) x \<longleftrightarrow> in_bounds (UncheckedClosed 0 13) (4 + (- 3) * x)"
proof -
  have "valid_interval (UncheckedClosed 0 13)" "\<not> empty_interval (UncheckedClosed 0 13)"
    "GetAffineTransformDomain (UncheckedClosed 0 13) 4 (- 3) = Inr (UncheckedClosed (- 3) 1)"
    by code_simp+
  from affine_domain_preimage [OF this] show ?thesis by blast
qed

text \<open>C10: \<^verbatim>\<open>GetAffineTransformRange\<close> computes a valid interval that contains the image of an index
  exactly when the original interval contains the index, and \<^verbatim>\<open>GetAffineTransformDomain\<close> takes
  it back to the original interval.\<close>

theorem affine_range_round_trip:
  assumes "valid_interval i" "\<not> empty_interval i" "m \<noteq> 0" "m \<noteq> index_min" "IsFiniteIndex off"
    and "GetAffineTransformRange i off m = Inr r"
  shows "valid_interval r \<and> (\<forall>x. in_bounds r (off + m * x) \<longleftrightarrow> in_bounds i x) \<and>
    GetAffineTransformDomain r off m = Inr i"
  using GetAffineTransformRange_nonempty [OF assms(1-3,6)]
    GetAffineTransformDomain_Range [OF assms] by blast

theorem affine_range_round_trip_witness:
  "GetAffineTransformDomain (UncheckedClosed 1 13) 4 (- 3) = Inr (UncheckedClosed (- 3) 1)"
proof -
  have "valid_interval (UncheckedClosed (- 3) 1)" "\<not> empty_interval (UncheckedClosed (- 3) 1)"
    "(- 3 :: int) \<noteq> 0" "- 3 \<noteq> index_min" "IsFiniteIndex 4"
    "GetAffineTransformRange (UncheckedClosed (- 3) 1) 4 (- 3) = Inr (UncheckedClosed 1 13)"
    by code_simp+
  from affine_range_round_trip [OF this] show ?thesis by blast
qed

text \<open>\<^verbatim>\<open>GetAffineTransformInverseDomain\<close> contains an index exactly when the given interval
  contains its quotient rounded towards minus infinity; its documentation says the division
  rounds towards zero.\<close>

lemma affine_inverse_domain_floor:
  assumes "valid_interval i" "\<not> empty_interval i" "dv \<noteq> 0"
    and "GetAffineTransformInverseDomain i off dv = Inr d"
  shows "in_bounds d x \<longleftrightarrow> in_bounds i ((x - off) div dv)"
  using GetAffineTransformInverseDomain_nonempty [OF assms] assms(3) by (simp add: FloorOfRatio_eq)

lemma affine_inverse_domain_floor_example:
  "in_bounds (UncheckedSized (- 1) 15) (- 1) \<longleftrightarrow> in_bounds (UncheckedClosed (- 3) 1) ((- 1 - 4) div (- 3))"
proof -
  have "valid_interval (UncheckedClosed (- 3) 1)" "\<not> empty_interval (UncheckedClosed (- 3) 1)"
    "(- 3 :: int) \<noteq> 0"
    "GetAffineTransformInverseDomain (UncheckedClosed (- 3) 1) 4 (- 3) = Inr (UncheckedSized (- 1) 15)"
    by code_simp+
  from affine_inverse_domain_floor [OF this] show ?thesis .
qed

text \<open>The intersection of two intervals is valid and contains exactly the common indices; the
  hull contains both intervals and is contained in every interval that does.\<close>

lemma intersect_hull_lattice:
  assumes "valid_interval a" "valid_interval b"
  shows "valid_interval (Intersect a b) \<and>
    interval_indices (Intersect a b) = interval_indices a \<inter> interval_indices b \<and>
    valid_interval (Hull a b) \<and> Contains_interval (Hull a b) a \<and> Contains_interval (Hull a b) b \<and>
    (\<forall>c. Contains_interval c a \<and> Contains_interval c b \<longrightarrow> Contains_interval c (Hull a b))"
  using valid_Intersect [OF assms] Intersect_indices [OF assms] valid_Hull [OF assms]
    Hull_upper [OF assms] Hull_least [OF assms] by simp

lemma intersect_hull_lattice_example:
  "interval_indices (Intersect (UncheckedClosed 2 9) (UncheckedClosed (- kInfIndex) 4)) =
     interval_indices (UncheckedClosed 2 9) \<inter> interval_indices (UncheckedClosed (- kInfIndex) 4)"
proof -
  have "valid_interval (UncheckedClosed 2 9)" "valid_interval (UncheckedClosed (- kInfIndex) 4)"
    by code_simp+
  from intersect_hull_lattice [OF this] show ?thesis by blast
qed

text \<open>Shifting an interval succeeds exactly when the finite bounds stay finite, gives a valid
  interval with the shifted indices, and shifting backward by the same offset restores it.\<close>

lemma shift_interval_round_trip:
  assumes "valid_interval i" "in_int64 d" "ShiftInterval i d = Inr j"
  shows "valid_interval j \<and> (\<forall>x. in_bounds j (x + d) \<longleftrightarrow> in_bounds i x) \<and>
    ShiftIntervalBackward j d = Inr i"
  using valid_ShiftInterval [OF assms(1,3)] ShiftInterval_in_bounds [OF assms(1,3)]
    ShiftInterval_Backward_inverse [OF assms] by blast

lemma shift_interval_round_trip_example:
  "ShiftIntervalBackward (UncheckedClosed (- 2) kInfIndex) (- 7) = Inr (UncheckedClosed 5 kInfIndex)"
proof -
  have "valid_interval (UncheckedClosed 5 kInfIndex)" "in_int64 (- 7)"
    "ShiftInterval (UncheckedClosed 5 kInfIndex) (- 7) = Inr (UncheckedClosed (- 2) kInfIndex)"
    by code_simp+
  from shift_interval_round_trip [OF this] show ?thesis by blast
qed


text \<open>C11: the saturating product of extents is zero if some extent is zero, even after an
  intermediate overflow, and the product clamped to the largest \<^verbatim>\<open>Index\<close> otherwise.\<close>

theorem product_of_extents_saturates:
  assumes "\<forall>x \<in> set xs. 0 \<le> x"
  shows "ProductOfExtents xs = (if 0 \<in> set xs then 0 else min index_max (prod_list xs))"
  using assms by (rule ProductOfExtents_eq)

theorem product_of_extents_saturates_witness:
  "ProductOfExtents [2 ^ 40, 2 ^ 40, 0] = 0 \<and> ProductOfExtents [2 ^ 40, 2 ^ 40] = index_max"
proof -
  have "\<forall>x \<in> set [2 ^ 40, 2 ^ 40, 0 :: int]. 0 \<le> x" "\<forall>x \<in> set [2 ^ 40, 2 ^ 40 :: int]. 0 \<le> x"
    by simp_all
  from product_of_extents_saturates [OF this(1)] product_of_extents_saturates [OF this(2)]
  show ?thesis by (simp add: index_consts)
qed

text \<open>\<^verbatim>\<open>IsValidPermutation\<close> accepts exactly the arrangements of \<open>0, \<dots>, n - 1\<close> with
  \<open>n \<le> 32\<close>.\<close>

lemma is_valid_permutation_exact:
  "IsValidPermutation p \<longleftrightarrow> length p \<le> 32 \<and> distinct p \<and> set p = {0..<int (length p)}"
  by (rule IsValidPermutation_iff)

text \<open>\<^verbatim>\<open>InvertPermutation\<close> computes the two-sided inverse, again a permutation.\<close>

lemma invert_permutation_inverse:
  assumes "is_perm p" "k < length p"
  shows "InvertPermutation p ! (p ! k) = k \<and> p ! (InvertPermutation p ! k) = k \<and>
    is_perm (InvertPermutation p)"
  using assms InvertPermutation_left InvertPermutation_right is_perm_InvertPermutation by blast

lemma invert_permutation_inverse_example:
  "InvertPermutation [2, 0, 1] ! ([2, 0, 1] ! 0) = 0 \<and> [2, 0, 1 :: nat] ! (InvertPermutation [2, 0, 1] ! 0) = 0 \<and>
     is_perm (InvertPermutation [2, 0, 1])"
proof -
  have "is_perm [2, 0, 1]" "0 < length [2, 0, 1 :: nat]" by code_simp+
  then show ?thesis by (rule invert_permutation_inverse)
qed

text \<open>C26: the strides of a contiguous layout address the elements of an array one after the other,
  without gaps or overlaps: the byte offset of a position is the element size times its rank in
  the C or Fortran order, which is injective and fills the allocation.\<close>

theorem compute_strides_enumerate:
  assumes "in_shape shape pos" "0 < e" "e * prod_list shape \<le> index_max"
  shows "InnerProduct pos (ComputeStrides order e shape) = e * linear_position order shape pos \<and>
    0 \<le> linear_position order shape pos \<and> linear_position order shape pos < prod_list shape \<and>
    (\<forall>pos'. in_shape shape pos' \<and>
       InnerProduct pos' (ComputeStrides order e shape) = InnerProduct pos (ComputeStrides order e shape)
       \<longrightarrow> pos' = pos)"
proof -
  have "pos' = pos" if "in_shape shape pos'"
    "InnerProduct pos' (ComputeStrides order e shape) = InnerProduct pos (ComputeStrides order e shape)" for pos'
    using that linear_position_inj [OF that(1) assms(1)] ComputeStrides_InnerProduct(1) [OF that(1) assms(2,3)]
      ComputeStrides_InnerProduct(1) [OF assms] assms(2) by auto
  then show ?thesis
    using ComputeStrides_InnerProduct(1) [OF assms] linear_position_bounds [OF assms(1)] by blast
qed

theorem compute_strides_enumerate_witness:
  "InnerProduct [1, 2] (ComputeStrides c_order 8 [3, 4]) = 8 * linear_position c_order [3, 4] [1, 2]"
proof -
  have "in_shape [3, 4] [1, 2]" "(0::int) < 8" "8 * prod_list [3, 4] \<le> index_max" by code_simp+
  from compute_strides_enumerate [OF this] show ?thesis by blast
qed

text \<open>On shapes without zero extents, \<^verbatim>\<open>IsContiguousLayout\<close> recognises exactly the strides
  that \<^verbatim>\<open>ComputeStrides\<close> assigns.\<close>

lemma is_contiguous_layout_exact:
  assumes "length shape = length strides" "0 < e" "\<forall>s \<in> set shape. 1 \<le> s"
    and "e * prod_list shape \<le> index_max"
  shows "IsContiguousLayout shape strides order e \<longleftrightarrow> strides = ComputeStrides order e shape"
  using assms by (rule IsContiguousLayout_iff)

lemma is_contiguous_layout_exact_example:
  "IsContiguousLayout [3, 4] [8, 24] fortran_order 8 \<and> \<not> IsContiguousLayout [3, 4] [32, 8] fortran_order 8"
proof -
  have s: "(0::int) < 8" "\<forall>s \<in> set [3, 4 :: int]. 1 \<le> s" "8 * prod_list [3, 4 :: int] \<le> index_max"
    by (simp_all add: index_consts)
  have "IsContiguousLayout [3, 4] [8, 24] fortran_order 8 \<longleftrightarrow> [8, 24] = ComputeStrides fortran_order 8 [3, 4]"
    "IsContiguousLayout [3, 4] [32, 8] fortran_order 8 \<longleftrightarrow> [32, 8] = ComputeStrides fortran_order 8 [3, 4]"
    by (rule is_contiguous_layout_exact [OF _ s]; simp)+
  moreover have "ComputeStrides fortran_order 8 [3, 4] = [8, 24]" by code_simp
  ultimately show ?thesis by simp
qed

text \<open>The branch-free rounded divisions are the mathematical floor and ceiling, for
  denominators of either sign.\<close>

lemma ratio_rounding:
  assumes "b \<noteq> 0"
  shows "FloorOfRatio a b = a div b \<and> CeilOfRatio a b = - ((- a) div b)"
  using assms by (simp add: FloorOfRatio_eq CeilOfRatio_eq ceil_div_def)

lemma ratio_rounding_example: "FloorOfRatio 7 (- 2) = - 4 \<and> CeilOfRatio 7 (- 2) = - 3"
  using ratio_rounding [of "- 2" 7] by simp

text \<open>The portable fallbacks for overflow detection agree with the compiler builtins on all
  64-bit operands, both in the flag and in the wrapped result.\<close>

lemma overflow_fallbacks_agree:
  assumes "in_int64 a" "in_int64 b"
  shows "AddOverflow_portable a b = AddOverflow a b \<and> SubOverflow_portable a b = SubOverflow a b \<and>
    MulOverflow_portable a b = MulOverflow a b"
  using AddOverflow_portable_eq [OF assms] SubOverflow_portable_eq [OF assms]
    MulOverflow_portable_eq [OF assms] by blast

lemma overflow_fallbacks_agree_example:
  "MulOverflow_portable (2 ^ 62) 2 = MulOverflow (2 ^ 62) 2"
proof -
  have "in_int64 (2 ^ 62)" "in_int64 2" by code_simp+
  from overflow_fallbacks_agree [OF this] show ?thesis by blast
qed

text \<open>A transform applied outside its domain reports \<^verbatim>\<open>OutOfRange\<close>, and when it returns a
  position the input was in the domain.\<close>

lemma transform_indices_domain_checked:
  assumes "length x = input_rank t"
  shows "(\<not> in_domain t x \<longrightarrow> TransformIndices t x = Inl OutOfRange) \<and>
    (\<forall>y. TransformIndices t x = Inr y \<longrightarrow> in_domain t x \<and> length y = output_rank t)"
  using TransformIndices_out_of_domain [OF assms] TransformIndices_Inr_iff [OF assms] by blast

lemma transform_indices_domain_checked_example:
  "TransformIndices ex_a_to_b [10] = Inl OutOfRange"
proof -
  have "length [10] = input_rank ex_a_to_b" "\<not> in_domain ex_a_to_b [10]" by code_simp+
  then show ?thesis using transform_indices_domain_checked [of "[10]" ex_a_to_b] by blast
qed

section \<open>Boundary behaviour of composition\<close>

definition ex_implicit_dim :: "int \<Rightarrow> int \<Rightarrow> index_domain_dimension" where
  "ex_implicit_dim lo hi = \<lparr>optionally_implicit_interval =
     \<lparr>interval = UncheckedClosed lo hi, implicit_lower = True, implicit_upper = False\<rparr>, label = []\<rparr>"

text \<open>C39: an implicit finite lower bound of \<open>b_to_c\<close> above an explicit upper bound of \<open>a_to_b\<close>
  moves the upper bound of the composition beyond it: here the composition accepts the index 7,
  which \<open>a_to_b\<close> rejects.\<close>

theorem composition_with_implicit_bound_grows_domain:
  "\<exists>c. ComposeTransforms \<lparr>input_dims = [ex_implicit_dim 10 20], output_index_maps = [identity_map 0]\<rparr>
         \<lparr>input_dims = [ex_implicit_dim (- kInfIndex) 5], output_index_maps = [identity_map 0]\<rparr> False = Inr c \<and>
     TransformIndices \<lparr>input_dims = [ex_implicit_dim (- kInfIndex) 5], output_index_maps = [identity_map 0]\<rparr> [7] =
       Inl OutOfRange \<and>
     TransformIndices c [7] = Inr [7]"
proof -
  let ?a = "\<lparr>input_dims = [ex_implicit_dim (- kInfIndex) 5], output_index_maps = [identity_map 0]\<rparr>"
  let ?b = "\<lparr>input_dims = [ex_implicit_dim 10 20], output_index_maps = [identity_map 0]\<rparr>"
  have "case ComposeTransforms ?b ?a False of Inr c \<Rightarrow> TransformIndices c [7] = Inr [7] | Inl _ \<Rightarrow> False"
    by code_simp
  moreover have "TransformIndices ?a [7] = Inl OutOfRange" by code_simp
  ultimately show ?thesis by (auto split: sum.splits)
qed

definition ex_empty_implicit :: index_domain_dimension where
  "ex_empty_implicit = \<lparr>optionally_implicit_interval =
     \<lparr>interval = mk_interval 0 0, implicit_lower = True, implicit_upper = True\<rparr>, label = []\<rparr>"

definition ex_indirect :: transform_rep where
  "ex_indirect = \<lparr>input_dims = [explicit_dim (mk_interval 0 3)], output_index_maps =
     [\<lparr>map_method = Method_array \<lparr>element_pointer = (\<lambda>p. p), index_range = Infinite, byte_strides = [8]\<rparr>,
       map_offset = 0, map_stride = 1\<rparr>]\<rparr>"

definition ex_into_indirect :: transform_rep where
  "ex_into_indirect = \<lparr>input_dims = [ex_empty_implicit], output_index_maps = [constant_map 1]\<rparr>"

text \<open>C40: composing a transform that has an index array with one whose domain has a dimension of
  size zero with implicit bounds reads the index through the null pointer that
  \<^verbatim>\<open>TransformArraySubRegion\<close> returns for empty regions.\<close>

theorem composition_reads_through_null_pointer:
  "DebugCheckInvariants ex_indirect \<and> DebugCheckInvariants ex_into_indirect \<and>
   ComposeTransforms ex_indirect ex_into_indirect False = Inl NullDereference"
proof -
  have "DebugCheckInvariants ex_indirect" "DebugCheckInvariants ex_into_indirect" by code_simp+
  moreover have "case ComposeTransforms ex_indirect ex_into_indirect False of
      Inl e \<Rightarrow> e = NullDereference | Inr _ \<Rightarrow> False" by code_simp
  ultimately show ?thesis by (auto split: sum.splits)
qed

end
